(* ===== verification/Prelude.thy ===== *)
theory Prelude
  imports Main "HOL-Library.Word"
begin

text \<open>
  Shared vocabulary of the development: the machine integers of the C programs, runs of an
  executable step function under an arbitrary scheduler, and the three interfaces every
  concurrent component is proved against (a machine with an invariant, one whose steps
  decrease a measure, one that never gets stuck before it is finished).
\<close>

section \<open>Collections\<close>

named_theorems step_simps \<open>equations of the step functions of the components\<close>
named_theorems inv_defs \<open>definitions of the invariants of the components\<close>

section \<open>Machine integers of the C programs\<close>

type_synonym u8 = "8 word"
type_synonym u16 = "16 word"
type_synonym u32 = "32 word"
type_synonym u64 = "64 word"

text \<open>
  The C type \<open>int\<close> is modelled by the mathematical integers where a component shows that its
  values stay in range; these are its limits.
\<close>

definition INT_MAX :: int where "INT_MAX = 2147483647"
definition INT_MIN :: int where "INT_MIN = - 2147483648"

definition in_int :: "int \<Rightarrow> bool" where
  "in_int v \<longleftrightarrow> INT_MIN \<le> v \<and> v \<le> INT_MAX"

text \<open>Conversion of a wider integer to \<open>int\<close> keeps the low 32 bits (two's complement).\<close>

definition to_int :: "int \<Rightarrow> int" where
  "to_int v = (v + 2147483648) mod 4294967296 - 2147483648"

lemma to_int_id [simp]: "in_int v \<Longrightarrow> to_int v = v"
  by (simp add: to_int_def in_int_def INT_MAX_def INT_MIN_def)

lemma in_int_to_int [simp]: "in_int (to_int v)"
proof -
  have "0 \<le> (v + 2147483648) mod 4294967296" and "(v + 2147483648) mod 4294967296 < 4294967296"
    by simp_all
  then show ?thesis unfolding in_int_def to_int_def INT_MAX_def INT_MIN_def by linarith
qed

text \<open>Signed addition: an overflow is undefined behaviour and gives \<open>None\<close>.\<close>

definition int_add :: "int \<Rightarrow> int \<Rightarrow> int option" where
  "int_add a b = (if in_int (a + b) then Some (a + b) else None)"

lemma unat_Suc_below: "unat (i + 1) = Suc (unat i)" if "i < n" for i n :: "'a::len word"
proof -
  have "1 + i \<noteq> 0"
  proof
    assume "1 + i = 0"
    then have "i = - 1" by (simp add: eq_neg_iff_add_eq_0 add.commute)
    with that word_n1_ge [of n] show False by (simp add: leD)
  qed
  then show ?thesis by (simp add: unatSuc add.commute)
qed

section \<open>Runs of a step function\<close>

text \<open>
  \<open>next s e = Some t\<close>: from \<open>s\<close> the thread (or choice) \<open>e\<close> can make its next atomic step,
  which leads to \<open>t\<close>; \<open>None\<close>: it is blocked or has terminated. A schedule is a list of
  such choices; a state is reachable when some schedule leads to it.
\<close>

fun run :: "('s \<Rightarrow> 'e \<Rightarrow> 's option) \<Rightarrow> 's \<Rightarrow> 'e list \<Rightarrow> 's option" where
  "run nxt s [] = Some s"
| "run nxt s (e # es) = (case nxt s e of None \<Rightarrow> None | Some t \<Rightarrow> run nxt t es)"

inductive reach :: "('s \<Rightarrow> 'e \<Rightarrow> 's option) \<Rightarrow> 's \<Rightarrow> 's \<Rightarrow> bool" for nxt s0 where
  reach_start: "reach nxt s0 s0"
| reach_step: "reach nxt s0 s \<Longrightarrow> nxt s e = Some t \<Longrightarrow> reach nxt s0 t"

definition stuck :: "('s \<Rightarrow> 'e \<Rightarrow> 's option) \<Rightarrow> 's \<Rightarrow> bool" where
  "stuck nxt s \<longleftrightarrow> (\<forall>e. nxt s e = None)"

lemma run_append:
  "run nxt s (es @ fs) = (case run nxt s es of None \<Rightarrow> None | Some t \<Rightarrow> run nxt t fs)"
  by (induction es arbitrary: s) (auto split: option.splits)

lemma reach_run_from: "reach nxt s0 s \<Longrightarrow> run nxt s es = Some t \<Longrightarrow> reach nxt s0 t"
proof (induction es arbitrary: s)
  case Nil
  then show ?case by simp
next
  case (Cons e es)
  then obtain u where "nxt s e = Some u" and "run nxt u es = Some t"
    by (auto split: option.splits)
  with Cons show ?case by (blast intro: reach_step)
qed

lemma run_reach: "run nxt s0 es = Some s \<Longrightarrow> reach nxt s0 s"
  by (rule reach_run_from [OF reach_start])

lemma reach_iff_run: "reach nxt s0 s \<longleftrightarrow> (\<exists>es. run nxt s0 es = Some s)"
proof
  assume "reach nxt s0 s"
  then show "\<exists>es. run nxt s0 es = Some s"
  proof (induction rule: reach.induct)
    case reach_start
    show ?case by (rule exI [of _ "[]"]) simp
  next
    case (reach_step s e t)
    then obtain es where "run nxt s0 es = Some s" by blast
    with reach_step.hyps have "run nxt s0 (es @ [e]) = Some t" by (simp add: run_append)
    then show ?case ..
  qed
qed (blast intro: run_reach)

section \<open>The interfaces of the concurrent components\<close>

text \<open>A machine with an invariant.\<close>

locale machine_inv =
  fixes nxt :: "'s \<Rightarrow> 'e \<Rightarrow> 's option" and init :: "'s \<Rightarrow> bool" and inv :: "'s \<Rightarrow> bool"
  assumes inv_init: "init s0 \<Longrightarrow> inv s0"
    and inv_step: "inv s \<Longrightarrow> nxt s e = Some t \<Longrightarrow> inv t"
begin

lemma reach_inv: "reach nxt s0 s \<Longrightarrow> init s0 \<Longrightarrow> inv s"
  by (induction rule: reach.induct) (auto intro: inv_init inv_step)

lemma run_inv: "inv s \<Longrightarrow> run nxt s es = Some t \<Longrightarrow> inv t"
  by (induction es arbitrary: s) (auto split: option.splits intro: inv_step)

end

text \<open>Every step decreases a measure: all schedules are bounded.\<close>

locale machine_term = machine_inv +
  fixes meas :: "'a \<Rightarrow> nat"
  assumes meas_step: "inv s \<Longrightarrow> nxt s e = Some t \<Longrightarrow> meas t < meas s"
begin

lemma run_meas: "inv s \<Longrightarrow> run nxt s es = Some t \<Longrightarrow> length es + meas t \<le> meas s"
proof (induction es arbitrary: s)
  case Nil
  then show ?case by simp
next
  case (Cons e es)
  then obtain u where u: "nxt s e = Some u" "run nxt u es = Some t"
    by (auto split: option.splits)
  with Cons.prems have "inv u" by (auto intro: inv_step)
  with u Cons.IH have "length es + meas t \<le> meas u" by blast
  with u Cons.prems meas_step [of s e u] show ?case by simp
qed

lemma run_bounded: "init s0 \<Longrightarrow> run nxt s0 es = Some t \<Longrightarrow> length es \<le> meas s0"
  using run_meas [OF inv_init] by fastforce

end

text \<open>
  Whatever has happened, the program can still get to its end. Single steps, such as those of a
  thread that polls, need not bring it nearer.
\<close>

locale machine_can = machine_inv +
  fixes meas :: "'a \<Rightarrow> nat" and final :: "'a \<Rightarrow> bool"
  assumes advance: "inv s \<Longrightarrow> \<not> final s \<Longrightarrow> \<exists>es t. run nxt s es = Some t \<and> meas t < meas s"
begin

lemma finishes: "inv s \<Longrightarrow> \<exists>es t. run nxt s es = Some t \<and> final t"
proof (induction "meas s" arbitrary: s rule: less_induct)
  case less
  show ?case
  proof (cases "final s")
    case True
    then have "run nxt s [] = Some s \<and> final s" by simp
    then show ?thesis by blast
  next
    case False
    then obtain es t where t: "run nxt s es = Some t" "meas t < meas s" using advance less.prems by blast
    then obtain fs u where "run nxt t fs = Some u" "final u" using less run_inv by blast
    with t have "run nxt s (es @ fs) = Some u \<and> final u" by (simp add: run_append)
    then show ?thesis by blast
  qed
qed

lemma finishes_reach: "reach nxt s0 s \<Longrightarrow> init s0 \<Longrightarrow> \<exists>es t. run nxt s es = Some t \<and> final t"
  by (rule finishes [OF reach_inv])

end

text \<open>No reachable state is stuck unless the program has finished.\<close>

locale machine_live = machine_term +
  fixes final :: "'a \<Rightarrow> bool"
  assumes progress: "inv s \<Longrightarrow> \<not> final s \<Longrightarrow> \<exists>e t. nxt s e = Some t"
begin

lemma no_deadlock: "reach nxt s0 s \<Longrightarrow> init s0 \<Longrightarrow> stuck nxt s \<Longrightarrow> final s"
  using progress [OF reach_inv] by (force simp: stuck_def)

end

sublocale machine_live \<subseteq> machine_can nxt init inv meas final
proof
  fix s assume inv: "inv s" and ne: "\<not> final s"
  then obtain e t where t: "nxt s e = Some t" using progress by blast
  then have "run nxt s [e] = Some t" "meas t < meas s" using meas_step [OF inv] by simp_all
  then show "\<exists>es t. run nxt s es = Some t \<and> meas t < meas s" by blast
qed

section \<open>Association lists\<close>

lemma map_of_insert_mid: "a \<notin> fst ` set xs \<Longrightarrow> map_of (xs @ (a, v) # ys) = (map_of (xs @ ys))(a \<mapsto> v)"
  by (induction xs) auto

lemma map_of_remove_mid:
  assumes "a \<notin> fst ` set xs" "a \<notin> fst ` set ys"
  shows "map_of (xs @ ys) = (map_of (xs @ (a, v) # ys))(a := None)"
proof -
  have "map_of (xs @ ys) a = None" using assms by (simp only: map_of_eq_None_iff) auto
  then show ?thesis by (simp only: map_of_insert_mid [OF assms(1)] fun_upd_upd) (simp add: fun_upd_idem)
qed

lemma length_filter_all: "length xs \<le> length (filter P xs) \<longleftrightarrow> list_all P xs"
proof (induction xs)
  case (Cons x xs)
  show ?case
  proof (cases "P x")
    case True
    with Cons show ?thesis by simp
  next
    case False
    with length_filter_le [of P xs] show ?thesis by (simp add: Suc_le_eq not_less)
  qed
qed simp

section \<open>Sums\<close>

lemma sum_upd:
  fixes f :: "'a \<Rightarrow> 'b::comm_monoid_add"
  assumes "(k::nat) < n"
  shows "(\<Sum>j<n. f ((g(k := p)) j)) + f (g k) = (\<Sum>j<n. f (g j)) + f p"
proof -
  have split: "(\<Sum>j<n. f (h j)) = f (h k) + (\<Sum>j \<in> {..<n} - {k}. f (h j))" for h :: "nat \<Rightarrow> 'a"
    using assms by (intro sum.remove) auto
  have "(\<Sum>j \<in> {..<n} - {k}. f ((g(k := p)) j)) = (\<Sum>j \<in> {..<n} - {k}. f (g j))"
    by (rule sum.cong) auto
  then show ?thesis unfolding split [of "g(k := p)"] split [of g] by (simp add: ac_simps)
qed

lemma sum_fun_upd_less:
  "(n::nat) < N \<Longrightarrow> f' n < f n \<Longrightarrow> (\<And>m. m \<noteq> n \<Longrightarrow> f' m = f m) \<Longrightarrow> sum f' {..<N} < sum f {..<N}"
  for f f' :: "nat \<Rightarrow> nat"
  by (rule sum_strict_mono_ex1) (auto simp: le_less, metis le_less)

lemma sum_list_update_group:
  "k < length xs \<Longrightarrow> sum_list (xs[k := v]) = sum_list xs + v - xs ! k" for xs :: "'a::ab_group_add list"
proof (induction xs arbitrary: k)
  case (Cons x xs)
  then show ?case by (cases k) auto
qed simp

lemma nth_update_if: "k < length xs \<Longrightarrow> xs[k := v] ! j = (if j = k then v else xs ! j)"
  by (simp add: nth_list_update)

end
