(* ===== verification/Pthread.thy ===== *)
theory Pthread
  imports Prelude
begin

text \<open>
  The synchronisation objects the programs share (POSIX threads and semaphores), each as the
  value it keeps and the effect of its calls; a call that has to wait is \<open>None\<close>, so that a
  thread that makes it has no step. Threads are numbered.
\<close>

section \<open>Mutexes\<close>

type_synonym pmutex = "nat option"

definition mutex_init :: pmutex where "mutex_init = None"

fun mutex_lock :: "pmutex \<Rightarrow> nat \<Rightarrow> pmutex option" where
  "mutex_lock None t = Some (Some t)"
| "mutex_lock (Some _) t = None"

text \<open>Only the owner may unlock a mutex; anything else is undefined and has no step here.\<close>

fun mutex_unlock :: "pmutex \<Rightarrow> nat \<Rightarrow> pmutex option" where
  "mutex_unlock None t = None"
| "mutex_unlock (Some u) t = (if u = t then Some None else None)"

lemma mutex_lock_Some [simp]: "mutex_lock m t = Some m' \<longleftrightarrow> m = None \<and> m' = Some t"
  by (cases m) auto

lemma mutex_lock_None [simp]: "mutex_lock m t = None \<longleftrightarrow> m \<noteq> None"
  by (cases m) auto

lemma mutex_unlock_Some [simp]: "mutex_unlock m t = Some m' \<longleftrightarrow> m = Some t \<and> m' = None"
  by (cases m) auto

lemma mutex_unlock_None [simp]: "mutex_unlock m t = None \<longleftrightarrow> m \<noteq> Some t"
  by (cases m) auto

text \<open>
  \<open>owned C H\<close>: the mutexes \<open>C\<close> are owned exactly as the threads' program points say, where
  \<open>H t\<close> is the set of mutexes thread \<open>t\<close> holds at its program point.
\<close>

definition owned :: "(nat \<Rightarrow> pmutex) \<Rightarrow> (nat \<Rightarrow> nat set) \<Rightarrow> bool" where
  "owned C H \<longleftrightarrow> (\<forall>c t. C c = Some t \<longleftrightarrow> c \<in> H t)"

lemma owned_lock:
  "owned C H \<Longrightarrow> C c = None \<Longrightarrow> owned (C(c := Some t)) (H(t := insert c (H t)))"
  by (auto simp: owned_def) (metis option.distinct(1))+

lemma owned_unlock:
  "owned C H \<Longrightarrow> C c = Some t \<Longrightarrow> owned (C(c := None)) (H(t := H t - {c}))"
  by (auto simp: owned_def) (metis option.inject)+

lemma owned_exclusive: "owned C H \<Longrightarrow> c \<in> H t \<Longrightarrow> c \<in> H u \<Longrightarrow> t = u"
  unfolding owned_def by (metis option.inject)

text \<open>A step of a thread keeps the mutex, takes it when it is free, or gives it back.\<close>

definition mutex_moved :: "pmutex \<Rightarrow> pmutex \<Rightarrow> nat \<Rightarrow> bool \<Rightarrow> bool \<Rightarrow> bool" where
  "mutex_moved m m' t h h' \<longleftrightarrow> m' = m \<and> h' = h \<or> m = None \<and> m' = Some t \<and> h' \<or> m = Some t \<and> m' = None \<and> \<not> h'"

lemma mutex_moved_holder:
  assumes "mutex_moved m m' t h h'" "m = Some t \<longleftrightarrow> h"
  shows "m' = Some t \<longleftrightarrow> h'" "u \<noteq> t \<Longrightarrow> m' = Some u \<longleftrightarrow> m = Some u"
  using assms by (auto simp: mutex_moved_def)

section \<open>Counting semaphores\<close>

definition sem_wait :: "nat \<Rightarrow> nat option" where
  "sem_wait v = (if 0 < v then Some (v - 1) else None)"

definition sem_post :: "nat \<Rightarrow> nat option" where
  "sem_post v = Some (v + 1)"

lemma sem_wait_Some [simp]: "sem_wait v = Some v' \<longleftrightarrow> v = Suc v'"
  by (auto simp: sem_wait_def)

lemma sem_wait_None [simp]: "sem_wait v = None \<longleftrightarrow> v = 0"
  by (auto simp: sem_wait_def)

lemma sem_post_Some [simp]: "sem_post v = Some v' \<longleftrightarrow> v' = Suc v"
  by (auto simp: sem_post_def)

lemma sem_post_not_None [simp]: "sem_post v \<noteq> None"
  by (simp add: sem_post_def)

end
