(* ===== verification/MyQueue.thy ===== *)
theory MyQueue
  imports Pthread
begin

text \<open>
  The FIFO of \<^verbatim>\<open>exercise06/task3/myqueue.h\<close> (the same file serves exercises 6, 8 and 11): a
  \<^verbatim>\<open>STAILQ\<close> of entries allocated with \<^verbatim>\<open>malloc\<close>. The locale \<open>fifo_queue\<close> is the
  contract its clients rely on; the interpretation at the end discharges it for the code.
\<close>

section \<open>The contract of a FIFO queue\<close>

text \<open>
  A client is a sequence of calls; running it collects the popped values. \<open>None\<close> is the failed
  assertion of a pop from the empty queue. The abstract queue is a list.
\<close>

datatype 'v queue_op = Push 'v | Pop

fun queue_exec :: "('q \<Rightarrow> 'v \<Rightarrow> 'q) \<Rightarrow> ('q \<Rightarrow> ('v \<times> 'q) option) \<Rightarrow> 'q \<Rightarrow> 'v queue_op list
    \<Rightarrow> ('v list \<times> 'q) option" where
  "queue_exec push pop q [] = Some ([], q)"
| "queue_exec push pop q (Push v # ops) = queue_exec push pop (push q v) ops"
| "queue_exec push pop q (Pop # ops) =
     (case pop q of None \<Rightarrow> None
      | Some (v, q') \<Rightarrow> map_option (\<lambda>(vs, r). (v # vs, r)) (queue_exec push pop q' ops))"

definition list_push :: "'v list \<Rightarrow> 'v \<Rightarrow> 'v list" where
  "list_push vs v = vs @ [v]"

fun list_pop :: "'v list \<Rightarrow> ('v \<times> 'v list) option" where
  "list_pop [] = None"
| "list_pop (v # vs) = Some (v, vs)"

locale fifo_queue =
  fixes emp :: 'q and is_emp :: "'q \<Rightarrow> bool" and push :: "'q \<Rightarrow> 'v \<Rightarrow> 'q"
    and pop :: "'q \<Rightarrow> ('v \<times> 'q) option" and qinv :: "'q \<Rightarrow> bool" and contents :: "'q \<Rightarrow> 'v list"
  assumes inv_emp: "qinv emp"
    and contents_emp: "contents emp = []"
    and is_emp_iff: "qinv q \<Longrightarrow> is_emp q \<longleftrightarrow> contents q = []"
    and inv_push: "qinv q \<Longrightarrow> qinv (push q v)"
    and contents_push: "qinv q \<Longrightarrow> contents (push q v) = contents q @ [v]"
    and inv_pop: "qinv q \<Longrightarrow> pop q = Some (v, q') \<Longrightarrow> qinv q'"
    and contents_pop: "qinv q \<Longrightarrow> pop q = Some (v, q') \<Longrightarrow> contents q = v # contents q'"
    and pop_defined: "qinv q \<Longrightarrow> \<not> is_emp q \<Longrightarrow> \<exists>v q'. pop q = Some (v, q')"
begin

lemma pop_None_iff: "qinv q \<Longrightarrow> pop q = None \<longleftrightarrow> contents q = []"
  by (cases "pop q") (use pop_defined [of q] is_emp_iff [of q] contents_pop [of q] in auto)

lemma pop_Cons: "qinv q \<Longrightarrow> contents q = v # vs \<Longrightarrow> \<exists>q'. pop q = Some (v, q') \<and> qinv q' \<and> contents q' = vs"
  using pop_defined [of q] is_emp_iff [of q] contents_pop [of q] inv_pop [of q] by fastforce

lemma exec_refines:
  "qinv q \<Longrightarrow> map_option (\<lambda>(vs, r). (vs, contents r)) (queue_exec push pop q ops)
     = queue_exec list_push list_pop (contents q) ops"
proof (induction ops arbitrary: q)
  case Nil
  then show ?case by simp
next
  case (Cons op ops)
  show ?case
  proof (cases op)
    case (Push v)
    with Cons show ?thesis by (simp add: inv_push contents_push list_push_def)
  next
    case Pop
    show ?thesis
    proof (cases "contents q")
      case Nil
      with Cons.prems have "pop q = None" by (simp add: pop_None_iff)
      with Pop Nil show ?thesis by simp
    next
      case (Cons v vs)
      with Cons.prems obtain q' where q': "pop q = Some (v, q')" "qinv q'" "contents q' = vs"
        using pop_Cons by blast
      from Cons.IH [OF q'(2)] q' Pop Cons show ?thesis
        by (auto simp: option.map_comp comp_def split_beta simp flip: Cons.IH [OF q'(2)])
    qed
  qed
qed

lemma exec_inv: "qinv q \<Longrightarrow> queue_exec push pop q ops = Some (vs, r) \<Longrightarrow> qinv r"
proof (induction ops arbitrary: q vs r)
  case (Cons op ops)
  then show ?case
    by (cases op; auto split: option.splits; blast intro: inv_push inv_pop)
qed simp

end

section \<open>The queue of the code\<close>

text \<open>
  \<open>entries\<close> is the tail queue itself: the addresses of its entries in order, on which the
  \<^verbatim>\<open>STAILQ\<close> macros work as stailq(3) documents them (insertion at the tail, first, removal
  of the head). \<open>cells\<close> is the part of the heap the queue has allocated, with the \<open>value\<close> field
  of each entry; \<open>brk\<close> is the next address \<^verbatim>\<open>malloc\<close> returns (a fresh one; the code does not
  check for \<open>NULL\<close>, and running out of memory is not modelled).
\<close>

record myqueue =
  entries :: "nat list"
  cells :: "nat \<Rightarrow> int option"
  brk :: nat

definition myqueue_init :: myqueue where
  "myqueue_init = \<lparr>entries = [], cells = Map.empty, brk = 0\<rparr>"

definition myqueue_is_empty :: "myqueue \<Rightarrow> bool" where
  "myqueue_is_empty q = (entries q = [])"

definition myqueue_push :: "myqueue \<Rightarrow> int \<Rightarrow> myqueue" where
  "myqueue_push q value =
     (let entry = brk q
      in q\<lparr>brk := entry + 1, cells := (cells q)(entry := Some value),
           entries := entries q @ [entry]\<rparr>)"

text \<open>A failing assertion and a read of an unallocated entry are both \<open>None\<close>.\<close>

definition myqueue_pop :: "myqueue \<Rightarrow> (int \<times> myqueue) option" where
  "myqueue_pop q =
     (case entries q of
        [] \<Rightarrow> None
      | entry # rest \<Rightarrow>
          (case cells q entry of
             None \<Rightarrow> None
           | Some value \<Rightarrow> Some (value, q\<lparr>entries := rest, cells := (cells q)(entry := None)\<rparr>)))"

text \<open>
  Every queued entry is allocated, every allocated entry is queued (nothing leaks), and fresh
  addresses are fresh.
\<close>

definition myqueue_inv :: "myqueue \<Rightarrow> bool" where
  "myqueue_inv q \<longleftrightarrow> distinct (entries q) \<and> dom (cells q) = set (entries q)
     \<and> (\<forall>a \<in> set (entries q). a < brk q)"

definition myqueue_values :: "myqueue \<Rightarrow> int list" where
  "myqueue_values q = map (\<lambda>a. the (cells q a)) (entries q)"

lemma myqueue_init_inv: "myqueue_inv myqueue_init"
  by (simp add: myqueue_inv_def myqueue_init_def)

lemma myqueue_push_inv: "myqueue_inv q \<Longrightarrow> myqueue_inv (myqueue_push q v)"
  by (fastforce simp: myqueue_inv_def myqueue_push_def Let_def)

lemma myqueue_push_values:
  "myqueue_inv q \<Longrightarrow> myqueue_values (myqueue_push q v) = myqueue_values q @ [v]"
  by (auto simp: myqueue_inv_def myqueue_push_def myqueue_values_def Let_def)

lemma myqueue_pop_inv: "myqueue_inv q \<Longrightarrow> myqueue_pop q = Some (v, q') \<Longrightarrow> myqueue_inv q'"
  by (fastforce simp: myqueue_inv_def myqueue_pop_def dom_def set_eq_iff
        split: list.splits option.splits if_splits)

lemma myqueue_pop_values:
  "myqueue_inv q \<Longrightarrow> myqueue_pop q = Some (v, q') \<Longrightarrow> myqueue_values q = v # myqueue_values q'"
  by (auto simp: myqueue_inv_def myqueue_pop_def myqueue_values_def split: list.splits option.splits)

lemma myqueue_pop_defined:
  assumes "myqueue_inv q" and "\<not> myqueue_is_empty q"
  shows "\<exists>v q'. myqueue_pop q = Some (v, q')"
proof -
  from assms(2) obtain a rest where e: "entries q = a # rest"
    by (cases "entries q") (auto simp: myqueue_is_empty_def)
  with assms(1) have "a \<in> dom (cells q)" by (simp add: myqueue_inv_def)
  with e show ?thesis by (auto simp: myqueue_pop_def)
qed

interpretation mq: fifo_queue myqueue_init myqueue_is_empty myqueue_push myqueue_pop
  myqueue_inv myqueue_values
proof unfold_locales
  show "myqueue_values myqueue_init = []" by (simp add: myqueue_values_def myqueue_init_def)
  show "myqueue_is_empty q \<longleftrightarrow> myqueue_values q = []" for q
    by (simp add: myqueue_is_empty_def myqueue_values_def)
qed (fact myqueue_init_inv myqueue_push_inv myqueue_push_values myqueue_pop_inv
      myqueue_pop_values myqueue_pop_defined)+

lemmas myqueue_laws = mq.inv_emp mq.contents_emp mq.is_emp_iff mq.inv_push mq.contents_push

section \<open>Properties\<close>

text \<open>C25: the heap-allocated queue refines the abstract FIFO list: any client, started on an
  initialised queue, pops exactly the values the list would give it, in order, and aborts on a
  failed assertion exactly where the list is empty.\<close>

theorem myqueue_refines_list:
  "map_option (\<lambda>(vs, q). (vs, myqueue_values q))
     (queue_exec myqueue_push myqueue_pop myqueue_init ops)
   = queue_exec list_push list_pop [] ops"
  using mq.exec_refines [OF mq.inv_emp] by (simp add: mq.contents_emp)

text \<open>no memory leaks and no use after free: after any run of calls the allocated entries are
  exactly the queued ones, and a queue that has become empty owns no memory.\<close>

theorem myqueue_no_leak:
  assumes "queue_exec myqueue_push myqueue_pop myqueue_init ops = Some (vs, q)"
  shows "dom (cells q) = set (entries q) \<and> (myqueue_is_empty q \<longrightarrow> cells q = Map.empty)"
proof -
  have "myqueue_inv q" by (rule mq.exec_inv [OF mq.inv_emp assms])
  then show ?thesis by (auto simp: myqueue_inv_def myqueue_is_empty_def)
qed

theorem myqueue_no_leak_witness:
  "\<exists>q. queue_exec myqueue_push myqueue_pop myqueue_init [Push 7, Push 8, Pop] = Some ([7], q)
     \<and> dom (cells q) = set (entries q)"
proof -
  obtain q where q: "queue_exec myqueue_push myqueue_pop myqueue_init [Push 7, Push 8, Pop]
      = Some ([7], q)"
    by (simp add: myqueue_push_def myqueue_pop_def myqueue_init_def Let_def)
  with myqueue_no_leak [OF q] show ?thesis by blast
qed

end
