(* ===== verification/Philosophers.thy ===== *)
theory Philosophers
  imports Pthread
begin

text \<open>
  The dining philosophers of \<^verbatim>\<open>exercise07/task2/task2.c\<close>: \<open>NUM_PHILOSOPHER\<close> threads that run
  \<^verbatim>\<open>dine\<close> and the main thread that initialises the mutexes, creates the threads, joins them and
  destroys the mutexes. Every mutex call is one atomic step; the scheduler chooses the thread.
\<close>

section \<open>Model\<close>

definition NUM_PHILOSOPHER :: nat where "NUM_PHILOSOPHER = 10"
definition EAT_ITERATIONS :: nat where "EAT_ITERATIONS = 5000"

definition RIGHT_CHOPSTICK :: "nat \<Rightarrow> nat" where "RIGHT_CHOPSTICK n = n"
definition LEFT_CHOPSTICK :: "nat \<Rightarrow> nat" where "LEFT_CHOPSTICK n = (n + 1) mod NUM_PHILOSOPHER"

text \<open>The two locks of an iteration, in the order philosopher \<open>n\<close> takes them.\<close>

definition first_lock :: "nat \<Rightarrow> nat" where
  "first_lock n = (if n \<noteq> NUM_PHILOSOPHER - 1 then RIGHT_CHOPSTICK n else LEFT_CHOPSTICK n)"

definition second_lock :: "nat \<Rightarrow> nat" where
  "second_lock n = (if n \<noteq> NUM_PHILOSOPHER - 1 then LEFT_CHOPSTICK n else RIGHT_CHOPSTICK n)"

datatype dine_pc = NotCreated | LockFirst | LockSecond | Eating | UnlockLeft | UnlockRight | Returned

record philosopher =
  iteration :: nat
  dine_at :: dine_pc

datatype main_pc = InitMutex nat | CreateThread nat | JoinThread nat | DestroyMutex nat | Exited

record dining =
  chopstick :: "nat \<Rightarrow> pmutex"
  philosophers :: "nat \<Rightarrow> philosopher"
  main_at :: main_pc

definition dining_init :: dining where
  "dining_init = \<lparr>chopstick = (\<lambda>_. mutex_init),
     philosophers = (\<lambda>_. \<lparr>iteration = 0, dine_at = NotCreated\<rparr>), main_at = InitMutex 0\<rparr>"

text \<open>The head of the for loop of \<^verbatim>\<open>dine\<close>, on entry and after an iteration.\<close>

definition dine_loop :: "nat \<Rightarrow> philosopher" where
  "dine_loop i = \<lparr>iteration = i, dine_at = (if i < EAT_ITERATIONS then LockFirst else Returned)\<rparr>"

definition dine_goto :: "dining \<Rightarrow> nat \<Rightarrow> dine_pc \<Rightarrow> dining" where
  "dine_goto s n pc = s\<lparr>philosophers := (philosophers s)(n := (philosophers s n)\<lparr>dine_at := pc\<rparr>)\<rparr>"

definition chopstick_set :: "dining \<Rightarrow> nat \<Rightarrow> pmutex \<Rightarrow> dining" where
  "chopstick_set s c m = s\<lparr>chopstick := (chopstick s)(c := m)\<rparr>"

definition dine :: "nat \<Rightarrow> dining \<Rightarrow> dining option" where
  "dine n s = (case dine_at (philosophers s n) of
       NotCreated \<Rightarrow> None
     | LockFirst \<Rightarrow> map_option (\<lambda>m. dine_goto (chopstick_set s (first_lock n) m) n LockSecond)
         (mutex_lock (chopstick s (first_lock n)) n)
     | LockSecond \<Rightarrow> map_option (\<lambda>m. dine_goto (chopstick_set s (second_lock n) m) n Eating)
         (mutex_lock (chopstick s (second_lock n)) n)
     | Eating \<Rightarrow> Some (dine_goto s n UnlockLeft)
     | UnlockLeft \<Rightarrow> map_option (\<lambda>m. dine_goto (chopstick_set s (LEFT_CHOPSTICK n) m) n UnlockRight)
         (mutex_unlock (chopstick s (LEFT_CHOPSTICK n)) n)
     | UnlockRight \<Rightarrow> map_option (\<lambda>m. (chopstick_set s (RIGHT_CHOPSTICK n) m)
           \<lparr>philosophers := (philosophers s)(n := dine_loop (iteration (philosophers s n) + 1))\<rparr>)
         (mutex_unlock (chopstick s (RIGHT_CHOPSTICK n)) n)
     | Returned \<Rightarrow> None)"

text \<open>
  Joining waits for the thread; destroying a mutex that is locked is undefined, so it has no
  step, and the theorem that the program never gets stuck shows that it does not happen.
\<close>

definition dining_main :: "dining \<Rightarrow> dining option" where
  "dining_main s = (case main_at s of
       InitMutex i \<Rightarrow>
         if i < NUM_PHILOSOPHER
         then Some ((chopstick_set s i mutex_init)\<lparr>main_at := InitMutex (i + 1)\<rparr>)
         else Some (s\<lparr>main_at := CreateThread 0\<rparr>)
     | CreateThread i \<Rightarrow>
         if i < NUM_PHILOSOPHER
         then Some (s\<lparr>philosophers := (philosophers s)(i := dine_loop 0), main_at := CreateThread (i + 1)\<rparr>)
         else Some (s\<lparr>main_at := JoinThread 0\<rparr>)
     | JoinThread i \<Rightarrow>
         if i < NUM_PHILOSOPHER
         then (if dine_at (philosophers s i) = Returned then Some (s\<lparr>main_at := JoinThread (i + 1)\<rparr>) else None)
         else Some (s\<lparr>main_at := DestroyMutex 0\<rparr>)
     | DestroyMutex i \<Rightarrow>
         if i < NUM_PHILOSOPHER
         then (if chopstick s i = None then Some (s\<lparr>main_at := DestroyMutex (i + 1)\<rparr>) else None)
         else Some (s\<lparr>main_at := Exited\<rparr>)
     | Exited \<Rightarrow> None)"

datatype dining_thread = Main | Philosopher nat

fun dining_next :: "dining \<Rightarrow> dining_thread \<Rightarrow> dining option" where
  "dining_next s Main = dining_main s"
| "dining_next s (Philosopher n) = (if n < NUM_PHILOSOPHER then dine n s else None)"

lemmas dining_upd = dine_goto_def chopstick_set_def

section \<open>Invariant\<close>

fun holds :: "nat \<Rightarrow> dine_pc \<Rightarrow> nat set" where
  "holds n LockSecond = {first_lock n}"
| "holds n Eating = {LEFT_CHOPSTICK n, RIGHT_CHOPSTICK n}"
| "holds n UnlockLeft = {LEFT_CHOPSTICK n, RIGHT_CHOPSTICK n}"
| "holds n UnlockRight = {RIGHT_CHOPSTICK n}"
| "holds n _ = {}"

fun created :: "main_pc \<Rightarrow> nat" where
  "created (InitMutex _) = 0"
| "created (CreateThread i) = i"
| "created _ = NUM_PHILOSOPHER"

fun joined :: "main_pc \<Rightarrow> nat" where
  "joined (JoinThread i) = i"
| "joined (DestroyMutex _) = NUM_PHILOSOPHER"
| "joined Exited = NUM_PHILOSOPHER"
| "joined _ = 0"

abbreviation at :: "dining \<Rightarrow> nat \<Rightarrow> dine_pc" where
  "at s n \<equiv> dine_at (philosophers s n)"

definition held :: "dining \<Rightarrow> nat \<Rightarrow> nat set" where
  "held s n = (if n < NUM_PHILOSOPHER then holds n (at s n) else {})"

definition locks_inv :: "dining \<Rightarrow> bool" where
  "locks_inv s \<longleftrightarrow> owned (chopstick s) (held s)"

definition threads_inv :: "dining \<Rightarrow> bool" where
  "threads_inv s \<longleftrightarrow> created (main_at s) \<le> NUM_PHILOSOPHER
     \<and> (\<forall>n. at s n = NotCreated \<longleftrightarrow> created (main_at s) \<le> n)
     \<and> (\<forall>n < joined (main_at s). n < NUM_PHILOSOPHER \<longrightarrow> at s n = Returned)
     \<and> (\<forall>n. at s n \<notin> {NotCreated, Returned} \<longrightarrow> iteration (philosophers s n) < EAT_ITERATIONS)"

definition dining_inv :: "dining \<Rightarrow> bool" where
  "dining_inv s \<longleftrightarrow> locks_inv s \<and> threads_inv s"

lemma left_less: "LEFT_CHOPSTICK n < NUM_PHILOSOPHER"
  by (simp add: LEFT_CHOPSTICK_def NUM_PHILOSOPHER_def)

lemma lock_order:
  assumes "n < NUM_PHILOSOPHER"
  shows "first_lock n < second_lock n" and "second_lock n < NUM_PHILOSOPHER"
    and "{first_lock n, second_lock n} = {LEFT_CHOPSTICK n, RIGHT_CHOPSTICK n}"
    and "LEFT_CHOPSTICK n \<noteq> RIGHT_CHOPSTICK n"
  using assms by (auto simp: first_lock_def second_lock_def LEFT_CHOPSTICK_def RIGHT_CHOPSTICK_def
      NUM_PHILOSOPHER_def mod_Suc)

lemma holds_Eating: "n < NUM_PHILOSOPHER \<Longrightarrow> holds n Eating = {first_lock n, second_lock n}"
  using lock_order(3) [of n] by simp

lemma dine_loop_simps [simp]:
  "iteration (dine_loop i) = i" "dine_at (dine_loop i) \<noteq> NotCreated"
  "holds n (dine_at (dine_loop i)) = {}"
  "dine_at (dine_loop i) = Returned \<longleftrightarrow> EAT_ITERATIONS \<le> i"
  by (auto simp: dine_loop_def)

lemma dining_init_inv: "dining_inv dining_init"
  by (simp add: dining_inv_def locks_inv_def threads_inv_def dining_init_def mutex_init_def
      owned_def held_def)

lemma held_goto: "n < NUM_PHILOSOPHER \<Longrightarrow> held (dine_goto s n pc) = (held s)(n := holds n pc)"
  by (auto simp: held_def dine_goto_def fun_eq_iff)

lemma held_chopstick [simp]: "held (chopstick_set s c m) = held s"
  by (auto simp: held_def chopstick_set_def fun_eq_iff)

lemma held_main [simp]: "held (s\<lparr>main_at := m\<rparr>) = held s"
  by (auto simp: held_def fun_eq_iff)

lemma chopstick_goto [simp]: "chopstick (dine_goto s n pc) = chopstick s"
  by (simp add: dine_goto_def)

lemma chopstick_chopstick [simp]: "chopstick (chopstick_set s c m) = (chopstick s)(c := m)"
  by (simp add: chopstick_set_def)

lemma held_idle:
  "holds n (at s n) = {} \<Longrightarrow> dine_at p \<in> {NotCreated, LockFirst, Returned} \<Longrightarrow>
   held (s\<lparr>philosophers := (philosophers s)(n := p)\<rparr>) = held s"
  by (auto simp: held_def fun_eq_iff)

lemma dine_loop_pc: "dine_at (dine_loop i) \<in> {NotCreated, LockFirst, Returned}"
  by (simp add: dine_loop_def)

lemma none_held: "locks_inv s \<Longrightarrow> \<forall>n<NUM_PHILOSOPHER. holds n (at s n) = {} \<Longrightarrow> chopstick s c = None"
  by (cases "chopstick s c") (auto simp: locks_inv_def owned_def held_def split: if_splits)

lemma main_keeps_locks:
  assumes "dining_inv s" and "dining_main s = Some t"
  shows "locks_inv t"
proof -
  have chop: "chopstick s c = None" if "main_at s = InitMutex i" for c i
    by (rule none_held) (use assms(1) that in \<open>auto simp: dining_inv_def threads_inv_def\<close>)
  have idle: "holds i (at s i) = {}" if "main_at s = CreateThread i" for i
  proof -
    from assms(1) that have "at s i = NotCreated" by (simp add: dining_inv_def threads_inv_def)
    then show ?thesis by simp
  qed
  have same: "(chopstick s)(i := mutex_init) = chopstick s" if "main_at s = InitMutex j" for i j
    using chop [OF that] by (simp add: fun_eq_iff mutex_init_def)
  show ?thesis
    using assms held_idle [OF idle dine_loop_pc]
    by (auto simp: dining_inv_def locks_inv_def dining_main_def same
        split: main_pc.splits if_splits)
qed

lemma main_keeps_threads: "dining_inv s \<Longrightarrow> dining_main s = Some t \<Longrightarrow> threads_inv t"
  unfolding dining_inv_def
  by (auto simp: dining_main_def dining_upd threads_inv_def less_Suc_eq
      split: main_pc.splits if_splits)

lemma dine_keeps_threads:
  assumes "dining_inv s" and "dine n s = Some t"
  shows "threads_inv t"
proof -
  from assms(1) have T: "threads_inv s" by (simp add: dining_inv_def)
  have act: "at s n \<notin> {NotCreated, Returned}"
    using assms(2) by (auto simp: dine_def)
  with T have n: "n < created (main_at s)" "iteration (philosophers s n) < EAT_ITERATIONS"
    and j: "n < joined (main_at s) \<Longrightarrow> \<not> n < NUM_PHILOSOPHER"
    by (auto simp: threads_inv_def not_le [symmetric])
  show ?thesis
    using assms(2) T n j unfolding threads_inv_def
    by (auto simp: dine_def dining_upd split: dine_pc.splits if_splits)
qed

lemma dine_keeps_locks:
  assumes inv: "dining_inv s" and n: "n < NUM_PHILOSOPHER" and step: "dine n s = Some t"
  shows "locks_inv t"
proof -
  note ord = lock_order [OF n]
  from inv have L: "owned (chopstick s) (held s)" by (simp add: dining_inv_def locks_inv_def)
  have H: "held s n = holds n (at s n)" using n by (simp add: held_def)
  have loop: "held ((chopstick_set s c C)\<lparr>philosophers := (philosophers s)(n := dine_loop i)\<rparr>)
      = (held s)(n := {})" for c C i
    using n by (auto simp: held_def fun_eq_iff chopstick_set_def)
  have eat: "(held s)(n := {LEFT_CHOPSTICK n, RIGHT_CHOPSTICK n}) = held s" if "at s n = Eating"
    using H that by (auto simp: fun_eq_iff)
  have left: "{LEFT_CHOPSTICK n, RIGHT_CHOPSTICK n} - {LEFT_CHOPSTICK n} = {RIGHT_CHOPSTICK n}"
    using ord by auto
  have both: "{second_lock n, first_lock n} = {LEFT_CHOPSTICK n, RIGHT_CHOPSTICK n}"
    using ord by auto
  show ?thesis
    using step L owned_lock [OF L, of "first_lock n" n] owned_lock [OF L, of "second_lock n" n]
      owned_unlock [OF L, of "LEFT_CHOPSTICK n" n] owned_unlock [OF L, of "RIGHT_CHOPSTICK n" n]
    by (auto simp: dine_def locks_inv_def held_goto n H left both loop eat split: dine_pc.splits)
qed

lemma dining_inv_step: "dining_inv s \<Longrightarrow> dining_next s e = Some t \<Longrightarrow> dining_inv t"
  by (cases e) (auto simp: dining_inv_def split: if_splits
      intro: main_keeps_locks main_keeps_threads dine_keeps_locks dine_keeps_threads)

section \<open>Termination\<close>

fun dine_rank :: "dine_pc \<Rightarrow> nat" where
  "dine_rank LockFirst = 5" | "dine_rank LockSecond = 4" | "dine_rank Eating = 3"
| "dine_rank UnlockLeft = 2" | "dine_rank UnlockRight = 1" | "dine_rank _ = 0"

definition dine_meas :: "philosopher \<Rightarrow> nat" where
  "dine_meas p = (case dine_at p of NotCreated \<Rightarrow> 5 * EAT_ITERATIONS + 1 | Returned \<Rightarrow> 0
     | pc \<Rightarrow> 5 * (EAT_ITERATIONS - iteration p - 1) + dine_rank pc)"

fun main_meas :: "main_pc \<Rightarrow> nat" where
  "main_meas (InitMutex i) = (NUM_PHILOSOPHER - i) + 3 * NUM_PHILOSOPHER + 4"
| "main_meas (CreateThread i) = (NUM_PHILOSOPHER - i) + 2 * NUM_PHILOSOPHER + 3"
| "main_meas (JoinThread i) = (NUM_PHILOSOPHER - i) + NUM_PHILOSOPHER + 2"
| "main_meas (DestroyMutex i) = (NUM_PHILOSOPHER - i) + 1"
| "main_meas Exited = 0"

definition dining_meas :: "dining \<Rightarrow> nat" where
  "dining_meas s = main_meas (main_at s) + (\<Sum>n<NUM_PHILOSOPHER. dine_meas (philosophers s n))"

lemma sum_dine_less:
  "n < NUM_PHILOSOPHER \<Longrightarrow> dine_meas p < dine_meas (P n) \<Longrightarrow>
   (\<Sum>m<NUM_PHILOSOPHER. dine_meas ((P(n := p)) m)) < (\<Sum>m<NUM_PHILOSOPHER. dine_meas (P m))"
  by (rule sum_fun_upd_less) auto

lemma dine_meas_loop: "dine_meas (dine_loop i) \<le> 5 * (EAT_ITERATIONS - i)"
  by (auto simp: dine_meas_def dine_loop_def)

lemma dine_decreases:
  assumes inv: "dining_inv s" and n: "n < NUM_PHILOSOPHER" and step: "dine n s = Some t"
  shows "dining_meas t < dining_meas s"
proof -
  let ?p = "philosophers s n"
  have act: "at s n \<notin> {NotCreated, Returned}" using step by (auto simp: dine_def)
  with inv have it: "iteration ?p < EAT_ITERATIONS" by (simp add: dining_inv_def threads_inv_def)
  have last: "dine_meas (dine_loop (Suc (iteration ?p))) < dine_meas ?p" if "at s n = UnlockRight"
    using dine_meas_loop [of "Suc (iteration ?p)"] that it by (simp add: dine_meas_def)
  have "dine_meas (philosophers t n) < dine_meas ?p \<and> main_at t = main_at s
      \<and> philosophers t = (philosophers s)(n := philosophers t n)"
  proof (cases "at s n = UnlockRight")
    case True
    with last step show ?thesis by (auto simp: dine_def chopstick_set_def)
  next
    case False
    with step show ?thesis by (auto simp: dine_def dining_upd dine_meas_def split: dine_pc.splits)
  qed
  with sum_dine_less [OF n, of "philosophers t n" "philosophers s"] show ?thesis
    unfolding dining_meas_def by (metis add_strict_left_mono)
qed

lemma create_decreases:
  assumes "dining_inv s" and "main_at s = CreateThread i" and "i < NUM_PHILOSOPHER"
  shows "(\<Sum>m<NUM_PHILOSOPHER. dine_meas (((philosophers s)(i := dine_loop 0)) m))
    < (\<Sum>m<NUM_PHILOSOPHER. dine_meas (philosophers s m))"
proof (rule sum_dine_less [OF assms(3)])
  have "at s i = NotCreated" using assms by (simp add: dining_inv_def threads_inv_def)
  then show "dine_meas (dine_loop 0) < dine_meas (philosophers s i)"
    using dine_meas_loop [of 0] by (simp add: dine_meas_def)
qed

lemma main_decreases:
  assumes "dining_inv s" and "dining_main s = Some t"
  shows "dining_meas t < dining_meas s"
  using assms create_decreases [OF assms(1)]
  by (fastforce simp: dining_main_def dining_meas_def chopstick_set_def
      split: main_pc.splits if_splits intro: add_less_mono)

section \<open>Absence of deadlock\<close>

text \<open>
  Whoever holds a chopstick either can move or waits for a larger one: by induction on the
  distance to the largest chopstick somebody can move.
\<close>

lemma holder_moves:
  assumes inv: "dining_inv s" and c: "chopstick s c = Some n"
  shows "\<exists>m t. m < NUM_PHILOSOPHER \<and> dine m s = Some t"
  using c
proof (induction "NUM_PHILOSOPHER - c" arbitrary: c n rule: less_induct)
  case less
  from inv have L: "owned (chopstick s) (held s)" by (simp add: dining_inv_def locks_inv_def)
  with less.prems have "c \<in> held s n" by (simp add: owned_def)
  then have n: "n < NUM_PHILOSOPHER" and h: "c \<in> holds n (at s n)"
    by (auto simp: held_def split: if_splits)
  have own: "d \<in> holds n (at s n) \<Longrightarrow> chopstick s d = Some n" for d
    using L n by (simp add: owned_def held_def)
  show ?case
  proof (cases "at s n = LockSecond \<and> chopstick s (second_lock n) \<noteq> None")
    case True
    then obtain m where m: "chopstick s (second_lock n) = Some m" by auto
    have "c = first_lock n" using True h by simp
    with lock_order(1,2) [OF n] have "NUM_PHILOSOPHER - second_lock n < NUM_PHILOSOPHER - c" by linarith
    then show ?thesis using less.hyps m by blast
  next
    case False
    then have "\<exists>t. dine n s = Some t"
      using h own by (auto simp: dine_def split: dine_pc.splits)
    with n show ?thesis by blast
  qed
qed

lemma phil_moves:
  assumes "dining_inv s" and "n < NUM_PHILOSOPHER" and "at s n \<notin> {NotCreated, Returned}"
  shows "\<exists>m t. m < NUM_PHILOSOPHER \<and> dine m s = Some t"
proof (cases "\<exists>c m. chopstick s c = Some m")
  case True
  then show ?thesis using holder_moves [OF assms(1)] by blast
next
  case False
  then have free: "chopstick s c = None" for c by auto
  then have "held s n = {}"
    using assms(1) by (auto simp: dining_inv_def locks_inv_def owned_def)
  then have "holds n (at s n) = {}" using assms(2) by (simp add: held_def)
  then have "at s n = LockFirst" using assms(3) by (cases "at s n") auto
  then have "dine n s \<noteq> None" using free by (simp add: dine_def)
  with assms(2) show ?thesis by blast
qed

definition dining_final :: "dining \<Rightarrow> bool" where
  "dining_final s \<longleftrightarrow> main_at s = Exited"

lemma dining_progress:
  assumes inv: "dining_inv s" and nf: "\<not> dining_final s"
  shows "\<exists>e t. dining_next s e = Some t"
proof (cases "dining_main s")
  case (Some t)
  then have "dining_next s Main = Some t" by simp
  then show ?thesis by blast
next
  case None
  have destroy: "chopstick s i = None" if "main_at s = DestroyMutex j" for i j
    by (rule none_held)
       (use inv that in \<open>auto simp: dining_inv_def threads_inv_def\<close>)
  then obtain i where j: "main_at s = JoinThread i" "i < NUM_PHILOSOPHER" "at s i \<noteq> Returned"
    using None nf by (auto simp: dining_main_def dining_final_def split: main_pc.splits if_splits)
  have "at s i \<noteq> NotCreated" using inv j by (simp add: dining_inv_def threads_inv_def)
  with j inv obtain m t where "m < NUM_PHILOSOPHER" "dine m s = Some t"
    using phil_moves by blast
  then have "dining_next s (Philosopher m) = Some t" by simp
  then show ?thesis by blast
qed

interpretation dining: machine_live dining_next "\<lambda>s. s = dining_init" dining_inv dining_meas dining_final
proof unfold_locales
  show "s = dining_init \<Longrightarrow> dining_inv s" for s by (simp add: dining_init_inv)
next
  fix s e t assume "dining_inv s" and "dining_next s e = Some t"
  then show "dining_meas t < dining_meas s"
    by (cases e) (auto intro: dine_decreases main_decreases split: if_splits)
qed (erule (1) dining_inv_step dining_progress)+

section \<open>Properties\<close>

text \<open>C24: a chopstick is never shared: two neighbouring philosophers are never both eating.\<close>

theorem neighbours_do_not_eat_together:
  assumes "reach dining_next dining_init s" and "n < NUM_PHILOSOPHER"
    and "dine_at (philosophers s n) = Eating"
  shows "dine_at (philosophers s (LEFT_CHOPSTICK n)) \<noteq> Eating"
proof
  assume e: "at s (LEFT_CHOPSTICK n) = Eating"
  have L: "owned (chopstick s) (held s)"
    using dining.reach_inv [OF assms(1) refl] by (simp add: dining_inv_def locks_inv_def)
  have "LEFT_CHOPSTICK n \<in> held s n" using assms by (simp add: held_def)
  moreover have "LEFT_CHOPSTICK n \<in> held s (LEFT_CHOPSTICK n)"
    using e left_less by (simp add: held_def RIGHT_CHOPSTICK_def)
  ultimately have "n = LEFT_CHOPSTICK n" by (rule owned_exclusive [OF L])
  then show False using lock_order(4) [OF assms(2)] by (simp add: RIGHT_CHOPSTICK_def)
qed

theorem neighbours_do_not_eat_together_witness:
  "\<exists>s. reach dining_next dining_init s \<and> dine_at (philosophers s 9) = Eating
     \<and> dine_at (philosophers s 0) \<noteq> Eating"
proof -
  let ?es = "replicate 21 Main @ [Philosopher 9, Philosopher 9]"
  have "(case run dining_next dining_init ?es of None \<Rightarrow> False
      | Some s \<Rightarrow> dine_at (philosophers s 9) = Eating)"
    by code_simp
  then obtain s where s: "run dining_next dining_init ?es = Some s"
    "dine_at (philosophers s 9) = Eating" by (auto split: option.splits)
  have "LEFT_CHOPSTICK 9 = 0" by (simp add: LEFT_CHOPSTICK_def NUM_PHILOSOPHER_def)
  with neighbours_do_not_eat_together [OF run_reach [OF s(1)], of 9] s(2)
  have "dine_at (philosophers s 0) \<noteq> Eating" by (simp add: NUM_PHILOSOPHER_def)
  with s run_reach [OF s(1)] show ?thesis by blast
qed

text \<open>C2: the program is free of deadlocks: in every reachable state in which main has not
  exited (having joined all philosophers and destroyed only unlocked mutexes), some thread can
  make its next step.\<close>

theorem dining_deadlock_free:
  assumes "reach dining_next dining_init s" and "main_at s \<noteq> Exited"
  shows "\<exists>e t. dining_next s e = Some t"
  using dining_progress [OF dining.reach_inv [OF assms(1) refl]] assms(2)
  by (simp add: dining_final_def)

theorem dining_deadlock_free_witness:
  "\<exists>s. reach dining_next dining_init s \<and> (\<forall>n < 9. dine_at (philosophers s n) = LockSecond)
     \<and> dining_next s (Philosopher 9) = None \<and> (\<exists>e t. dining_next s e = Some t)"
proof -
  let ?es = "replicate 22 Main @ map Philosopher [0..<9]"
  have "(case run dining_next dining_init ?es of None \<Rightarrow> False
      | Some s \<Rightarrow> (\<forall>n < 9. dine_at (philosophers s n) = LockSecond) \<and> main_at s \<noteq> Exited
          \<and> Option.is_none (dining_next s (Philosopher 9)))"
    by code_simp
  then obtain s where s: "run dining_next dining_init ?es = Some s" "main_at s \<noteq> Exited"
    "\<forall>n < 9. dine_at (philosophers s n) = LockSecond" "dining_next s (Philosopher 9) = None"
    by (auto split: option.splits simp: Option.is_none_def)
  from dining_deadlock_free [OF run_reach [OF s(1)] s(2)] s run_reach [OF s(1)]
  show ?thesis by blast
qed

text \<open>Every schedule is finite, with the bound the measure of the initial state gives
  (five steps for each of the 5000 iterations of each of the ten philosophers, and the steps of main).\<close>

theorem dining_terminates:
  assumes "run dining_next dining_init es = Some s"
  shows "length es \<le> 250054"
proof -
  have "dining_meas dining_init = 250054"
    by (simp add: dining_meas_def dining_init_def dine_meas_def NUM_PHILOSOPHER_def EAT_ITERATIONS_def)
  with dining.run_bounded [OF refl assms] show ?thesis by simp
qed

theorem dining_terminates_witness:
  "\<exists>s. run dining_next dining_init (replicate 21 Main) = Some s \<and> length (replicate 21 Main) \<le> 250054"
proof -
  have "run dining_next dining_init (replicate 21 Main) \<noteq> None" by code_simp
  then obtain s where s: "run dining_next dining_init (replicate 21 Main) = Some s" by auto
  with dining_terminates [OF s] show ?thesis by blast
qed

text \<open>from every reachable state there is a schedule that lets all philosophers finish
  their 5000 iterations and main exit.\<close>

theorem dining_can_finish:
  assumes "reach dining_next dining_init s"
  shows "\<exists>es t. run dining_next s es = Some t \<and> main_at t = Exited
     \<and> (\<forall>n < NUM_PHILOSOPHER. dine_at (philosophers t n) = Returned)"
proof -
  obtain es t where t: "run dining_next s es = Some t" "dining_final t"
    using dining.finishes_reach [OF assms refl] by blast
  have "dining_inv t" by (rule dining.run_inv [OF dining.reach_inv [OF assms refl] t(1)])
  with t show ?thesis by (auto simp: dining_final_def dining_inv_def threads_inv_def)
qed

theorem dining_can_finish_witness:
  "\<exists>es t. run dining_next dining_init es = Some t \<and> main_at t = Exited"
  using dining_can_finish [OF reach_start] by blast

end
