(* ===== verification/RingBuffer.thy ===== *)
theory RingBuffer
  imports Pthread
begin

text \<open>
  The shared ring buffer of \<^verbatim>\<open>exercise05/task2/task2.c\<close> (no synchronisation) and
  \<^verbatim>\<open>exercise05/task3/task3.c\<close> (two counting semaphores): child A writes \<open>i * N\<close> to
  \<^verbatim>\<open>buffer[i % L]\<close> for \<open>i = 1..K\<close>, child B adds the same slots to \<open>result\<close>, the parent
  waits for both and validates the result. All integers are \<^verbatim>\<open>uint64_t\<close>, so they wrap.
\<close>

section \<open>Validation of the result\<close>

text \<open>
  The loop of \<^verbatim>\<open>validate_result\<close>; for \<open>K = UINT64_MAX\<close> its condition never fails, so
  the loop is a partial function.
\<close>

partial_function (option) validate_loop :: "u64 \<Rightarrow> u64 \<Rightarrow> u64 \<Rightarrow> u64 \<Rightarrow> u64 option" where
  "validate_loop i result K N =
     (if i \<le> K then validate_loop (i + 1) (result - N * i) K N else Some result)"

definition validate_result :: "u64 \<Rightarrow> u64 \<Rightarrow> u64 \<Rightarrow> u64 option" where
  "validate_result result K N = validate_loop 1 result K N"

text \<open>The sum of the first \<open>n\<close> items, modulo \<open>2 ^ 64\<close>.\<close>

definition ring_sum :: "u64 \<Rightarrow> nat \<Rightarrow> u64" where
  "ring_sum N n = (\<Sum>j = 1..n. of_nat j * N)"

lemma ring_sum_0 [simp]: "ring_sum N 0 = 0"
  by (simp add: ring_sum_def)

lemma ring_sum_Suc [simp]: "ring_sum N (Suc n) = ring_sum N n + of_nat (Suc n) * N"
  by (simp add: ring_sum_def)

lemma of_nat_unat64: "of_nat (unat i) = i" for i :: u64
  by simp

lemma ring_sum_unat: "0 < unat i \<Longrightarrow> ring_sum N (unat i) = ring_sum N (unat i - 1) + i * N"
  for i :: u64
  by (cases "unat i") (use of_nat_unat64 [of i] in auto)

lemma no_wrap: "K < - 1 \<Longrightarrow> i \<le> K \<Longrightarrow> unat (i + 1) = Suc (unat i)" for i K :: u64
  by (rule unat_Suc_below [of i "- 1"]) simp

lemma validate_loop_sum:
  assumes K: "K < - 1"
  shows "unat i \<le> Suc (unat K) \<Longrightarrow> 0 < unat i \<Longrightarrow>
     validate_loop i r K N = Some (r + ring_sum N (unat i - 1) - ring_sum N (unat K))"
proof (induction "Suc (unat K) - unat i" arbitrary: i r)
  case 0
  then have "unat i = Suc (unat K)" by simp
  then show ?case by (subst validate_loop.simps) (simp add: word_le_nat_alt)
next
  case (Suc d)
  then have le: "i \<le> K" by (simp add: word_le_nat_alt)
  note u = no_wrap [OF K le]
  have "d = Suc (unat K) - unat (i + 1)" "unat (i + 1) \<le> Suc (unat K)" "0 < unat (i + 1)"
    using Suc.hyps(2) u le by (auto simp: word_le_nat_alt)
  from Suc.hyps(1) [OF this]
  have "validate_loop (i + 1) (r - N * i) K N
      = Some (r - N * i + ring_sum N (unat i) - ring_sum N (unat K))"
    by (simp add: u)
  also have "r - N * i + ring_sum N (unat i) = r + ring_sum N (unat i - 1)"
    using Suc.prems by (simp add: ring_sum_unat algebra_simps)
  finally show ?case using le by (subst validate_loop.simps) simp
qed

lemma validate_result_sum:
  "K < - 1 \<Longrightarrow> validate_result r K N = Some (r - ring_sum N (unat K))"
  using validate_loop_sum [of K 1 r N] by (simp add: validate_result_def)

section \<open>The program with semaphores\<close>

record ring_cfg =
  cN :: u64
  cK :: u64
  cL :: u64

text \<open>
  Program points of a child: at its \<^verbatim>\<open>sem_wait\<close>, at the access to the buffer, at its
  \<^verbatim>\<open>sem_post\<close>, exited.
\<close>

datatype child_pc = Wait | Access | Post | ChildExit

datatype parent_pc = Waiting | Validated "u64 option"

record ring =
  result :: u64
  sem_fd_1 :: nat
  sem_fd_2 :: nat
  buffer :: "u64 list"
  a_i :: u64
  a_pc :: child_pc
  b_i :: u64
  b_pc :: child_pc
  parent :: parent_pc

text \<open>The condition of the children's for loops.\<close>

definition loop_pc :: "ring_cfg \<Rightarrow> u64 \<Rightarrow> child_pc" where
  "loop_pc cfg i = (if i \<le> cK cfg then Wait else ChildExit)"

text \<open>
  \<^verbatim>\<open>sem_init\<close> takes an \<^verbatim>\<open>unsigned int\<close>, so \<open>L\<close> loses its upper half; values above
  \<open>SEM_VALUE_MAX\<close> are an error, which the code only reports. \<open>ring_ok\<close> below keeps to the
  parameters for which the semaphores are initialised.
\<close>

definition SEM_VALUE_MAX :: nat where "SEM_VALUE_MAX = 2147483647"

definition sem_value :: "u64 \<Rightarrow> nat" where
  "sem_value v = unat (ucast v :: u32)"

definition ring_init :: "ring_cfg \<Rightarrow> ring" where
  "ring_init cfg = \<lparr>result = 0, sem_fd_1 = sem_value 0, sem_fd_2 = sem_value (cL cfg),
     buffer = replicate (unat (cL cfg)) 0, a_i = 1, a_pc = loop_pc cfg 1,
     b_i = 1, b_pc = loop_pc cfg 1, parent = Waiting\<rparr>"

definition child_a :: "ring_cfg \<Rightarrow> ring \<Rightarrow> ring option" where
  "child_a cfg s = (case a_pc s of
       Wait \<Rightarrow> map_option (\<lambda>v. s\<lparr>sem_fd_2 := v, a_pc := Access\<rparr>) (sem_wait (sem_fd_2 s))
     | Access \<Rightarrow> Some (s\<lparr>buffer := (buffer s)[unat (a_i s mod cL cfg) := a_i s * cN cfg], a_pc := Post\<rparr>)
     | Post \<Rightarrow> map_option (\<lambda>v. s\<lparr>sem_fd_1 := v, a_i := a_i s + 1, a_pc := loop_pc cfg (a_i s + 1)\<rparr>)
         (sem_post (sem_fd_1 s))
     | ChildExit \<Rightarrow> None)"

definition child_b :: "ring_cfg \<Rightarrow> ring \<Rightarrow> ring option" where
  "child_b cfg s = (case b_pc s of
       Wait \<Rightarrow> map_option (\<lambda>v. s\<lparr>sem_fd_1 := v, b_pc := Access\<rparr>) (sem_wait (sem_fd_1 s))
     | Access \<Rightarrow> Some (s\<lparr>result := result s + buffer s ! unat (b_i s mod cL cfg), b_pc := Post\<rparr>)
     | Post \<Rightarrow> map_option (\<lambda>v. s\<lparr>sem_fd_2 := v, b_i := b_i s + 1, b_pc := loop_pc cfg (b_i s + 1)\<rparr>)
         (sem_post (sem_fd_2 s))
     | ChildExit \<Rightarrow> None)"

text \<open>
  \<^verbatim>\<open>while (wait(NULL) > 0);\<close> returns when both children have exited; then the parent validates.
\<close>

definition ring_parent :: "ring_cfg \<Rightarrow> ring \<Rightarrow> ring option" where
  "ring_parent cfg s = (if parent s = Waiting \<and> a_pc s = ChildExit \<and> b_pc s = ChildExit
     then Some (s\<lparr>parent := Validated (validate_result (result s) (cK cfg) (cN cfg))\<rparr>) else None)"

datatype ring_process = Parent | A | B

fun ring_next :: "ring_cfg \<Rightarrow> ring \<Rightarrow> ring_process \<Rightarrow> ring option" where
  "ring_next cfg s Parent = ring_parent cfg s"
| "ring_next cfg s A = child_a cfg s"
| "ring_next cfg s B = child_b cfg s"

text \<open>
  The parameters main lets through (positive \<open>K\<close> and \<open>L\<close>) for which the semaphores can be
  initialised and the for loops end.
\<close>

definition ring_ok :: "ring_cfg \<Rightarrow> bool" where
  "ring_ok cfg \<longleftrightarrow> 0 < cK cfg \<and> 0 < cL cfg \<and> cK cfg < - 1
     \<and> unat (cL cfg) \<le> SEM_VALUE_MAX"

section \<open>Invariant\<close>

text \<open>How often each child has waited, accessed the buffer and posted.\<close>

definition waited :: "child_pc \<Rightarrow> u64 \<Rightarrow> nat" where
  "waited pc i = (if pc \<in> {Access, Post} then unat i else unat i - 1)"

definition accessed :: "child_pc \<Rightarrow> u64 \<Rightarrow> nat" where
  "accessed pc i = (if pc = Post then unat i else unat i - 1)"

lemma counts [simp]:
  "waited Wait i = unat i - 1" "waited Access i = unat i" "waited Post i = unat i"
  "waited ChildExit i = unat i - 1"
  "accessed Wait i = unat i - 1" "accessed Access i = unat i - 1" "accessed Post i = unat i"
  "accessed ChildExit i = unat i - 1"
  by (simp_all add: waited_def accessed_def)

definition child_inv :: "ring_cfg \<Rightarrow> child_pc \<Rightarrow> u64 \<Rightarrow> bool" where
  "child_inv cfg pc i \<longleftrightarrow> 0 < unat i \<and> unat i \<le> Suc (unat (cK cfg))
     \<and> (pc = ChildExit \<longleftrightarrow> unat (cK cfg) < unat i)"

definition sems_inv :: "ring_cfg \<Rightarrow> ring \<Rightarrow> bool" where
  "sems_inv cfg s \<longleftrightarrow> sem_fd_1 s + waited (b_pc s) (b_i s) = unat (a_i s) - 1
     \<and> sem_fd_2 s + waited (a_pc s) (a_i s) = unat (cL cfg) + (unat (b_i s) - 1)"

definition buffer_inv :: "ring_cfg \<Rightarrow> ring \<Rightarrow> bool" where
  "buffer_inv cfg s \<longleftrightarrow> length (buffer s) = unat (cL cfg)
     \<and> (\<forall>j. accessed (b_pc s) (b_i s) < j \<longrightarrow> j \<le> accessed (a_pc s) (a_i s)
          \<longrightarrow> buffer s ! (j mod unat (cL cfg)) = of_nat j * cN cfg)"

definition result_inv :: "ring_cfg \<Rightarrow> ring \<Rightarrow> bool" where
  "result_inv cfg s \<longleftrightarrow> result s = ring_sum (cN cfg) (accessed (b_pc s) (b_i s))"

definition parent_inv :: "ring_cfg \<Rightarrow> ring \<Rightarrow> bool" where
  "parent_inv cfg s \<longleftrightarrow> (parent s = Waiting \<or> a_pc s = ChildExit \<and> b_pc s = ChildExit
     \<and> parent s = Validated (Some 0))"

definition ring_inv :: "ring_cfg \<Rightarrow> ring \<Rightarrow> bool" where
  "ring_inv cfg s \<longleftrightarrow> ring_ok cfg \<and> child_inv cfg (a_pc s) (a_i s) \<and> child_inv cfg (b_pc s) (b_i s)
     \<and> sems_inv cfg s \<and> buffer_inv cfg s \<and> result_inv cfg s \<and> parent_inv cfg s"

lemmas ring_inv_parts = ring_inv_def sems_inv_def result_inv_def parent_inv_def

lemma sem_value_id: "unat v \<le> SEM_VALUE_MAX \<Longrightarrow> sem_value v = unat v"
  by (simp add: sem_value_def SEM_VALUE_MAX_def unsigned_ucast_eq take_bit_nat_eq_self)

lemma ring_init_inv: "ring_ok cfg \<Longrightarrow> ring_inv cfg (ring_init cfg)"
  using sem_value_id [of "cL cfg"] sem_value_id [of 0]
  by (auto simp: ring_inv_parts buffer_inv_def ring_init_def ring_ok_def child_inv_def loop_pc_def
      waited_def accessed_def word_less_nat_alt word_le_nat_alt)

lemma unat_mod_len: "unat (i mod L) = unat i mod unat L" for i L :: u64
  by (simp add: unat_mod)

lemma loop_next:
  assumes "ring_ok cfg" and "child_inv cfg pc i" and "pc \<noteq> ChildExit"
  shows "unat (i + 1) = Suc (unat i)" and "child_inv cfg (loop_pc cfg (i + 1)) (i + 1)"
    and "waited (loop_pc cfg (i + 1)) (i + 1) = unat i"
    and "accessed (loop_pc cfg (i + 1)) (i + 1) = unat i"
proof -
  from assms show u: "unat (i + 1) = Suc (unat i)"
    by (intro no_wrap [of "cK cfg"]) (auto simp: ring_ok_def child_inv_def word_le_nat_alt)
  with assms show "child_inv cfg (loop_pc cfg (i + 1)) (i + 1)"
    by (auto simp: child_inv_def loop_pc_def word_le_nat_alt)
  show "waited (loop_pc cfg (i + 1)) (i + 1) = unat i" "accessed (loop_pc cfg (i + 1)) (i + 1) = unat i"
    using u by (auto simp: waited_def accessed_def loop_pc_def)
qed

text \<open>Items that are still to be read are not overwritten: they are at distance less than \<open>L\<close>.\<close>

lemma slot_distinct: "j < i \<Longrightarrow> i - j < L \<Longrightarrow> j mod L \<noteq> i mod L" for i j L :: nat
proof
  assume "j < i" "i - j < L" "j mod L = i mod L"
  then have "(i - j) mod L = 0" by (metis mod_eq_dvd_iff_nat less_imp_le dvd_imp_mod_0)
  with \<open>j < i\<close> \<open>i - j < L\<close> show False by simp
qed

lemma buffer_write:
  assumes len: "length buf = L" "0 < L"
    and old: "\<forall>j. acc < j \<longrightarrow> j \<le> i - 1 \<longrightarrow> buf ! (j mod L) = f j"
    and near: "i \<le> L + acc" and j: "acc < j" "j \<le> i"
  shows "buf[i mod L := f i] ! (j mod L) = f j"
proof (cases "j = i")
  case True
  then show ?thesis using len by simp
next
  case False
  with near j have "j < i" "i - j < L" by auto
  then have "j mod L \<noteq> i mod L" by (rule slot_distinct)
  with old j False show ?thesis by simp
qed

lemma child_a_inv:
  assumes inv: "ring_inv cfg s" and step: "child_a cfg s = Some t"
  shows "ring_inv cfg t"
proof -
  from inv have ok: "ring_ok cfg" and I: "child_inv cfg (a_pc s) (a_i s)" "child_inv cfg (b_pc s) (b_i s)"
    "sems_inv cfg s" "buffer_inv cfg s" "result_inv cfg s" "parent_inv cfg s"
    by (simp_all add: ring_inv_def)
  have "child_inv cfg (a_pc t) (a_i t) \<and> child_inv cfg (b_pc t) (b_i t)
     \<and> sems_inv cfg t \<and> buffer_inv cfg t \<and> result_inv cfg t \<and> parent_inv cfg t"
  proof (cases "a_pc s")
    case Wait
    then obtain v where t: "sem_fd_2 s = Suc v" "t = s\<lparr>sem_fd_2 := v, a_pc := Access\<rparr>"
      using step by (auto simp: child_a_def)
    with Wait I show ?thesis
      by (simp add: child_inv_def sems_inv_def buffer_inv_def result_inv_def parent_inv_def)
  next
    case Access
    let ?L = "unat (cL cfg)" and ?i = "unat (a_i s)"
    have L: "0 < ?L" using ok by (simp add: ring_ok_def word_less_nat_alt)
    have near: "?i \<le> ?L + accessed (b_pc s) (b_i s)"
      using I(3) Access by (cases "b_pc s") (auto simp: sems_inv_def)
    have len: "length (buffer s) = ?L" using I(4) by (simp add: buffer_inv_def)
    have old: "\<forall>j. accessed (b_pc s) (b_i s) < j \<longrightarrow> j \<le> ?i - 1 \<longrightarrow>
        buffer s ! (j mod ?L) = of_nat j * cN cfg"
      using I(4) Access by (simp add: buffer_inv_def)
    have t: "t = s\<lparr>buffer := (buffer s)[?i mod ?L := of_nat ?i * cN cfg], a_pc := Post\<rparr>"
      using step Access by (simp add: child_a_def unat_mod_len)
    have "\<forall>j. accessed (b_pc s) (b_i s) < j \<longrightarrow> j \<le> ?i \<longrightarrow>
        (buffer s)[?i mod ?L := of_nat ?i * cN cfg] ! (j mod ?L) = of_nat j * cN cfg"
      using buffer_write [OF len L old near] by blast
    then have "buffer_inv cfg t" by (simp add: t buffer_inv_def len)
    with t Access I show ?thesis
      by (simp add: child_inv_def sems_inv_def result_inv_def parent_inv_def)
  next
    case Post
    then have t: "t = s\<lparr>sem_fd_1 := Suc (sem_fd_1 s), a_i := a_i s + 1, a_pc := loop_pc cfg (a_i s + 1)\<rparr>"
      using step by (simp add: child_a_def sem_post_def)
    have pc: "a_pc s \<noteq> ChildExit" and i: "0 < unat (a_i s)" using Post I(1) by (simp_all add: child_inv_def)
    from loop_next [OF ok I(1) pc] t Post I i show ?thesis
      by (simp add: sems_inv_def buffer_inv_def result_inv_def parent_inv_def)
  next
    case ChildExit
    with step show ?thesis by (simp add: child_a_def)
  qed
  with ok show ?thesis by (simp add: ring_inv_def)
qed


lemma child_b_inv:
  assumes inv: "ring_inv cfg s" and step: "child_b cfg s = Some t"
  shows "ring_inv cfg t"
proof -
  from inv have ok: "ring_ok cfg" and I: "child_inv cfg (a_pc s) (a_i s)" "child_inv cfg (b_pc s) (b_i s)"
    "sems_inv cfg s" "buffer_inv cfg s" "result_inv cfg s" "parent_inv cfg s"
    by (simp_all add: ring_inv_def)
  let ?i = "unat (b_i s)" and ?L = "unat (cL cfg)"
  have i: "0 < ?i" using I(2) by (simp add: child_inv_def)
  have "child_inv cfg (a_pc t) (a_i t) \<and> child_inv cfg (b_pc t) (b_i t)
     \<and> sems_inv cfg t \<and> buffer_inv cfg t \<and> result_inv cfg t \<and> parent_inv cfg t"
  proof (cases "b_pc s")
    case Wait
    then obtain v where "sem_fd_1 s = Suc v" "t = s\<lparr>sem_fd_1 := v, b_pc := Access\<rparr>"
      using step by (auto simp: child_b_def)
    with Wait I show ?thesis
      by (simp add: child_inv_def sems_inv_def buffer_inv_def result_inv_def parent_inv_def)
  next
    case Access
    then have t: "t = s\<lparr>result := result s + buffer s ! (?i mod ?L), b_pc := Post\<rparr>"
      using step by (simp add: child_b_def unat_mod_len)
    have "?i \<le> accessed (a_pc s) (a_i s)"
      using I(3) i Access by (cases "a_pc s") (auto simp: sems_inv_def)
    with I(4) i Access have "buffer s ! (?i mod ?L) = b_i s * cN cfg"
      by (auto simp: buffer_inv_def)
    with t Access I i show ?thesis
      by (simp add: child_inv_def sems_inv_def buffer_inv_def result_inv_def parent_inv_def ring_sum_unat)
  next
    case Post
    then have t: "t = s\<lparr>sem_fd_2 := Suc (sem_fd_2 s), b_i := b_i s + 1, b_pc := loop_pc cfg (b_i s + 1)\<rparr>"
      using step by (simp add: child_b_def sem_post_def)
    have pc: "b_pc s \<noteq> ChildExit" using Post by simp
    from loop_next [OF ok I(2) pc] t Post I i show ?thesis
      by (simp add: sems_inv_def buffer_inv_def result_inv_def parent_inv_def)
  next
    case ChildExit
    with step show ?thesis by (simp add: child_b_def)
  qed
  with ok show ?thesis by (simp add: ring_inv_def)
qed

lemma all_accessed:
  "child_inv cfg ChildExit i \<Longrightarrow> accessed ChildExit i = unat (cK cfg)"
  by (simp add: child_inv_def, linarith)

lemma ring_parent_inv:
  assumes inv: "ring_inv cfg s" and step: "ring_parent cfg s = Some t"
  shows "ring_inv cfg t"
proof -
  from inv step have ok: "ring_ok cfg" and I: "child_inv cfg ChildExit (a_i s)" "child_inv cfg ChildExit (b_i s)"
    "a_pc s = ChildExit" "b_pc s = ChildExit" "sems_inv cfg s" "buffer_inv cfg s" "result_inv cfg s"
    by (auto simp: ring_inv_def ring_parent_def split: if_splits)
  from I(4,7) all_accessed [OF I(2)] have "result s = ring_sum (cN cfg) (unat (cK cfg))"
    by (simp add: result_inv_def)
  then have "validate_result (result s) (cK cfg) (cN cfg) = Some 0"
    using ok by (simp add: validate_result_sum ring_ok_def)
  with step I ok show ?thesis
    by (auto simp: ring_inv_def ring_parent_def sems_inv_def buffer_inv_def result_inv_def parent_inv_def
        split: if_splits)
qed

lemma ring_inv_step: "ring_inv cfg s \<Longrightarrow> ring_next cfg s e = Some t \<Longrightarrow> ring_inv cfg t"
  by (cases e) (auto intro: child_a_inv child_b_inv ring_parent_inv)

section \<open>Termination and absence of deadlock\<close>

fun child_rank :: "child_pc \<Rightarrow> nat" where
  "child_rank Wait = 3" | "child_rank Access = 2" | "child_rank Post = 1" | "child_rank ChildExit = 0"

definition child_meas :: "ring_cfg \<Rightarrow> child_pc \<Rightarrow> u64 \<Rightarrow> nat" where
  "child_meas cfg pc i = 3 * (unat (cK cfg) - unat i) + child_rank pc"

definition ring_meas :: "ring_cfg \<Rightarrow> ring \<Rightarrow> nat" where
  "ring_meas cfg s = child_meas cfg (a_pc s) (a_i s) + child_meas cfg (b_pc s) (b_i s)
     + (if parent s = Waiting then 1 else 0)"

definition ring_final :: "ring \<Rightarrow> bool" where
  "ring_final s \<longleftrightarrow> parent s \<noteq> Waiting"

lemma child_meas_post:
  assumes "ring_ok cfg" and "child_inv cfg Post i"
  shows "child_meas cfg (loop_pc cfg (i + 1)) (i + 1) < child_meas cfg Post i"
  using loop_next(1) [OF assms] assms(2)
  by (auto simp: child_meas_def loop_pc_def child_inv_def word_le_nat_alt)

lemma ring_decreases:
  assumes inv: "ring_inv cfg s" and step: "ring_next cfg s e = Some t"
  shows "ring_meas cfg t < ring_meas cfg s"
proof (cases e)
  case Parent
  with step show ?thesis by (auto simp: ring_parent_def ring_meas_def split: if_splits)
next
  case A
  from inv have "a_pc s = Post \<Longrightarrow> child_meas cfg (loop_pc cfg (a_i s + 1)) (a_i s + 1) < child_meas cfg Post (a_i s)"
    by (intro child_meas_post) (simp_all add: ring_inv_def)
  with A step show ?thesis
    by (cases "a_pc s") (auto simp: child_a_def ring_meas_def child_meas_def)
next
  case B
  from inv have "b_pc s = Post \<Longrightarrow> child_meas cfg (loop_pc cfg (b_i s + 1)) (b_i s + 1) < child_meas cfg Post (b_i s)"
    by (intro child_meas_post) (simp_all add: ring_inv_def)
  with B step show ?thesis
    by (cases "b_pc s") (auto simp: child_b_def ring_meas_def child_meas_def)
qed

lemma child_a_moves: "child_a cfg s = None \<Longrightarrow> a_pc s = ChildExit \<or> a_pc s = Wait \<and> sem_fd_2 s = 0"
  by (auto simp: child_a_def split: child_pc.splits)

lemma child_b_moves: "child_b cfg s = None \<Longrightarrow> b_pc s = ChildExit \<or> b_pc s = Wait \<and> sem_fd_1 s = 0"
  by (auto simp: child_b_def split: child_pc.splits)

lemma ring_progress:
  assumes inv: "ring_inv cfg s" and nf: "\<not> ring_final s"
  shows "\<exists>e t. ring_next cfg s e = Some t"
proof (rule ccontr)
  assume "\<not> ?thesis"
  then have n: "ring_next cfg s e = None" for e by (cases "ring_next cfg s e") auto
  from n [of A] n [of B]
  have ab: "a_pc s = ChildExit \<or> a_pc s = Wait \<and> sem_fd_2 s = 0"
    "b_pc s = ChildExit \<or> b_pc s = Wait \<and> sem_fd_1 s = 0"
    using child_a_moves child_b_moves by auto
  have I: "0 < unat (cL cfg)" "child_inv cfg (a_pc s) (a_i s)" "child_inv cfg (b_pc s) (b_i s)" "sems_inv cfg s"
    using inv by (simp_all add: ring_inv_def ring_ok_def word_less_nat_alt)
  have "a_pc s = ChildExit \<and> b_pc s = ChildExit"
    using ab I by (auto simp: child_inv_def sems_inv_def)
  with n [of Parent] nf show False by (simp add: ring_parent_def ring_final_def)
qed

interpretation ring: machine_live "ring_next cfg" "\<lambda>s. ring_ok cfg \<and> s = ring_init cfg"
    "ring_inv cfg" "ring_meas cfg" ring_final for cfg
  by unfold_locales
     (auto simp: ring_init_inv intro: ring_inv_step ring_decreases ring_progress)

section \<open>The program without semaphores\<close>

text \<open>
  The children of task 2 run the same loops without waiting. Both accesses are single steps.
\<close>

record race =
  race_result :: u64
  race_buffer :: "u64 list"
  race_a :: u64
  race_b :: u64
  race_parent :: parent_pc

definition race_init :: "ring_cfg \<Rightarrow> race" where
  "race_init cfg = \<lparr>race_result = 0, race_buffer = replicate (unat (cL cfg)) 0,
     race_a = 1, race_b = 1, race_parent = Waiting\<rparr>"

definition race_child_a :: "ring_cfg \<Rightarrow> race \<Rightarrow> race option" where
  "race_child_a cfg s = (if race_a s \<le> cK cfg
     then Some (s\<lparr>race_buffer := (race_buffer s)[unat (race_a s mod cL cfg) := race_a s * cN cfg],
                  race_a := race_a s + 1\<rparr>)
     else None)"

definition race_child_b :: "ring_cfg \<Rightarrow> race \<Rightarrow> race option" where
  "race_child_b cfg s = (if race_b s \<le> cK cfg
     then Some (s\<lparr>race_result := race_result s + race_buffer s ! unat (race_b s mod cL cfg),
                  race_b := race_b s + 1\<rparr>)
     else None)"

definition race_parent_step :: "ring_cfg \<Rightarrow> race \<Rightarrow> race option" where
  "race_parent_step cfg s = (if race_parent s = Waiting \<and> \<not> race_a s \<le> cK cfg \<and> \<not> race_b s \<le> cK cfg
     then Some (s\<lparr>race_parent := Validated (validate_result (race_result s) (cK cfg) (cN cfg))\<rparr>)
     else None)"

fun race_next :: "ring_cfg \<Rightarrow> race \<Rightarrow> ring_process \<Rightarrow> race option" where
  "race_next cfg s Parent = race_parent_step cfg s"
| "race_next cfg s A = race_child_a cfg s"
| "race_next cfg s B = race_child_b cfg s"

section \<open>Set-up and clean-up of the shared memory\<close>

text \<open>
  What main of either task holds: the name of the shared memory object, the file descriptor and
  the mapping. The environment says which calls succeed; \<open>strtol\<close>'s results are its \<open>long\<close>
  values.
\<close>

record shm_os =
  linked :: bool
  fd_open :: bool
  mapped :: bool

definition shm_clean :: shm_os where
  "shm_clean = \<lparr>linked = False, fd_open = False, mapped = False\<rparr>"

record ring_env =
  argc :: nat
  strtol_N :: int
  strtol_K :: int
  strtol_L :: int
  shm_open_ok :: bool
  ftruncate_ok :: bool
  mmap_ok :: bool
  fork_ok :: bool

datatype ring_setup = Failure shm_os | Started ring_cfg shm_os

definition parse_ring :: "ring_env \<Rightarrow> ring_cfg" where
  "parse_ring e = \<lparr>cN = word_of_int (strtol_N e), cK = word_of_int (strtol_K e),
     cL = word_of_int (strtol_L e)\<rparr>"

text \<open>The third argument of \<^verbatim>\<open>shm_open\<close>: the decimal number 600.\<close>

definition shm_mode :: u16 where "shm_mode = 600"

definition shared_memory_size :: "u64 \<Rightarrow> u64 \<Rightarrow> u64" where
  "shared_memory_size header L = header + L * 8"

text \<open>Task 2: \<^verbatim>\<open>shm_unlink\<close> on the error paths. A failing fork is not noticed.\<close>

definition task2_main :: "ring_env \<Rightarrow> ring_setup" where
  "task2_main e =
     (if argc e \<noteq> 4 then Failure shm_clean
      else let cfg = parse_ring e in
      if cK cfg \<le> 0 \<or> cL cfg \<le> 0 then Failure shm_clean
      else if \<not> shm_open_ok e then Failure shm_clean
      else let os = \<lparr>linked = True, fd_open = True, mapped = False\<rparr> in
      if \<not> ftruncate_ok e then Failure (os\<lparr>fd_open := False, linked := False\<rparr>)
      else if \<not> mmap_ok e then Failure (os\<lparr>fd_open := False, linked := False\<rparr>)
      else Started cfg (os\<lparr>mapped := True\<rparr>))"

text \<open>
  Task 3: \<^verbatim>\<open>unlink\<close> where task 2 has \<^verbatim>\<open>shm_unlink\<close>; it removes a file of that name from the
  file system and leaves the shared memory object.
\<close>

definition task3_main :: "ring_env \<Rightarrow> ring_setup" where
  "task3_main e =
     (if argc e \<noteq> 4 then Failure shm_clean
      else let cfg = parse_ring e in
      if cK cfg \<le> 0 \<or> cL cfg \<le> 0 then Failure shm_clean
      else if \<not> shm_open_ok e then Failure shm_clean
      else let os = \<lparr>linked = True, fd_open = True, mapped = False\<rparr> in
      if \<not> ftruncate_ok e then Failure (os\<lparr>fd_open := False\<rparr>)
      else if \<not> mmap_ok e then Failure (os\<lparr>fd_open := False\<rparr>)
      else if \<not> fork_ok e then Failure (os\<lparr>fd_open := False, mapped := True\<rparr>)
      else Started cfg (os\<lparr>mapped := True\<rparr>))"

text \<open>The end of main: \<^verbatim>\<open>munmap\<close>, \<^verbatim>\<open>close\<close>, \<^verbatim>\<open>shm_unlink\<close>.\<close>

definition ring_cleanup :: "shm_os \<Rightarrow> shm_os" where
  "ring_cleanup os = os\<lparr>mapped := False, fd_open := False, linked := False\<rparr>"

section \<open>Properties\<close>

text \<open>C1: with the semaphores the result is right under every schedule: whenever the parent of
  task 3 has validated, the checksum it prints is 0 and the result is the sum of \<open>N * i\<close> for
  \<open>i = 1..K\<close> (modulo \<open>2 ^ 64\<close>).\<close>

theorem ring_checksum_zero:
  assumes "ring_ok cfg" and "reach (ring_next cfg) (ring_init cfg) s" and "parent s = Validated c"
  shows "c = Some 0 \<and> result s = ring_sum (cN cfg) (unat (cK cfg))"
proof -
  have inv: "ring_inv cfg s" using ring.reach_inv [OF assms(2)] assms(1) by simp
  with assms(3) have c: "c = Some 0" "b_pc s = ChildExit"
    by (auto simp: ring_inv_def parent_inv_def)
  with inv all_accessed [of cfg "b_i s"] have "result s = ring_sum (cN cfg) (unat (cK cfg))"
    by (simp add: ring_inv_def result_inv_def)
  with c show ?thesis by simp
qed

theorem ring_checksum_zero_witness:
  "\<exists>s. reach (ring_next \<lparr>cN = 7, cK = 2, cL = 1\<rparr>) (ring_init \<lparr>cN = 7, cK = 2, cL = 1\<rparr>) s
     \<and> parent s = Validated (Some 0) \<and> result s = 21"
proof -
  let ?cfg = "\<lparr>cN = 7, cK = 2, cL = 1\<rparr>" and ?es = "[A, A, A, B, B, B, A, A, A, B, B, B, Parent]"
  obtain s c where s: "run (ring_next ?cfg) (ring_init ?cfg) ?es = Some s" "parent s = Validated c"
    by (simp add: ring_init_def child_a_def child_b_def ring_parent_def loop_pc_def sem_wait_def
        sem_post_def sem_value_def)
  have ok: "ring_ok ?cfg" by (simp add: ring_ok_def SEM_VALUE_MAX_def)
  have "ring_sum 7 (Suc (Suc 0)) = 21" by simp
  then have "ring_sum 7 (unat (2 :: u64)) = 21" by (simp flip: numeral_2_eq_2)
  with ring_checksum_zero [OF ok run_reach [OF s(1)] s(2)] s(2) run_reach [OF s(1)]
  show ?thesis by auto
qed



text \<open>no item is lost: in every reachable state of task 3 the items that child A has written
  and child B has not read yet are at most \<open>L\<close> and all still intact in their slots.\<close>

theorem ring_items_intact:
  assumes "ring_ok cfg" and "reach (ring_next cfg) (ring_init cfg) s"
    and "accessed (b_pc s) (b_i s) < j" and "j \<le> accessed (a_pc s) (a_i s)"
  shows "buffer s ! (j mod unat (cL cfg)) = of_nat j * cN cfg
     \<and> accessed (a_pc s) (a_i s) \<le> accessed (b_pc s) (b_i s) + unat (cL cfg)"
proof -
  have inv: "ring_inv cfg s" using ring.reach_inv [OF assms(2)] assms(1) by simp
  then have "accessed (a_pc s) (a_i s) \<le> accessed (b_pc s) (b_i s) + unat (cL cfg)"
    by (cases "a_pc s"; cases "b_pc s") (auto simp: ring_inv_def sems_inv_def child_inv_def)
  with inv assms(3,4) show ?thesis by (simp add: ring_inv_def buffer_inv_def)
qed

theorem ring_items_intact_witness:
  "\<exists>s. reach (ring_next \<lparr>cN = 7, cK = 3, cL = 2\<rparr>) (ring_init \<lparr>cN = 7, cK = 3, cL = 2\<rparr>) s
     \<and> buffer s ! (2 mod unat (2 :: u64)) = of_nat 2 * 7"
proof -
  let ?cfg = "\<lparr>cN = 7, cK = 3, cL = 2\<rparr>"
  obtain s where s: "run (ring_next ?cfg) (ring_init ?cfg) [A, A, A, A, A] = Some s"
    and at: "accessed (b_pc s) (b_i s) < 2" "2 \<le> accessed (a_pc s) (a_i s)"
    by (simp add: ring_init_def child_a_def child_b_def loop_pc_def sem_wait_def
        sem_post_def sem_value_def)
  have ok: "ring_ok ?cfg" by (simp add: ring_ok_def SEM_VALUE_MAX_def)
  from ring_items_intact [OF ok run_reach [OF s] at] run_reach [OF s] show ?thesis by auto
qed

text \<open>without semaphores the result depends on the schedule: the same parameters of task 2
  give checksum 0 when A runs first and a non-zero checksum when B overtakes it.\<close>

theorem race_checksum_depends_on_schedule:
  "\<exists>s t. run (race_next \<lparr>cN = 5, cK = 2, cL = 2\<rparr>) (race_init \<lparr>cN = 5, cK = 2, cL = 2\<rparr>)
       [A, A, B, B, Parent] = Some s \<and> race_parent s = Validated (Some 0)
   \<and> run (race_next \<lparr>cN = 5, cK = 2, cL = 2\<rparr>) (race_init \<lparr>cN = 5, cK = 2, cL = 2\<rparr>)
       [A, B, B, A, Parent] = Some t \<and> race_parent t \<noteq> Validated (Some 0)"
  by (simp add: race_init_def race_child_a_def race_child_b_def race_parent_step_def
      validate_result_def validate_loop.simps)

text \<open>task 2 lets go of everything it acquired on each of its error paths, and both programs
  do after a successful run.\<close>

theorem task2_failure_releases:
  "(case task2_main e of Failure os \<Rightarrow> os = shm_clean | Started cfg os \<Rightarrow> ring_cleanup os = shm_clean)
   \<and> (case task3_main e of Failure os \<Rightarrow> \<not> fd_open os | Started cfg os \<Rightarrow> ring_cleanup os = shm_clean)"
  by (simp add: task2_main_def task3_main_def ring_cleanup_def shm_clean_def Let_def)

text \<open>Task 3 unlinks a file instead of its shared memory object: whenever one of the calls
  after \<^verbatim>\<open>shm_open\<close> fails, the object survives the program.\<close>

theorem task3_failure_leaks_name:
  assumes "argc e = 4" and "0 < cK (parse_ring e)" and "0 < cL (parse_ring e)" and "shm_open_ok e"
    and "\<not> (ftruncate_ok e \<and> mmap_ok e \<and> fork_ok e)"
  shows "\<exists>os. task3_main e = Failure os \<and> linked os"
  using assms by (auto simp: task3_main_def Let_def not_le [symmetric])

theorem task3_failure_leaks_name_witness:
  "\<exists>os. task3_main \<lparr>argc = 4, strtol_N = 5, strtol_K = 2, strtol_L = 2, shm_open_ok = True,
     ftruncate_ok = False, mmap_ok = True, fork_ok = True\<rparr> = Failure os \<and> linked os"
  by (rule task3_failure_leaks_name) (simp_all add: parse_ring_def)

text \<open>
  The check \<open>K <= 0 || L <= 0\<close> compares unsigned values, so negative arguments pass it.
\<close>

lemma negative_arguments_pass:
  assumes "argc e = 4" and "shm_open_ok e" and "ftruncate_ok e" and "mmap_ok e"
    and "strtol_K e \<in> {- (2 ^ 63)..<0}" and "strtol_L e \<in> {- (2 ^ 63)..<0}"
  shows "\<exists>os. task2_main e = Started (parse_ring e) os"
proof -
  have "(word_of_int v :: u64) \<noteq> 0" if "v \<in> {- (2 ^ 63)..<0}" for v
  proof
    assume "(word_of_int v :: u64) = 0"
    then have "(2::int) ^ 64 dvd v" by (simp add: word_of_int_eq_0_iff)
    with that have "\<bar>2 ^ 64\<bar> \<le> \<bar>v\<bar>" by (intro dvd_imp_le_int) auto
    with that show False by auto
  qed
  with assms show ?thesis by (simp add: task2_main_def parse_ring_def Let_def)
qed

lemma validate_loop_max:
  assumes "validate_loop i r K N = Some y"
  shows "K \<noteq> - 1"
proof (rule validate_loop.raw_induct [where P = "\<lambda>i r K N y. K \<noteq> - 1", OF _ assms])
  fix f and i r K N y :: u64
  assume IH: "\<And>i r K N y. f i r K N = Some y \<Longrightarrow> K \<noteq> - 1"
    and eq: "(if i \<le> K then f (i + 1) (r - N * i) K N else Some r) = Some y"
  show "K \<noteq> - 1"
  proof (cases "i \<le> K")
    case True
    with eq IH show ?thesis by auto
  next
    case False
    with word_n1_ge [of i] show ?thesis by auto
  qed
qed

text \<open>\<^verbatim>\<open>validate_result\<close> subtracts the expected sum for every number of operations but
  one: for \<open>K = UINT64_MAX\<close> (which the argument \<open>-1\<close> gives) its loop never ends.\<close>

theorem validate_result_returns:
  "validate_result r K N = (if K = - 1 then None else Some (r - ring_sum N (unat K)))"
proof (cases "K = - 1")
  case True
  then have "validate_loop 1 r K N = None"
    using validate_loop_max [of 1 r K N] by (cases "validate_loop 1 r K N") auto
  with True show ?thesis by (simp add: validate_result_def)
next
  case False
  with word_n1_ge [of K] have "K < - 1" by (simp add: order.not_eq_order_implies_strict)
  with False show ?thesis by (simp add: validate_result_sum)
qed

end
