(* ===== verification/CString.thy ===== *)
theory CString
  imports Prelude
begin

text \<open>
  C strings as the programs use them: a buffer is a list of bytes, a C string is what stands
  before the first NUL byte. \<^verbatim>\<open>char\<close> is signed, as on the x86-64 machines of the course.
\<close>

unbundle bit_operations_syntax

type_synonym cstring = "u8 list"

definition cstr :: "u8 list \<Rightarrow> cstring" where
  "cstr buf = takeWhile (\<lambda>b. b \<noteq> 0) buf"

definition c_string :: "cstring \<Rightarrow> bool" where
  "c_string s \<longleftrightarrow> 0 \<notin> set s"

text \<open>\<^verbatim>\<open>strdup\<close>: the bytes of the string and the terminator.\<close>

definition strdup :: "cstring \<Rightarrow> u8 list" where
  "strdup s = s @ [0]"

text \<open>
  The loop \<^verbatim>\<open>for (i = 0; result[i] != '\0'; ++i) result[i] = f(result[i]);\<close>: the condition is
  read before the byte is replaced, so a byte that becomes NUL does not stop it.
\<close>

fun replace_chars :: "(u8 \<Rightarrow> u8) \<Rightarrow> u8 list \<Rightarrow> u8 list" where
  "replace_chars f [] = []"
| "replace_chars f (b # bs) = (if b = 0 then b # bs else f b # replace_chars f bs)"

definition is_lower :: "u8 \<Rightarrow> bool" where
  "is_lower c \<longleftrightarrow> 97 \<le> sint c \<and> sint c \<le> 122"

definition is_upper :: "u8 \<Rightarrow> bool" where
  "is_upper c \<longleftrightarrow> 65 \<le> sint c \<and> sint c \<le> 90"

text \<open>\<^verbatim>\<open>toupper\<close> in the C locale.\<close>

definition toupper :: "u8 \<Rightarrow> u8" where
  "toupper c = (if is_lower c then c - 32 else c)"

text \<open>
  \<^verbatim>\<open>strtol(s, NULL, 10)\<close>: blanks, a sign, the longest run of digits; a value that does not fit
  into a 64-bit \<^verbatim>\<open>long\<close> becomes the limit of its side.
\<close>

definition is_space :: "u8 \<Rightarrow> bool" where
  "is_space c \<longleftrightarrow> c = 32 \<or> 9 \<le> c \<and> c \<le> 13"

definition is_digit :: "u8 \<Rightarrow> bool" where
  "is_digit c \<longleftrightarrow> 48 \<le> c \<and> c \<le> 57"

definition digits_value :: "cstring \<Rightarrow> int" where
  "digits_value ds = foldl (\<lambda>v d. 10 * v + (uint d - 48)) 0 ds"

definition strtol :: "cstring \<Rightarrow> int" where
  "strtol s =
     (let t = dropWhile is_space s;
          neg = (t \<noteq> [] \<and> hd t = 45);
          ds = takeWhile is_digit (if t \<noteq> [] \<and> (hd t = 45 \<or> hd t = 43) then tl t else t);
          v = (if neg then - digits_value ds else digits_value ds)
      in max (- (2 ^ 63)) (min v (2 ^ 63 - 1)))"

text \<open>
  \<^verbatim>\<open>strncmp(a, b, n) == 0\<close>: the strings agree up to the first \<open>n\<close> bytes or their common end.
\<close>

definition strncmp_eq :: "nat \<Rightarrow> u8 list \<Rightarrow> u8 list \<Rightarrow> bool" where
  "strncmp_eq n a b \<longleftrightarrow> take n (cstr a) = take n (cstr b)"

text \<open>
  \<^verbatim>\<open>strcspn(buf, "\n")\<close>: where the first newline or the terminator stands; \<open>None\<close> when the array
  holds neither, so that the function reads past its end.
\<close>

definition line_end :: "u8 \<Rightarrow> bool" where
  "line_end c \<longleftrightarrow> c = 0 \<or> c = 10"

definition strcspn_newline :: "u8 list \<Rightarrow> nat option" where
  "strcspn_newline buf =
     (let k = length (takeWhile (\<lambda>c. \<not> line_end c) buf) in if k < length buf then Some k else None)"

text \<open>\<^verbatim>\<open>read(fd, buf, n)\<close> puts the bytes it got at the start of the array.\<close>

definition read_into :: "u8 list \<Rightarrow> u8 list \<Rightarrow> u8 list" where
  "read_into buf bs = bs @ drop (length bs) buf"

text \<open>
  \<^verbatim>\<open>fgets(buf, n, stdin)\<close>: the bytes up to and with the next newline, but less than \<open>n\<close>; the second
  component is what stays unread. At the end of the input the array is left as it is.
\<close>

definition fgets_line :: "nat \<Rightarrow> u8 list \<Rightarrow> u8 list \<times> u8 list" where
  "fgets_line n input =
     (let k = length (takeWhile (\<lambda>c. c \<noteq> 10) input); m = min (n - 1) (k + 1)
      in (take m input, drop m input))"

definition fgets :: "u8 list \<Rightarrow> nat \<Rightarrow> u8 list \<Rightarrow> u8 list \<times> u8 list" where
  "fgets buf n input =
     (if input = [] then (buf, [])
      else (case fgets_line n input of (line, rest) \<Rightarrow> (read_into buf (line @ [0]), rest)))"

text \<open>
  The arithmetic of \<^verbatim>\<open>double\<close>, a parameter of the programs that compute with it.
\<close>

record 'd double_ops =
  fzero :: 'd
  fadd :: "'d \<Rightarrow> 'd \<Rightarrow> 'd"
  fsub :: "'d \<Rightarrow> 'd \<Rightarrow> 'd"
  fmul :: "'d \<Rightarrow> 'd \<Rightarrow> 'd"
  fdiv :: "'d \<Rightarrow> 'd \<Rightarrow> 'd"
  is_zero :: "'d \<Rightarrow> bool"

text \<open>An instance: integer arithmetic and decimal integers.\<close>

definition int_ops :: "int double_ops" where
  "int_ops = \<lparr>fzero = 0, fadd = (+), fsub = (-), fmul = (*), fdiv = (div), is_zero = (\<lambda>v. v = 0)\<rparr>"

definition strtod_int :: "cstring \<Rightarrow> int \<times> cstring" where
  "strtod_int s = (digits_value (takeWhile is_digit s), dropWhile is_digit s)"

text \<open>ASCII text as bytes.\<close>

definition bytes :: "string \<Rightarrow> cstring" where
  "bytes s = map of_char s"

lemma cstr_id [simp]: "c_string s \<Longrightarrow> cstr (s @ 0 # rest) = s"
  by (auto simp: cstr_def c_string_def takeWhile_tail)

lemma c_string_cstr [simp]: "c_string (cstr buf)"
  by (auto simp: cstr_def c_string_def dest: set_takeWhileD)

lemma replace_chars_strdup: "c_string s \<Longrightarrow> replace_chars f (strdup s) = map f s @ [0]"
  by (induction s) (auto simp: strdup_def c_string_def)

lemma cstr_map: "c_string s \<Longrightarrow> (\<And>c. c \<in> set s \<Longrightarrow> f c \<noteq> 0) \<Longrightarrow> cstr (map f s @ [0]) = map f s"
  by (rule cstr_id) (auto simp: c_string_def)

lemma length_read_into [simp]: "length bs \<le> length buf \<Longrightarrow> length (read_into buf bs) = length buf"
  by (simp add: read_into_def)

lemma strcspn_newline_read:
  assumes "length bs < n"
  shows "strcspn_newline (read_into (replicate n 0) bs) = Some (length (takeWhile (\<lambda>c. \<not> line_end c) bs))"
proof -
  have "takeWhile (\<lambda>c. \<not> line_end c) (bs @ replicate (n - length bs) 0) = takeWhile (\<lambda>c. \<not> line_end c) bs"
    using assms by (cases "n - length bs") (auto simp: line_end_def takeWhile_tail)
  moreover have "length (takeWhile (\<lambda>c. \<not> line_end c) bs) \<le> length bs" by (rule length_takeWhile_le)
  ultimately show ?thesis using assms by (simp add: strcspn_newline_def read_into_def Let_def)
qed

lemma strcspn_newline_None: "strcspn_newline buf = None \<longleftrightarrow> list_all (\<lambda>c. \<not> line_end c) buf"
proof -
  let ?t = "takeWhile (\<lambda>c. \<not> line_end c) buf"
  have "length ?t < length buf \<longleftrightarrow> ?t \<noteq> buf"
    using length_takeWhile_le [of "\<lambda>c. \<not> line_end c" buf]
    by (metis le_neq_implies_less less_irrefl take_all_iff takeWhile_eq_take)
  then show ?thesis
    unfolding strcspn_newline_def Let_def by (simp add: takeWhile_eq_all_conv list_all_iff)
qed

lemma cstr_terminated: "c_string s \<Longrightarrow> length s \<le> k \<Longrightarrow> cstr ((s @ 0 # rest)[k := 0]) = s"
  by (cases "k - length s") (simp_all add: list_update_append)

lemma fgets_one_line:
  assumes "10 \<notin> set l" "Suc (length l) < n"
  shows "fgets_line n (l @ 10 # rest) = (l @ [10], rest)"
proof -
  have "takeWhile (\<lambda>c. c \<noteq> 10) (l @ 10 # rest) = l" using assms(1) by (auto simp: takeWhile_tail)
  then show ?thesis using assms(2) by (simp add: fgets_line_def)
qed

lemma take_command:
  assumes "10 \<notin> set l" "length q < n"
  shows "take n (l @ [10]) = q @ [10] \<longleftrightarrow> l = q"
proof (cases "length l < n")
  case False
  then have "take n (l @ [10]) = take n l" by simp
  moreover have "10 \<notin> set (take n l)" using assms(1) by (auto dest: in_set_takeD)
  ultimately have "take n (l @ [10]) \<noteq> q @ [10]" by auto
  then show ?thesis using False assms(2) by auto
qed simp

lemma length_fgets_line: "0 < n \<Longrightarrow> length (fst (fgets_line n input)) < n"
  by (auto simp: fgets_line_def Let_def min_def)

lemma fgets_line_append [simp]: "fst (fgets_line n input) @ snd (fgets_line n input) = input"
  by (simp add: fgets_line_def Let_def)

text \<open>Properties of all 256 byte values are decided by evaluation.\<close>

lemma all_bytes:
  assumes "list_all P (map of_nat [0..<256])"
  shows "P (c :: u8)"
proof -
  have "unat c < 256" using unsigned_less [of c] by simp
  then have "unat c \<in> {0..<256}" by simp
  moreover have "\<forall>n \<in> {0..<256}. P (of_nat n)" using assms by (simp add: list_all_iff)
  ultimately have "P (of_nat (unat c))" by (rule bspec [rotated])
  then show ?thesis by simp
qed

end
