(* ===== verification/Plugins.thy ===== *)
theory Plugins
  imports CString
begin

text \<open>
  The string plugins of \<^verbatim>\<open>exercise10/task3\<close> and the program \<^verbatim>\<open>map_string.c\<close> that chains them.
  The locale \<open>plugin_family\<close> is what the exercise demands of a reversible plugin; the code's
  three reversible plugins are its interpretation.
\<close>

section \<open>The plugins\<close>

definition caesar_char :: "u8 \<Rightarrow> u8" where
  "caesar_char c =
     (if is_lower c \<or> is_upper c
      then let base = (if 97 \<le> sint c then 97 else 65)
           in word_of_int ((sint c - base + 13) mod 26 + base)
      else c)"

definition caesar_transform :: "cstring \<Rightarrow> u8 list" where
  "caesar_transform input = replace_chars caesar_char (strdup input)"

definition xor_transform :: "cstring \<Rightarrow> u8 list" where
  "xor_transform input = replace_chars (\<lambda>c. c XOR 0x20) (strdup input)"

text \<open>The loop of \<^verbatim>\<open>reverse_string.c\<close> writes \<^verbatim>\<open>result[i]\<close> for \<open>i = 0..len-1\<close>.\<close>

fun reverse_loop :: "nat \<Rightarrow> cstring \<Rightarrow> u8 list \<Rightarrow> u8 list" where
  "reverse_loop 0 input result = result"
| "reverse_loop (Suc k) input result =
     (let len = length input; i = len - Suc k
      in reverse_loop k input (result[i := input ! (len - 1 - i)]))"

definition reverse_transform :: "cstring \<Rightarrow> u8 list \<Rightarrow> u8 list" where
  "reverse_transform input malloced =
     (let len = length input in (reverse_loop len input malloced)[len := 0])"

definition substitution_table :: "u8 list" where
  "substitution_table = bytes ''QWERTYUIOPASDFGHJKLZXCVBNM''"

definition substitute_char :: "u8 \<Rightarrow> u8" where
  "substitute_char c =
     (if is_lower c then substitution_table ! nat (sint c - 97) + (97 - 65)
      else if is_upper c then substitution_table ! nat (sint c - 65)
      else c)"

definition substitution_transform :: "cstring \<Rightarrow> u8 list" where
  "substitution_transform input = replace_chars substitute_char (strdup input)"

definition upper_transform :: "cstring \<Rightarrow> u8 list" where
  "upper_transform input = replace_chars toupper (strdup input)"

section \<open>The chain of map\_string\<close>

text \<open>
  A loaded plugin takes a C string and returns one, or \<open>NULL\<close>. \<open>dlopen\<close> and \<open>dlsym\<close> are
  parameters: which handle a path gives and whether the handle has the symbol \<open>transform\<close>.
\<close>

type_synonym plugin = "cstring \<Rightarrow> cstring option"

datatype plugin_error = LoadError | SymbolError | PluginError

record map_output =
  printed :: "(string \<times> cstring) list"
  failed :: "plugin_error option"
  final_string :: cstring
  exit_code :: nat

fun plugin_loop :: "(string \<Rightarrow> 'h option) \<Rightarrow> ('h \<Rightarrow> plugin option) \<Rightarrow> string list \<Rightarrow> cstring
    \<Rightarrow> map_output" where
  "plugin_loop dlopen dlsym [] result_string =
     \<lparr>printed = [], failed = None, final_string = result_string, exit_code = 0\<rparr>"
| "plugin_loop dlopen dlsym (plugin_path # paths) result_string =
     (case dlopen plugin_path of
        None \<Rightarrow> \<lparr>printed = [], failed = Some LoadError, final_string = result_string, exit_code = 1\<rparr>
      | Some handle \<Rightarrow>
          (case dlsym handle of
             None \<Rightarrow> \<lparr>printed = [], failed = Some SymbolError, final_string = result_string, exit_code = 1\<rparr>
           | Some plugin_func \<Rightarrow>
               (case plugin_func result_string of
                  None \<Rightarrow> \<lparr>printed = [], failed = Some PluginError, final_string = result_string, exit_code = 1\<rparr>
                | Some new_result \<Rightarrow>
                    (let out = plugin_loop dlopen dlsym paths new_result
                     in out\<lparr>printed := (plugin_path, new_result) # printed out\<rparr>))))"

definition map_string_main :: "(string \<Rightarrow> 'h option) \<Rightarrow> ('h \<Rightarrow> plugin option) \<Rightarrow> cstring \<Rightarrow> string list
    \<Rightarrow> map_output" where
  "map_string_main dlopen dlsym input_string plugins =
     (if plugins = [] then \<lparr>printed = [], failed = None, final_string = input_string, exit_code = 1\<rparr>
      else plugin_loop dlopen dlsym plugins input_string)"

section \<open>Reversible plugins\<close>

fun apply_plugins :: "(cstring \<Rightarrow> cstring) list \<Rightarrow> cstring \<Rightarrow> cstring" where
  "apply_plugins [] s = s"
| "apply_plugins (p # ps) s = apply_plugins ps (p s)"

lemma apply_plugins_append: "apply_plugins (ps @ qs) s = apply_plugins qs (apply_plugins ps s)"
  by (induction ps arbitrary: s) auto

locale plugin_family =
  fixes reversible :: "(cstring \<Rightarrow> cstring) \<Rightarrow> bool" and ok :: "cstring \<Rightarrow> bool"
  assumes keeps_ok: "reversible p \<Longrightarrow> ok s \<Longrightarrow> ok (p s)"
    and involution: "reversible p \<Longrightarrow> ok s \<Longrightarrow> p (p s) = s"
begin

lemma chain_ok: "list_all reversible ps \<Longrightarrow> ok s \<Longrightarrow> ok (apply_plugins ps s)"
  by (induction ps arbitrary: s) (auto intro: keeps_ok)

lemma chain_reverse:
  "list_all reversible ps \<Longrightarrow> ok s \<Longrightarrow> apply_plugins (rev ps) (apply_plugins ps s) = s"
proof (induction ps arbitrary: s)
  case Nil
  then show ?case by simp
next
  case (Cons p ps)
  then have "apply_plugins (rev ps) (apply_plugins ps (p s)) = p s" by (auto intro: keeps_ok)
  with Cons.prems show ?case by (simp add: apply_plugins_append involution)
qed

end

section \<open>The code's plugins as functions on C strings\<close>

definition caesar :: "cstring \<Rightarrow> cstring" where "caesar s = cstr (caesar_transform s)"
definition xor_string :: "cstring \<Rightarrow> cstring" where "xor_string s = cstr (xor_transform s)"
definition reverse_string :: "cstring \<Rightarrow> cstring" where
  "reverse_string s = cstr (reverse_transform s (replicate (length s + 1) 0))"
definition substitution :: "cstring \<Rightarrow> cstring" where "substitution s = cstr (substitution_transform s)"
definition upper :: "cstring \<Rightarrow> cstring" where "upper s = cstr (upper_transform s)"

definition plain :: "u8 \<Rightarrow> bool" where
  "plain c \<longleftrightarrow> c \<noteq> 0 \<and> c \<noteq> 32"

definition plain_string :: "cstring \<Rightarrow> bool" where
  "plain_string s \<longleftrightarrow> list_all plain s"

lemma plain_c_string: "plain_string s \<Longrightarrow> c_string s"
  by (auto simp: plain_string_def plain_def c_string_def list_all_iff)

lemma caesar_char_involution: "caesar_char (caesar_char c) = c"
  by (rule all_bytes [where P = "\<lambda>c. caesar_char (caesar_char c) = c"]) code_simp

lemma caesar_char_plain: "c \<noteq> 0 \<Longrightarrow> caesar_char c \<noteq> 0" "plain c \<Longrightarrow> plain (caesar_char c)"
proof -
  have all: "list_all (\<lambda>c. (c = 0 \<or> caesar_char c \<noteq> 0) \<and> (\<not> plain c \<or> plain (caesar_char c)))
      (map of_nat [0..<256])"
    by code_simp
  show "c \<noteq> 0 \<Longrightarrow> caesar_char c \<noteq> 0" "plain c \<Longrightarrow> plain (caesar_char c)"
    using all_bytes [OF all, of c] by auto
qed

lemma xor_char_plain: "plain c \<Longrightarrow> plain (c XOR 0x20)"
proof -
  have all: "list_all (\<lambda>c. \<not> plain c \<or> plain (c XOR 0x20)) (map of_nat [0..<256])"
    by code_simp
  show "plain c \<Longrightarrow> plain (c XOR 0x20)" using all_bytes [OF all, of c] by auto
qed

lemma xor_char_involution: "(c XOR 0x20) XOR 0x20 = c" for c :: u8
  by (simp add: xor.assoc)

lemma caesar_map: "c_string s \<Longrightarrow> caesar s = map caesar_char s"
  unfolding caesar_def caesar_transform_def
  by (simp add: replace_chars_strdup) (auto simp: c_string_def intro!: cstr_map caesar_char_plain)

lemma xor_map:
  assumes "plain_string s"
  shows "xor_string s = map (\<lambda>c. c XOR 0x20) s"
proof -
  have "c XOR 0x20 \<noteq> 0" if "c \<in> set s" for c
    using xor_char_plain [of c] assms that by (auto simp: plain_string_def list_all_iff plain_def)
  then show ?thesis
    using cstr_map [OF plain_c_string [OF assms], of "\<lambda>c. c XOR 0x20"] plain_c_string [OF assms]
    by (simp add: xor_string_def xor_transform_def replace_chars_strdup)
qed

lemma reverse_loop_take:
  "length input \<le> length result \<Longrightarrow> k \<le> length input \<Longrightarrow> reverse_loop k input result
     = take (length input - k) result @ map (\<lambda>j. input ! (length input - 1 - j)) [length input - k..<length input]
       @ drop (length input) result"
proof (induction k arbitrary: result)
  case (Suc k)
  let ?i = "length input - Suc k"
  have i: "Suc ?i = length input - k" "?i < length input" "?i < length result" using Suc.prems by auto
  have "[?i..<length input] = ?i # [length input - k..<length input]"
    using i by (simp add: upt_conv_Cons)
  moreover let ?r = "result[?i := input ! (length input - 1 - ?i)]"
  have "take (length input - k) ?r = take ?i result @ [input ! (length input - 1 - ?i)]"
    using i(2,3) by (simp add: take_Suc_conv_app_nth flip: i(1))
  moreover have "drop (length input) ?r = drop (length input) result"
    using i(2) by (rule drop_update_cancel)
  moreover have "reverse_loop (Suc k) input result = reverse_loop k input ?r"
    by (simp add: Let_def)
  ultimately show ?case using Suc.IH [of ?r] Suc.prems by (simp add: Let_def)
qed simp

lemma rev_as_map: "map (\<lambda>j. xs ! (length xs - 1 - j)) [0..<length xs] = rev xs"
  by (rule nth_equalityI) (auto simp: rev_nth)

lemma reverse_rev:
  assumes "c_string s"
  shows "reverse_string s = rev s"
proof -
  have "reverse_loop (length s) s (replicate (length s + 1) 0) = rev s @ [0]"
  proof (subst reverse_loop_take)
    have "drop (length s) (replicate (length s + 1) (0 :: u8)) = [0]" by (simp only: drop_replicate) simp
    then show "take (length s - length s) (replicate (length s + 1) 0)
        @ map (\<lambda>j. s ! (length s - 1 - j)) [length s - length s..<length s]
        @ drop (length s) (replicate (length s + 1) 0) = rev s @ [0]"
      by (simp only: diff_self_eq_0 take_0 rev_as_map append_Nil)
  qed simp_all
  then have "reverse_string s = cstr (rev s @ 0 # [])"
    by (simp add: reverse_string_def reverse_transform_def Let_def list_update_append)
  with assms show ?thesis by (simp add: c_string_def)
qed

definition reversible_plugin :: "(cstring \<Rightarrow> cstring) \<Rightarrow> bool" where
  "reversible_plugin p \<longleftrightarrow> p = caesar \<or> p = xor_string \<or> p = reverse_string"

lemma plain_string_map:
  "plain_string s \<Longrightarrow> (\<And>c. plain c \<Longrightarrow> plain (f c)) \<Longrightarrow> plain_string (map f s)"
  by (auto simp: plain_string_def list_all_iff)

interpretation plugins: plugin_family reversible_plugin plain_string
proof
  fix p s assume p: "reversible_plugin p" and s: "plain_string s"
  note c = plain_c_string [OF s]
  note m = plain_string_map [OF s caesar_char_plain(2)] plain_string_map [OF s xor_char_plain]
  have r: "plain_string (rev s)" using s by (simp add: plain_string_def list_all_iff)
  from p s c m r show "plain_string (p s)"
    by (auto simp: reversible_plugin_def caesar_map xor_map reverse_rev)
  have "map (\<lambda>c. caesar_char (caesar_char c)) s = s" "map (\<lambda>c. (c XOR 0x20) XOR 0x20) s = s"
    by (simp_all only: caesar_char_involution xor_char_involution list.map_ident)
  with p s c m r show "p (p s) = s"
    by (auto simp: reversible_plugin_def caesar_map xor_map reverse_rev plain_c_string comp_def)
qed

section \<open>Whole runs of map\_string\<close>

text \<open>The path names a library whose symbol \<^verbatim>\<open>transform\<close> is the function \<open>p\<close>.\<close>

definition loads :: "(string \<Rightarrow> 'h option) \<Rightarrow> ('h \<Rightarrow> plugin option) \<Rightarrow> string \<Rightarrow> (cstring \<Rightarrow> cstring)
    \<Rightarrow> bool" where
  "loads dlopen dlsym path p \<longleftrightarrow>
     (case dlopen path of None \<Rightarrow> False | Some h \<Rightarrow> dlsym h = Some (\<lambda>s. Some (p s)))"

lemma plugin_loop_loads:
  "list_all2 (loads dlopen dlsym) paths ps \<Longrightarrow> plugin_loop dlopen dlsym (paths @ rest) s
     = (let out = plugin_loop dlopen dlsym rest (apply_plugins ps s)
        in out\<lparr>printed := zip paths (map (\<lambda>k. apply_plugins (take (Suc k) ps) s) [0..<length ps])
                          @ printed out\<rparr>)"
proof (induction paths ps arbitrary: s rule: list_all2_induct)
  case Nil
  then show ?case by (simp add: Let_def)
next
  case (Cons path paths p ps)
  have "[0..<length (p # ps)] = 0 # map Suc [0..<length ps]"
    unfolding map_Suc_upt length_Cons by (rule upt_conv_Cons) simp
  then have "map (\<lambda>k. apply_plugins (take (Suc k) (p # ps)) s) [0..<length (p # ps)]
      = p s # map (\<lambda>k. apply_plugins (take (Suc k) ps) (p s)) [0..<length ps]"
    by (simp add: comp_def)
  with Cons show ?case by (auto simp: loads_def Let_def split: option.splits)
qed

lemma plugin_loop_exit: "exit_code (plugin_loop dlopen dlsym paths s) = (case failed (plugin_loop dlopen dlsym paths s) of None \<Rightarrow> 0 | Some _ \<Rightarrow> 1)"
  by (induction paths arbitrary: s) (auto simp: Let_def split: option.splits)


definition plugin_dir :: "string \<Rightarrow> plugin option" where
  "plugin_dir path =
     (if path = ''./caesar_cipher.so'' then Some (\<lambda>s. Some (caesar s))
      else if path = ''./xor_string.so'' then Some (\<lambda>s. Some (xor_string s))
      else if path = ''./reverse_string.so'' then Some (\<lambda>s. Some (reverse_string s))
      else if path = ''./library_one.so'' then Some (\<lambda>s. Some (substitution s))
      else if path = ''./library_two.so'' then Some (\<lambda>s. Some (upper s)) else None)"


text \<open>C34: The first plugin that cannot be loaded, has no symbol \<^verbatim>\<open>transform\<close> or returns
  \<open>NULL\<close> ends map\_string with exit code 1 and the matching message; the lines of the plugins
  before it have been printed and no later plugin is looked at.\<close>

theorem map_string_stops_at_error:
  assumes "list_all2 (loads dlopen dlsym) paths ps"
    and "case dlopen bad of None \<Rightarrow> err = LoadError
         | Some h \<Rightarrow> (case dlsym h of None \<Rightarrow> err = SymbolError
                     | Some f \<Rightarrow> f (apply_plugins ps s) = None \<and> err = PluginError)"
  shows "let out = map_string_main dlopen dlsym s (paths @ bad # rest)
         in exit_code out = 1 \<and> failed out = Some err \<and> map fst (printed out) = paths
            \<and> final_string out = apply_plugins ps s"
proof -
  have "length paths = length ps" using assms(1) by (rule list_all2_lengthD)
  then show ?thesis
    using assms(2) plugin_loop_loads [OF assms(1), of "bad # rest" s]
    by (auto simp: map_string_main_def Let_def split: option.splits)
qed

theorem map_string_stops_at_error_witness:
  "failed (map_string_main plugin_dir Some (bytes ''Hello'') ([''./xor_string.so''] @ ''./none.so'' # []))
     = Some LoadError"
proof -
  have "list_all2 (loads plugin_dir Some) [''./xor_string.so''] [xor_string]"
    by (simp add: loads_def plugin_dir_def)
  moreover have "plugin_dir ''./none.so'' = None" by (simp add: plugin_dir_def)
  ultimately show ?thesis
    using map_string_stops_at_error [of plugin_dir Some "[''./xor_string.so'']" "[xor_string]"
      LoadError "bytes ''Hello''" "''./none.so''" "[]"] by (simp add: Let_def)
qed

section \<open>The order of the substitution\<close>

lemma substitute_letters_table:
  "map substitute_char
    [65, 66, 67, 68, 69, 70, 71, 72, 73, 74, 75, 76, 77, 78, 79, 80, 81, 82, 83, 84, 85, 86,
    87, 88, 89, 90, 97, 98, 99, 100, 101, 102, 103, 104, 105, 106, 107, 108, 109, 110, 111,
    112, 113, 114, 115, 116, 117, 118, 119, 120, 121, 122] =
    [81, 87, 69, 82, 84, 89, 85, 73, 79, 80, 65, 83, 68, 70, 71, 72, 74, 75, 76, 90, 88, 67,
    86, 66, 78, 77, 113, 119, 101, 114, 116, 121, 117, 105, 111, 112, 97, 115, 100, 102, 103,
    104, 106, 107, 108, 122, 120, 99, 118, 98, 110, 109]"
  by code_simp

lemmas substitute_letters = substitute_letters_table [simplified list.map list.inject simp_thms]

definition letters :: "u8 list" where
  "letters = map of_nat ([65..<91] @ [97..<123])"

lemma letter_iff: "is_lower c \<or> is_upper c \<Longrightarrow> c \<in> set letters"
proof -
  assume l: "is_lower c \<or> is_upper c"
  then have "sint c = int (nat (sint c))" by (auto simp: is_lower_def is_upper_def)
  then have "of_int (sint c) = (of_nat (nat (sint c)) :: u8)" by (metis of_int_of_nat_eq)
  then have "c = of_nat (nat (sint c))" by simp
  moreover have "nat (sint c) \<in> {65..<91} \<union> {97..<123}"
    using l by (auto simp: is_lower_def is_upper_def)
  ultimately have "c \<in> of_nat ` ({65..<91} \<union> {97..<123})" by (rule image_eqI)
  then show ?thesis by (simp only: letters_def set_map set_append set_upt)
qed

lemma substitute_char_other: "c \<notin> set letters \<Longrightarrow> substitute_char c = c"
  using letter_iff [of c] by (auto simp: substitute_char_def)

lemma letters_eval: "letters =
    [65, 66, 67, 68, 69, 70, 71, 72, 73, 74, 75, 76, 77, 78, 79, 80, 81, 82, 83, 84, 85, 86,
    87, 88, 89, 90, 97, 98, 99, 100, 101, 102, 103, 104, 105, 106, 107, 108, 109, 110, 111,
    112, 113, 114, 115, 116, 117, 118, 119, 120, 121, 122]"
  by code_simp

lemma funpow_fixed: "f x = x \<Longrightarrow> (f ^^ n) x = x"
  by (induction n) auto

lemma substitute_char_42: "(substitute_char ^^ 42) c = c"
proof (cases "c \<in> set letters")
  case True
  have "list_all (\<lambda>c. (substitute_char ^^ 42) c = c) letters"
    by (simp add: letters_eval substitute_letters eval_nat_numeral)
  with True show ?thesis by (simp add: list_all_iff)
qed (simp add: funpow_fixed substitute_char_other)

lemma substitute_char_nonzero: "c \<noteq> 0 \<Longrightarrow> substitute_char c \<noteq> 0"
proof -
  have all: "list_all (\<lambda>c. c = 0 \<or> substitute_char c \<noteq> 0) (map of_nat [0..<256])"
    by code_simp
  show "c \<noteq> 0 \<Longrightarrow> substitute_char c \<noteq> 0" using all_bytes [OF all, of c] by auto
qed

lemma substitution_map: "c_string s \<Longrightarrow> substitution s = map substitute_char s"
  unfolding substitution_def substitution_transform_def
  by (simp add: replace_chars_strdup)
    (auto simp: c_string_def intro!: cstr_map substitute_char_nonzero)

lemma c_string_substitute: "c_string s \<Longrightarrow> c_string (map substitute_char s)"
  unfolding c_string_def by (metis imageE list.set_map substitute_char_nonzero)

lemma substitution_power: "c_string s \<Longrightarrow> (substitution ^^ n) s = map (substitute_char ^^ n) s"
proof (induction n arbitrary: s)
  case (Suc n)
  then show ?case
    by (simp add: funpow_Suc_right substitution_map c_string_substitute comp_def del: funpow.simps)
qed (simp add: id_def)

lemma substitute_orbits:
  "(substitute_char ^^ 21) 65 = 65" "(substitute_char ^^ 2) 76 = 76"
  "k < 21 \<Longrightarrow> (substitute_char ^^ k) 65 = 65 \<Longrightarrow> k = 0"
  "k < 2 \<Longrightarrow> (substitute_char ^^ k) 76 = 76 \<Longrightarrow> k = 0"
proof -
  show "(substitute_char ^^ 21) 65 = 65" "(substitute_char ^^ 2) 76 = 76"
    by (simp_all add: substitute_letters eval_nat_numeral)
  have orbit: "map (\<lambda>k. (substitute_char ^^ k) 65) [0..<21] =
      [65, 81, 74, 80, 72, 73, 79, 71, 85, 88, 66, 87, 86, 67, 69, 84, 90, 77, 68, 82, 75]"
    by (simp add: substitute_letters eval_nat_numeral)
  show "k < 21 \<Longrightarrow> (substitute_char ^^ k) 65 = 65 \<Longrightarrow> k = 0"
  proof -
    assume k: "k < 21" "(substitute_char ^^ k) 65 = 65"
    have "distinct (map (\<lambda>k. (substitute_char ^^ k) 65) [0..<21])" unfolding orbit by simp
    from distinct_map [THEN iffD1, OF this] k show "k = 0"
      by (auto simp: inj_on_def dest!: bspec [where x = k] bspec [where x = 0])
  qed
  show "k < 2 \<Longrightarrow> (substitute_char ^^ k) 76 = 76 \<Longrightarrow> k = 0"
    by (auto simp: less_2_cases_iff substitute_letters)
qed

text \<open>Applying library\_one n times restores every string exactly when n is a multiple of
  42; the 26 applications its comment promises do not.\<close>

theorem substitution_order:
  "(\<forall>s. c_string s \<longrightarrow> (substitution ^^ n) s = s) \<longleftrightarrow> 42 dvd n"
proof
  assume "42 dvd n"
  then obtain m where "n = 42 * m" by auto
  then have "(substitute_char ^^ n) c = c" for c
    by (simp add: funpow_mult [symmetric] funpow_fixed substitute_char_42)
  then have "substitute_char ^^ n = id" by (simp add: fun_eq_iff)
  then show "\<forall>s. c_string s \<longrightarrow> (substitution ^^ n) s = s" by (simp add: substitution_power)
next
  assume restored: "\<forall>s. c_string s \<longrightarrow> (substitution ^^ n) s = s"
  have fixed: "(substitute_char ^^ n) c = c" if "c \<noteq> 0" for c
    using restored [rule_format, of "[c]"] that by (auto simp: substitution_power c_string_def)
  have "(substitute_char ^^ (n mod 21)) 65 = 65" "(substitute_char ^^ (n mod 2)) 76 = 76"
    using fixed [of 65] fixed [of 76] substitute_orbits(1,2)
    by (simp_all only: funpow_mod_eq) simp_all
  then have "n mod 21 = 0" "n mod 2 = 0" using substitute_orbits(3,4) by simp_all
  then show "42 dvd n" by presburger
qed

theorem substitution_order_witness:
  "(substitution ^^ 84) (bytes ''Hello'') = bytes ''Hello'' \<and> \<not> (42 :: nat) dvd 26"
proof -
  have "c_string (bytes ''Hello'')" by code_simp
  then show ?thesis using substitution_order [of 84] by simp
qed

text \<open>The example of the exercise: after the XOR plugin a blank is a NUL, so the string ends
  there; the sheet shows \<^verbatim>\<open>uRYYB jBEYQ\<close>.\<close>

lemma xor_truncates_at_blank:
  "xor_string (caesar (bytes ''Hello World'')) = bytes ''uRYYB''"
  by code_simp

end
