(* ===== verification/Fibonacci.thy ===== *)
theory Fibonacci
  imports CString
begin

text \<open>
  \<^verbatim>\<open>exercise10/task2\<close>: \<^verbatim>\<open>fibonacci_of_integer\<close> of the shared library \<^verbatim>\<open>some_library.c\<close> (and of
  \<^verbatim>\<open>my_program.c\<close>, whose text is the same) against the Fibonacci numbers, with the overflow of
  \<open>int\<close> as \<open>None\<close>, and the program around it.
\<close>

text \<open>The loop \<^verbatim>\<open>for (int i = 2; i <= n; i++) { c = a + b; a = b; b = c; }\<close> from \<open>i\<close> on.\<close>

function fib_loop :: "int \<Rightarrow> int \<Rightarrow> int \<Rightarrow> int \<Rightarrow> int option" where
  "fib_loop n i a b =
     (if i \<le> n then (case int_add a b of None \<Rightarrow> None | Some c \<Rightarrow> fib_loop n (i + 1) b c)
      else Some b)"
  by pat_completeness auto
termination by (relation "measure (\<lambda>(n, i, a, b). nat (n + 1 - i))") auto

declare fib_loop.simps [simp del]

definition fibonacci_of_integer :: "int \<Rightarrow> int option" where
  "fibonacci_of_integer n =
     (let a = 0; b = 1 in if n = 0 then Some a else fib_loop n 2 a b)"

text \<open>What a run of the program prints and its exit status; \<open>None\<close> is undefined behaviour.\<close>

record fib_result =
  shown :: "int option"
  status :: nat

definition fib_main :: "cstring list \<Rightarrow> fib_result option" where
  "fib_main argv =
     (if length argv < 2 then Some \<lparr>shown = None, status = 0\<rparr>
      else let x = strtol (argv ! 1)
           in map_option (\<lambda>v. \<lparr>shown = Some v, status = 0\<rparr>) (fibonacci_of_integer (to_int x)))"

section \<open>The Fibonacci numbers\<close>

fun fib :: "nat \<Rightarrow> nat" where
  "fib 0 = 0"
| "fib (Suc 0) = 1"
| "fib (Suc (Suc n)) = fib n + fib (Suc n)"

lemma fib_Suc: "fib k \<le> fib (Suc k)"
  by (cases k rule: fib.cases) auto

lemma fib_mono: "m \<le> n \<Longrightarrow> fib m \<le> fib n"
  by (rule lift_Suc_mono_le [of fib, OF fib_Suc])

text \<open>The last two numbers around the limit of \<open>int\<close>, by iteration.\<close>

fun fib_iter :: "nat \<Rightarrow> int \<Rightarrow> int \<Rightarrow> int \<times> int" where
  "fib_iter 0 a b = (a, b)"
| "fib_iter (Suc n) a b = fib_iter n b (a + b)"

lemma fib_iter:
  "fib_iter n (int (fib k)) (int (fib (Suc k))) = (int (fib (k + n)), int (fib (Suc (k + n))))"
proof (induction n arbitrary: k)
  case (Suc n)
  have "int (fib k) + int (fib (Suc k)) = int (fib (Suc (Suc k)))" by simp
  then show ?case using Suc [of "Suc k"] by (simp only: fib_iter.simps add_Suc add_Suc_right)
qed simp

lemma fib_46_47: "int (fib 46) = 1836311903" "int (fib 47) = 2971215073"
proof -
  have "fib_iter 46 0 1 = (1836311903, 2971215073)" by code_simp
  then have "(int (fib (0 + 46)), int (fib (Suc (0 + 46)))) = (1836311903, 2971215073)"
    using fib_iter [of 46 0] by (simp only: fib.simps of_nat_0 of_nat_1 int_ops(1))
  then have "int (fib (0 + 46)) = 1836311903" "int (fib (Suc (0 + 46))) = 2971215073"
    unfolding prod.inject by (rule conjunct1, rule conjunct2)
  moreover have "(0::nat) + 46 = 46" "Suc (0 + 46) = 47" by simp_all
  ultimately show "int (fib 46) = 1836311903" "int (fib 47) = 2971215073" by (simp_all only:)
qed

lemma fib_in_int: "in_int (int (fib k)) \<longleftrightarrow> k \<le> 46"
proof (cases "k \<le> 46")
  case True
  have "int (fib k) \<le> 1836311903"
    using fib_mono [OF True] unfolding fib_46_47 [symmetric] zle_int .
  with True show ?thesis unfolding in_int_def INT_MAX_def INT_MIN_def by linarith
next
  case False
  then have "47 \<le> k" by simp
  from fib_mono [OF this] have "2971215073 \<le> int (fib k)"
    unfolding fib_46_47 [symmetric] zle_int .
  with False show ?thesis unfolding in_int_def INT_MAX_def INT_MIN_def by linarith
qed

lemma fib_loop_fib:
  "fib_loop n (int k + 2) (int (fib k)) (int (fib (Suc k)))
     = (if n < int k + 2 then Some (int (fib (Suc k)))
        else if n \<le> 46 then Some (int (fib (nat n))) else None)" if "k \<le> 45"
  using that
proof (induction "nat (n + 1 - (int k + 2))" arbitrary: k)
  case 0
  then show ?case by (simp add: fib_loop.simps)
next
  case (Suc m)
  then have le: "int k + 2 \<le> n" by linarith
  have sum: "int (fib k) + int (fib (Suc k)) = int (fib (Suc (Suc k)))" by simp
  show ?case
  proof (cases "k = 45")
    case True
    then have "\<not> in_int (int (fib (Suc (Suc k))))" by (simp only: fib_in_int)
    then have "int_add (int (fib k)) (int (fib (Suc k))) = None" by (simp only: int_add_def sum if_False)
    moreover have "\<not> n < int k + 2" "\<not> n \<le> 46" using True le by simp_all
    ultimately show ?thesis using le by (subst fib_loop.simps) simp
  next
    case ne: False
    then have "in_int (int (fib (Suc (Suc k))))" using Suc.prems by (simp only: fib_in_int)
    then have "int_add (int (fib k)) (int (fib (Suc k))) = Some (int (fib (Suc (Suc k))))"
      by (simp only: int_add_def sum if_True)
    with le have "fib_loop n (int k + 2) (int (fib k)) (int (fib (Suc k)))
        = fib_loop n (int (Suc k) + 2) (int (fib (Suc k))) (int (fib (Suc (Suc k))))"
      by (subst fib_loop.simps) (simp add: algebra_simps)
    also have "\<dots> = (if n < int (Suc k) + 2 then Some (int (fib (Suc (Suc k))))
        else if n \<le> 46 then Some (int (fib (nat n))) else None)"
      using Suc.hyps(2) Suc.prems ne by (intro Suc.hyps(1)) auto
    also have "\<dots> = (if n < int k + 2 then Some (int (fib (Suc k)))
        else if n \<le> 46 then Some (int (fib (nat n))) else None)"
    proof (cases "n = int k + 2")
      case True
      then have "nat n = Suc (Suc k)" by simp
      with True ne Suc.prems show ?thesis by simp
    next
      case False
      with le show ?thesis by simp
    qed
    finally show ?thesis .
  qed
qed

text \<open>C40: The library function returns the n-th Fibonacci number for 0 to 46, 1 for every
  negative argument, and from 47 on its addition overflows.\<close>

theorem fibonacci_of_integer_correct:
  "fibonacci_of_integer n
     = (if n < 0 then Some 1 else if n \<le> 46 then Some (int (fib (nat n))) else None)"
proof -
  consider "n < 0" | "n = 0" | "n = 1" | "2 \<le> n" by linarith
  then show ?thesis
    using fib_loop_fib [of 0 n] by cases (simp_all add: fibonacci_of_integer_def Let_def)
qed

text \<open>The argument is read as a \<open>long\<close> and cut to an \<open>int\<close>: 4294967306 is taken for 10. A
  missing argument ends the program with the status of success.\<close>

lemma fib_main_examples:
  "fib_main [bytes ''prog'', bytes ''10''] = Some \<lparr>shown = Some 55, status = 0\<rparr>"
  "fib_main [bytes ''prog'', bytes ''4294967306''] = Some \<lparr>shown = Some 55, status = 0\<rparr>"
  "fib_main [bytes ''prog'', bytes ''-7''] = Some \<lparr>shown = Some 1, status = 0\<rparr>"
  "fib_main [bytes ''prog''] = Some \<lparr>shown = None, status = 0\<rparr>"
  by code_simp+

end
