(* ===== verification/Calculator.thy ===== *)
theory Calculator
  imports CString
begin

text \<open>
  The calculator of \<^verbatim>\<open>exercise03/task2/calculator.c\<close>. The arithmetic of \<^verbatim>\<open>double\<close> is a record of
  operations, \<^verbatim>\<open>strtod\<close> and the value of the environment variable \<^verbatim>\<open>OFFSET\<close> are parameters;
  the theorems hold for every choice of them, so in particular for IEEE arithmetic, where
  addition is not associative and the order of the folds matters.
\<close>

section \<open>The program\<close>

datatype error_codes = TO_FEW_ARGUMENT_ERROR | UNKNOWN_OPERATOR_ERROR | NOT_NUMBER_ERROR
  | DIVIDE_BY_ZERO_ERROR

fun error_code :: "error_codes \<Rightarrow> nat" where
  "error_code TO_FEW_ARGUMENT_ERROR = 13"
| "error_code UNKNOWN_OPERATOR_ERROR = 42"
| "error_code NOT_NUMBER_ERROR = 15"
| "error_code DIVIDE_BY_ZERO_ERROR = 16"

text \<open>\<^verbatim>\<open>*operator\<close>: the first byte, the terminator for an empty string.\<close>

definition first_char :: "cstring \<Rightarrow> u8" where
  "first_char s = strdup s ! 0"

definition PLUS :: u8 where "PLUS = 43"
definition MINUS :: u8 where "MINUS = 45"
definition TIMES :: u8 where "TIMES = 42"
definition DIVIDE :: u8 where "DIVIDE = 47"

definition check_operator :: "cstring \<Rightarrow> bool" where
  "check_operator operator \<longleftrightarrow> first_char operator \<in> {PLUS, MINUS, TIMES, DIVIDE}"

text \<open>
  The loop of \<^verbatim>\<open>convert_str_double\<close> from index \<open>i\<close>: \<open>strtod\<close> gives a value and the unread rest;
  the array \<open>result\<close> is written at \<open>i\<close> before the rest is checked.
\<close>

function convert_loop :: "(cstring \<Rightarrow> 'd \<times> cstring) \<Rightarrow> cstring list \<Rightarrow> 'd list \<Rightarrow> nat \<Rightarrow> nat
    \<Rightarrow> bool \<times> 'd list" where
  "convert_loop strtod input result len i =
     (if i < len
      then (case strtod (input ! (i + 2)) of
              (v, end_ptr) \<Rightarrow>
                (let result = result[i := v]
                 in if end_ptr \<noteq> [] then (False, result)
                    else convert_loop strtod input result len (i + 1)))
      else (True, result))"
  by pat_completeness auto
termination by (relation "measure (\<lambda>(strtod, input, result, len, i). len - i)") auto

declare convert_loop.simps [simp del]

definition convert_str_double :: "(cstring \<Rightarrow> 'd \<times> cstring) \<Rightarrow> cstring list \<Rightarrow> 'd list \<Rightarrow> nat
    \<Rightarrow> bool \<times> 'd list" where
  "convert_str_double strtod input result len = convert_loop strtod input result len 0"

definition check_offset :: "'d double_ops \<Rightarrow> (cstring \<Rightarrow> 'd \<times> cstring) \<Rightarrow> cstring option \<Rightarrow> 'd" where
  "check_offset D strtod env =
     (case env of None \<Rightarrow> fzero D
      | Some e \<Rightarrow> (case strtod e of (offset, end_ptr) \<Rightarrow>
                     if end_ptr \<noteq> [] then fzero D else offset))"

text \<open>The loops \<^verbatim>\<open>for (int i = 1; i < len; i++) tmp = tmp op input[i];\<close>, from \<open>i\<close> on.\<close>

function op_loop :: "('d \<Rightarrow> 'd \<Rightarrow> 'd) \<Rightarrow> 'd list \<Rightarrow> nat \<Rightarrow> nat \<Rightarrow> 'd \<Rightarrow> 'd" where
  "op_loop f input len i tmp =
     (if i < len then op_loop f input len (i + 1) (f tmp (input ! i)) else tmp)"
  by pat_completeness auto
termination by (relation "measure (\<lambda>(f, input, len, i, tmp). len - i)") auto

function div_loop :: "'d double_ops \<Rightarrow> 'd list \<Rightarrow> nat \<Rightarrow> nat \<Rightarrow> 'd \<Rightarrow> 'd option" where
  "div_loop D input len i tmp =
     (if i < len
      then if is_zero D (input ! i) then None
           else div_loop D input len (i + 1) (fdiv D tmp (input ! i))
      else Some tmp)"
  by pat_completeness auto
termination by (relation "measure (\<lambda>(D, input, len, i, tmp). len - i)") auto

declare op_loop.simps [simp del] div_loop.simps [simp del]

text \<open>\<open>None\<close>: \<^verbatim>\<open>calculate\<close> returned false.\<close>

definition calculate :: "'d double_ops \<Rightarrow> 'd list \<Rightarrow> cstring \<Rightarrow> nat \<Rightarrow> 'd option" where
  "calculate D input operator len =
     (let tmp = input ! 0; c = first_char operator
      in if c = PLUS then Some (op_loop (fadd D) input len 1 tmp)
         else if c = MINUS then Some (op_loop (fsub D) input len 1 tmp)
         else if c = TIMES then Some (op_loop (fmul D) input len 1 tmp)
         else if c = DIVIDE then div_loop D input len 1 tmp
         else Some tmp)"

text \<open>
  \<^verbatim>\<open>main\<close>: an error code or the printed result; \<open>malloced\<close> is the content of the fresh array,
  which is large enough: \<^verbatim>\<open>sizeof(double) * argc - 2\<close> bytes for \<^verbatim>\<open>argc - 2\<close> doubles.
\<close>

definition calculator_main :: "'d double_ops \<Rightarrow> (cstring \<Rightarrow> 'd \<times> cstring) \<Rightarrow> cstring option
    \<Rightarrow> 'd list \<Rightarrow> cstring list \<Rightarrow> error_codes + 'd" where
  "calculator_main D strtod env malloced argv =
     (let argc = length argv
      in if argc \<le> 2 then Inl TO_FEW_ARGUMENT_ERROR
         else if \<not> check_operator (argv ! 1) then Inl UNKNOWN_OPERATOR_ERROR
         else let offset = check_offset D strtod env
              in case convert_str_double strtod argv malloced (argc - 2) of
                   (False, values) \<Rightarrow> Inl NOT_NUMBER_ERROR
                 | (True, values) \<Rightarrow>
                     if argc = 3 then Inr (fadd D (values ! 0) offset)
                     else (case calculate D values (argv ! 1) (argc - 2) of
                             None \<Rightarrow> Inl DIVIDE_BY_ZERO_ERROR
                           | Some result \<Rightarrow> Inr (fadd D result offset)))"

section \<open>Its specification\<close>

text \<open>
  The usage line: \<open>prog op x0 x1 ... xn\<close> is \<open>(...((x0 op x1) op x2)...) + offset\<close>.
\<close>

definition operation :: "'d double_ops \<Rightarrow> u8 \<Rightarrow> ('d \<Rightarrow> 'd \<Rightarrow> 'd) option" where
  "operation D c = map_of [(PLUS, fadd D), (MINUS, fsub D), (TIMES, fmul D), (DIVIDE, fdiv D)] c"

definition is_number :: "(cstring \<Rightarrow> 'd \<times> cstring) \<Rightarrow> cstring \<Rightarrow> bool" where
  "is_number strtod s \<longleftrightarrow> snd (strtod s) = []"

definition env_offset :: "'d double_ops \<Rightarrow> (cstring \<Rightarrow> 'd \<times> cstring) \<Rightarrow> cstring option \<Rightarrow> 'd" where
  "env_offset D strtod env =
     (if env \<noteq> None \<and> is_number strtod (the env) then fst (strtod (the env)) else fzero D)"

fun calculator_spec :: "'d double_ops \<Rightarrow> (cstring \<Rightarrow> 'd \<times> cstring) \<Rightarrow> cstring option
    \<Rightarrow> cstring list \<Rightarrow> error_codes + 'd" where
  "calculator_spec D strtod env (prog # operator # x # xs) =
     (case operation D (first_char operator) of
        None \<Rightarrow> Inl UNKNOWN_OPERATOR_ERROR
      | Some f \<Rightarrow>
          if \<not> list_all (is_number strtod) (x # xs) then Inl NOT_NUMBER_ERROR
          else let vs = map (fst \<circ> strtod) xs
               in if first_char operator = DIVIDE \<and> list_ex (is_zero D) vs
                  then Inl DIVIDE_BY_ZERO_ERROR
                  else Inr (fadd D (foldl f (fst (strtod x)) vs) (env_offset D strtod env)))"
| "calculator_spec D strtod env _ = Inl TO_FEW_ARGUMENT_ERROR"

section \<open>The loops as folds\<close>

lemma op_loop_foldl: "len \<le> length xs \<Longrightarrow> op_loop f xs len i tmp = foldl f tmp (drop i (take len xs))"
proof (induction f xs len i tmp rule: op_loop.induct)
  case (1 f xs len i tmp)
  show ?case
  proof (cases "i < len")
    case True
    with 1 have "drop i (take len xs) = xs ! i # drop (i + 1) (take len xs)"
      by (simp add: Cons_nth_drop_Suc [symmetric])
    with True 1 show ?thesis by (subst op_loop.simps) simp
  qed (simp add: op_loop.simps)
qed

lemma div_loop_foldl:
  "len \<le> length xs \<Longrightarrow> div_loop D xs len i tmp =
     (if list_ex (is_zero D) (drop i (take len xs)) then None
      else Some (foldl (fdiv D) tmp (drop i (take len xs))))"
proof (induction D xs len i tmp rule: div_loop.induct)
  case (1 D xs len i tmp)
  show ?case
  proof (cases "i < len")
    case True
    with 1 have "drop i (take len xs) = xs ! i # drop (i + 1) (take len xs)"
      by (simp add: Cons_nth_drop_Suc [symmetric])
    with True 1 show ?thesis by (subst div_loop.simps) simp
  qed (simp add: div_loop.simps)
qed

lemma convert_loop_map:
  assumes "length input = len + 2" "length result = len" "i \<le> len"
  shows "case convert_loop strtod input result len i of (ok, values) \<Rightarrow>
     ok = list_all (is_number strtod) (drop (i + 2) input)
     \<and> (ok \<longrightarrow> values = take i result @ map (fst \<circ> strtod) (drop (i + 2) input))"
  using assms
proof (induction strtod input result len i rule: convert_loop.induct)
  case (1 strtod input result len i)
  show ?case
  proof (cases "i < len")
    case True
    obtain v rest where s: "strtod (input ! (i + 2)) = (v, rest)" by (rule prod.exhaust)
    have d: "drop (i + 2) input = input ! (i + 2) # drop (i + 3) input"
      using True 1 by (simp add: Cons_nth_drop_Suc [symmetric] numeral_3_eq_3)
    have t: "take (i + 1) (result[i := v]) = take i result @ [v]"
      using True 1 by (simp add: take_Suc_conv_app_nth)
    show ?thesis
    proof (cases "rest = []")
      case True
      with \<open>i < len\<close> s have "convert_loop strtod input result len i
          = convert_loop strtod input (result[i := v]) len (i + 1)"
        by (subst convert_loop.simps) simp
      with 1 \<open>i < len\<close> True s d t show ?thesis
        by (auto simp: is_number_def numeral_3_eq_3 split: prod.splits)
    next
      case False
      with \<open>i < len\<close> s d show ?thesis
        by (subst convert_loop.simps) (simp add: is_number_def)
    qed
  next
    case False
    with 1 show ?thesis by (subst convert_loop.simps) simp
  qed
qed

lemma check_offset_spec: "check_offset D strtod env = env_offset D strtod env"
  by (auto simp: check_offset_def env_offset_def is_number_def split: option.splits prod.splits)

lemma operator_distinct:
  "PLUS \<noteq> MINUS" "PLUS \<noteq> TIMES" "PLUS \<noteq> DIVIDE" "MINUS \<noteq> TIMES" "MINUS \<noteq> DIVIDE" "TIMES \<noteq> DIVIDE"
  by (simp_all add: PLUS_def MINUS_def TIMES_def DIVIDE_def)

lemma check_operator_operation: "check_operator s \<longleftrightarrow> operation D (first_char s) \<noteq> None"
  by (auto simp: check_operator_def operation_def)

lemma calculate_spec:
  assumes "operation D (first_char operator) = Some f"
  shows "calculate D (x # xs) operator (Suc (length xs)) =
    (if first_char operator = DIVIDE \<and> list_ex (is_zero D) xs then None
     else Some (foldl f x xs))"
  using assms operator_distinct
  by (auto simp: calculate_def operation_def op_loop_foldl div_loop_foldl Let_def split: if_splits)

text \<open>C32: The calculator computes the left fold of its operator over the operands plus the
  offset, and fails with exactly the documented error in every other case, in the documented
  order of precedence; a division by zero is one by a later operand only.\<close>

theorem calculator_correct:
  assumes "length malloced = length argv - 2"
  shows "calculator_main D strtod env malloced argv = calculator_spec D strtod env argv"
proof (cases "(D, strtod, env, argv)" rule: calculator_spec.cases)
  case (1 D' strtod' env' prog operator x xs)
  then have argv: "argv = prog # operator # x # xs" by simp
  define converted where "converted = convert_str_double strtod argv malloced (length argv - 2)"
  have conv: "fst converted = list_all (is_number strtod) (x # xs)"
    "fst converted \<Longrightarrow> snd converted = map (fst \<circ> strtod) (x # xs)"
    using convert_loop_map [of argv "length argv - 2" malloced 0 strtod] assms
    by (auto simp: converted_def convert_str_double_def argv split: prod.splits)
  show ?thesis
  proof (cases "fst converted")
    case True
    with conv have c: "converted = (True, map (fst \<circ> strtod) (x # xs))" by (metis prod.collapse)
    show ?thesis
      using conv(1) True c calculate_spec [of D operator _ "fst (strtod x)" "map (fst \<circ> strtod) xs"]
      by (auto simp: calculator_main_def Let_def check_operator_operation [of _ D] argv
          check_offset_spec converted_def split: option.splits)
  next
    case False
    with conv have c: "\<exists>vs. converted = (False, vs)" by (metis prod.collapse)
    with conv(1) False show ?thesis
      by (auto simp: calculator_main_def Let_def check_operator_operation [of _ D] argv
          converted_def split: option.splits)
  qed
qed (auto simp: calculator_main_def)

theorem calculator_correct_witness:
  "calculator_main int_ops strtod_int (Some (bytes ''1'')) [0, 0, 0]
     [bytes ''prog'', bytes ''-'', bytes ''10'', bytes ''3'', bytes ''2''] = Inr 6"
proof -
  have "calculator_spec int_ops strtod_int (Some (bytes ''1''))
     [bytes ''prog'', bytes ''-'', bytes ''10'', bytes ''3'', bytes ''2''] = Inr 6"
    by code_simp
  then show ?thesis by (subst calculator_correct) simp_all
qed

lemma calculator_errors:
  "calculator_main int_ops strtod_int None [0, 0] [bytes ''prog'', bytes ''/'', bytes ''0'', bytes ''0'']
     = Inl DIVIDE_BY_ZERO_ERROR"
  "calculator_main int_ops strtod_int None [0] [bytes ''prog'', bytes ''/'', bytes ''0''] = Inr 0"
  "calculator_main int_ops strtod_int None [0] [bytes ''prog'', bytes ''%'', bytes ''x'']
     = Inl UNKNOWN_OPERATOR_ERROR"
  by code_simp+

end
