(* ===== verification/Roulette.thy ===== *)
theory Roulette
  imports Pthread
begin

text \<open>
  \<^verbatim>\<open>exercise07/task3\<close>: the roulette wheel (\<^verbatim>\<open>roulette.c\<close>) and the program of \<^verbatim>\<open>task3.c\<close>, in its
  variant with a thread per job, that bets 100000 times on black in each of 2000 threads. The
  pseudo-random generator \<^verbatim>\<open>rand_r\<close> is a parameter: a value and the new seed for every seed.
\<close>

section \<open>The wheel\<close>

datatype color = RED | BLACK | GREEN

text \<open>The order of the enumeration's values.\<close>

instantiation color :: linorder
begin

fun color_value :: "color \<Rightarrow> nat" where
  "color_value RED = 0"
| "color_value BLACK = 1"
| "color_value GREEN = 2"

definition less_eq_color :: "color \<Rightarrow> color \<Rightarrow> bool" where
  "less_eq_color c d \<longleftrightarrow> color_value c \<le> color_value d"

definition less_color :: "color \<Rightarrow> color \<Rightarrow> bool" where
  "less_color c d \<longleftrightarrow> color_value c < color_value d"

instance
proof
  fix c d :: color
  show "c \<le> d \<Longrightarrow> d \<le> c \<Longrightarrow> c = d" by (cases c; cases d) (simp_all add: less_eq_color_def)
qed (auto simp: less_eq_color_def less_color_def)

end

record roulette_number =
  number :: nat
  color :: color

definition blacks :: "nat list" where
  "blacks = [2, 4, 6, 8, 10, 11, 13, 15, 17, 20, 22, 24, 26, 28, 29, 31, 33, 35]"

text \<open>The inner loop, with its \<^verbatim>\<open>break\<close>.\<close>

fun color_loop :: "nat \<Rightarrow> nat list \<Rightarrow> color \<Rightarrow> color" where
  "color_loop i [] c = c"
| "color_loop i (b # bs) c = (if i = b then BLACK else color_loop i bs c)"

definition wheel_entry :: "nat \<Rightarrow> roulette_number" where
  "wheel_entry i =
     (if i = 0 \<or> i = 37 then \<lparr>number = (if i = 37 then 0 else i), color = GREEN\<rparr>
      else \<lparr>number = i, color = color_loop i blacks RED\<rparr>)"

definition initializeWheel :: "roulette_number list \<Rightarrow> roulette_number list" where
  "initializeWheel wheel = foldl (\<lambda>w i. w[i := wheel_entry i]) wheel [0..<38]"

lemma fill_array:
  "n \<le> length xs \<Longrightarrow> foldl (\<lambda>w i. w[i := f i]) xs [0..<n] = map f [0..<n] @ drop n xs"
proof (induction n)
  case (Suc n)
  then have "drop n xs = xs ! n # drop (Suc n) xs" by (simp add: Cons_nth_drop_Suc)
  with Suc show ?case by (simp add: list_update_append)
qed simp

lemma wheel_entries: "length wheel = 38 \<Longrightarrow> initializeWheel wheel = map wheel_entry [0..<38]"
  by (simp add: initializeWheel_def fill_array)

section \<open>The betting threads\<close>

definition NUM_EVALUATIONS :: nat where "NUM_EVALUATIONS = 2000"
definition NUM_SPINS :: nat where "NUM_SPINS = 100000"

record job_struct =
  seed :: u32
  result :: u64

record casino_cfg =
  rand_r :: "u32 \<Rightarrow> nat \<times> u32"
  wheel :: "roulette_number list"

text \<open>One round of the loop of \<^verbatim>\<open>simulateBetsOnBlack\<close>.\<close>

definition spin :: "casino_cfg \<Rightarrow> job_struct \<Rightarrow> job_struct" where
  "spin cfg job =
     (case rand_r cfg (seed job) of
        (r, seed') \<Rightarrow>
          (let job = job\<lparr>seed := seed'\<rparr>; spinIndex = r mod 38; spinResult = wheel cfg ! spinIndex
           in if color spinResult = BLACK then job\<lparr>result := result job + 1\<rparr> else job))"

definition simulateBetsOnBlack :: "casino_cfg \<Rightarrow> job_struct \<Rightarrow> job_struct" where
  "simulateBetsOnBlack cfg job = (spin cfg ^^ NUM_SPINS) job"

text \<open>
  The whole program: \<open>spins k\<close> is the loop counter of thread \<open>k\<close>, \<open>created\<close> and \<open>joined\<close> are
  the counters of main's two loops. Thread \<open>0\<close> is main, thread \<open>Suc k\<close> works on job \<open>k\<close>.
\<close>

record casino =
  jobs :: "nat \<Rightarrow> job_struct"
  spins :: "nat \<Rightarrow> nat"
  created :: nat
  joined :: nat
  min_result :: u64
  max_result :: u64

definition casino_init :: "(nat \<Rightarrow> job_struct) \<Rightarrow> casino" where
  "casino_init malloced = \<lparr>jobs = malloced, spins = (\<lambda>_. 0), created = 0, joined = 0,
     min_result = - 1, max_result = 0\<rparr>"

definition casino_main :: "casino \<Rightarrow> casino option" where
  "casino_main s =
     (if created s < NUM_EVALUATIONS
      then Some (s\<lparr>jobs := (jobs s)(created s := \<lparr>seed = of_nat (created s), result = 0\<rparr>),
                   created := created s + 1\<rparr>)
      else if joined s < NUM_EVALUATIONS
      then if spins s (joined s) < NUM_SPINS then None
           else let job_result = (ucast (result (jobs s (joined s))) :: u32);
                    min_result' = (if (ucast job_result :: u64) < min_result s
                                   then ucast job_result else min_result s);
                    max_result' = (if (ucast job_result :: u64) > max_result s
                                   then ucast job_result else max_result s)
                in Some (s\<lparr>min_result := min_result', max_result := max_result',
                           joined := joined s + 1\<rparr>)
      else None)"

definition casino_thread :: "casino_cfg \<Rightarrow> casino \<Rightarrow> nat \<Rightarrow> casino option" where
  "casino_thread cfg s k =
     (if k < created s \<and> spins s k < NUM_SPINS
      then Some (s\<lparr>jobs := (jobs s)(k := spin cfg (jobs s k)), spins := (spins s)(k := spins s k + 1)\<rparr>)
      else None)"

fun casino_next :: "casino_cfg \<Rightarrow> casino \<Rightarrow> nat \<Rightarrow> casino option" where
  "casino_next cfg s 0 = casino_main s"
| "casino_next cfg s (Suc k) = casino_thread cfg s k"

section \<open>Counting black\<close>

definition seed_at :: "casino_cfg \<Rightarrow> nat \<Rightarrow> nat \<Rightarrow> u32" where
  "seed_at cfg k i = ((snd \<circ> rand_r cfg) ^^ i) (of_nat k)"

definition black_at :: "casino_cfg \<Rightarrow> nat \<Rightarrow> nat \<Rightarrow> bool" where
  "black_at cfg k i \<longleftrightarrow> color (wheel cfg ! (fst (rand_r cfg (seed_at cfg k i)) mod 38)) = BLACK"

definition black_wins :: "casino_cfg \<Rightarrow> nat \<Rightarrow> nat \<Rightarrow> nat" where
  "black_wins cfg k n = length (filter (black_at cfg k) [0..<n])"

lemma black_wins_le: "black_wins cfg k n \<le> n"
  unfolding black_wins_def by (metis length_filter_le length_upt diff_zero)

definition new_job :: "nat \<Rightarrow> job_struct" where
  "new_job k = \<lparr>seed = of_nat k, result = 0\<rparr>"

lemma spins_count:
  "(spin cfg ^^ n) (new_job k) = \<lparr>seed = seed_at cfg k n, result = of_nat (black_wins cfg k n)\<rparr>"
  by (induction n)
    (simp_all add: new_job_def seed_at_def black_wins_def spin_def black_at_def Let_def split: prod.splits)

lemma simulateBetsOnBlack_counts:
  "unat (result (simulateBetsOnBlack cfg (new_job k))) = black_wins cfg k NUM_SPINS"
proof -
  have "black_wins cfg k NUM_SPINS < 2 ^ 64"
    using black_wins_le [of cfg k NUM_SPINS] by (simp add: NUM_SPINS_def)
  then show ?thesis by (simp add: simulateBetsOnBlack_def spins_count unsigned_of_nat take_bit_nat_eq_self)
qed

section \<open>The invariant\<close>

definition job_inv :: "casino_cfg \<Rightarrow> casino \<Rightarrow> nat \<Rightarrow> bool" where
  "job_inv cfg s k \<longleftrightarrow> spins s k \<le> NUM_SPINS
     \<and> (if k < created s then jobs s k = (spin cfg ^^ spins s k) (new_job k) else spins s k = 0)
     \<and> (k < joined s \<longrightarrow> spins s k = NUM_SPINS)"

definition wins :: "casino_cfg \<Rightarrow> nat \<Rightarrow> nat" where
  "wins cfg k = black_wins cfg k NUM_SPINS"

definition min_max_inv :: "casino_cfg \<Rightarrow> casino \<Rightarrow> bool" where
  "min_max_inv cfg s \<longleftrightarrow>
     unat (min_result s) = Min (insert (2 ^ 64 - 1) (wins cfg ` {..<joined s}))
     \<and> unat (max_result s) = Max (insert 0 (wins cfg ` {..<joined s}))"

definition casino_inv :: "casino_cfg \<Rightarrow> casino \<Rightarrow> bool" where
  "casino_inv cfg s \<longleftrightarrow> created s \<le> NUM_EVALUATIONS \<and> joined s \<le> NUM_EVALUATIONS
     \<and> (0 < joined s \<longrightarrow> created s = NUM_EVALUATIONS)
     \<and> (\<forall>k. job_inv cfg s k) \<and> min_max_inv cfg s"

definition casino_measure :: "casino \<Rightarrow> nat" where
  "casino_measure s = (NUM_EVALUATIONS - created s) + (NUM_EVALUATIONS - joined s)
     + (\<Sum>k<NUM_EVALUATIONS. NUM_SPINS - spins s k)"

lemma wins_le: "wins cfg k \<le> NUM_SPINS"
  by (simp add: wins_def black_wins_le)

lemma job_result:
  assumes "job_inv cfg s k" "k < created s" "spins s k = NUM_SPINS"
  shows "unat (ucast (ucast (result (jobs s k)) :: u32) :: u64) = wins cfg k"
proof -
  have "wins cfg k < 2 ^ 32" using wins_le [of cfg k] by (simp add: NUM_SPINS_def)
  moreover have "result (jobs s k) = of_nat (wins cfg k)"
    using assms by (simp add: job_inv_def spins_count wins_def)
  ultimately show ?thesis
    by (simp add: unsigned_ucast_eq unsigned_of_nat take_bit_nat_eq_self take_bit_nat_eq_self)
qed

lemma casino_inv_init: "casino_inv cfg (casino_init malloced)"
  by (simp add: casino_inv_def casino_init_def job_inv_def min_max_inv_def unsigned_minus_1_eq_mask mask_eq_exp_minus_1)

lemma casino_inv_thread:
  assumes inv: "casino_inv cfg s" and step: "casino_thread cfg s k = Some t"
  shows "casino_inv cfg t" "casino_measure t < casino_measure s"
proof -
  from step have k: "k < created s" "spins s k < NUM_SPINS"
    and t: "t = s\<lparr>jobs := (jobs s)(k := spin cfg (jobs s k)), spins := (spins s)(k := spins s k + 1)\<rparr>"
    by (auto simp: casino_thread_def split: if_splits)
  have "job_inv cfg t j" for j
    using inv k by (auto simp: casino_inv_def job_inv_def t)
  with inv show "casino_inv cfg t" by (simp add: casino_inv_def min_max_inv_def t)
  have "k < NUM_EVALUATIONS" using inv k by (simp add: casino_inv_def)
  then have "(\<Sum>j<NUM_EVALUATIONS. NUM_SPINS - spins t j) < (\<Sum>j<NUM_EVALUATIONS. NUM_SPINS - spins s j)"
    by (rule sum_fun_upd_less) (use k in \<open>auto simp: t\<close>)
  then show "casino_measure t < casino_measure s" by (simp add: casino_measure_def t)
qed

lemma casino_inv_main:
  assumes inv: "casino_inv cfg s" and step: "casino_main s = Some t"
  shows "casino_inv cfg t" "casino_measure t < casino_measure s"
proof -
  let ?N = NUM_EVALUATIONS
  have "casino_inv cfg t \<and> casino_measure t < casino_measure s"
  proof (cases "created s < ?N")
    case True
    with step have t: "t = s\<lparr>jobs := (jobs s)(created s := new_job (created s)), created := created s + 1\<rparr>"
      by (simp add: casino_main_def new_job_def)
    have "job_inv cfg t j" for j
      using inv by (auto simp: casino_inv_def job_inv_def t)
    with inv True show ?thesis
      by (auto simp: casino_inv_def min_max_inv_def casino_measure_def t)
  next
    case False
    with step have j: "joined s < ?N" "\<not> spins s (joined s) < NUM_SPINS"
      by (auto simp: casino_main_def split: if_splits)
    define w where "w = (ucast (ucast (result (jobs s (joined s))) :: u32) :: u64)"
    with step False j have t: "t = s\<lparr>min_result := min w (min_result s),
        max_result := max w (max_result s), joined := joined s + 1\<rparr>"
      by (auto simp: casino_main_def Let_def min_def max_def)
    have job: "job_inv cfg s (joined s)" "joined s < created s"
      using inv False j by (auto simp: casino_inv_def)
    then have spun: "spins s (joined s) = NUM_SPINS" using j by (simp add: job_inv_def)
    with job have w: "unat w = wins cfg (joined s)" unfolding w_def by (intro job_result)
    have "unat (min w (min_result s)) = min (unat w) (unat (min_result s))"
      "unat (max w (max_result s)) = max (unat w) (unat (max_result s))"
      by (auto simp: min_def max_def word_le_nat_alt)
    moreover let ?A = "wins cfg ` {..<joined s}"
    have "Min (insert (2 ^ 64 - 1) (insert (unat w) ?A)) = min (unat w) (Min (insert (2 ^ 64 - 1) ?A))"
      "Max (insert 0 (insert (unat w) ?A)) = max (unat w) (Max (insert 0 ?A))"
      by (subst insert_commute, subst Min_insert Max_insert; simp)+
    ultimately have "min_max_inv cfg t"
      using inv unfolding casino_inv_def min_max_inv_def by (simp add: t lessThan_Suc flip: w)
    moreover have "job_inv cfg t k" for k
      using inv spun by (auto simp: casino_inv_def job_inv_def t less_Suc_eq)
    ultimately show ?thesis
      using inv False j by (auto simp: casino_inv_def casino_measure_def t)
  qed
  then show "casino_inv cfg t" "casino_measure t < casino_measure s" by auto
qed

lemma casino_progress:
  assumes "casino_inv cfg s" "joined s \<noteq> NUM_EVALUATIONS"
  shows "\<exists>e t. casino_next cfg s e = Some t"
proof (cases "created s < NUM_EVALUATIONS \<or> \<not> spins s (joined s) < NUM_SPINS")
  case True
  with assms have "\<exists>t. casino_next cfg s 0 = Some t"
    by (auto simp: casino_inv_def casino_main_def Let_def)
  then show ?thesis by blast
next
  case False
  with assms have "\<exists>t. casino_next cfg s (Suc (joined s)) = Some t"
    by (auto simp: casino_inv_def casino_thread_def)
  then show ?thesis by blast
qed

interpretation casino: machine_live "casino_next cfg" "\<lambda>s. \<exists>m. s = casino_init m" "casino_inv cfg"
  casino_measure "\<lambda>s. joined s = NUM_EVALUATIONS"
  for cfg
proof
  show "\<exists>m. s = casino_init m \<Longrightarrow> casino_inv cfg s" for s using casino_inv_init by auto
  show "casino_inv cfg s \<Longrightarrow> casino_next cfg s e = Some t \<Longrightarrow> casino_inv cfg t" for s e t
    by (cases e) (auto intro: casino_inv_main casino_inv_thread)
  show "casino_inv cfg s \<Longrightarrow> casino_next cfg s e = Some t \<Longrightarrow> casino_measure t < casino_measure s" for s e t
    by (cases e) (auto intro: casino_inv_main casino_inv_thread)
qed (rule casino_progress)

section \<open>Properties\<close>

text \<open>Whatever the stack held before, the wheel has 18 black, 18 red and 2 green pockets,
  the pockets 1 to 36 carry their number, and black is the colour of the 18 numbers listed.\<close>

theorem initializeWheel_american:
  assumes "length stack = 38"
  shows "let w = initializeWheel stack
    in length w = 38 \<and> map number w = [0..<37] @ [0]
       \<and> length (filter (\<lambda>p. color p = BLACK) w) = 18 \<and> length (filter (\<lambda>p. color p = RED) w) = 18
       \<and> map number (filter (\<lambda>p. color p = BLACK) w) = blacks
       \<and> filter (\<lambda>i. color (w ! i) = GREEN) [0..<38] = [0, 37]"
  unfolding wheel_entries [OF assms] by code_simp

theorem initializeWheel_american_witness:
  "length (filter (\<lambda>p. color p = BLACK) (initializeWheel (replicate 38 \<lparr>number = 7, color = GREEN\<rparr>))) = 18"
  using initializeWheel_american [of "replicate 38 \<lparr>number = 7, color = GREEN\<rparr>"] by (simp add: Let_def)

text \<open>C11: The threads do not disturb each other: under every schedule, when main has joined
  them all, the reported minimum and maximum are those of the numbers of black spins that the
  2000 jobs have when run one after the other, and neither counter has wrapped.\<close>

theorem casino_min_max:
  assumes "reach (casino_next cfg) (casino_init malloced) s" "joined s = NUM_EVALUATIONS"
  shows "unat (min_result s) = Min ((\<lambda>k. unat (result (simulateBetsOnBlack cfg (new_job k)))) ` {..<NUM_EVALUATIONS})
    \<and> unat (max_result s) = Max ((\<lambda>k. unat (result (simulateBetsOnBlack cfg (new_job k)))) ` {..<NUM_EVALUATIONS})
    \<and> min_result s \<le> max_result s \<and> unat (max_result s) \<le> NUM_SPINS"
proof -
  let ?W = "wins cfg ` {..<NUM_EVALUATIONS}"
  have "casino_inv cfg s" using assms(1) by (rule casino.reach_inv) blast
  then have mm: "unat (min_result s) = Min (insert (2 ^ 64 - 1) ?W)" "unat (max_result s) = Max (insert 0 ?W)"
    using assms(2) by (simp_all add: casino_inv_def min_max_inv_def)
  have W: "finite ?W" "wins cfg 0 \<in> ?W" by (auto simp: NUM_EVALUATIONS_def)
  have le: "w \<le> NUM_SPINS" if "w \<in> ?W" for w using that wins_le by auto
  from W have "Min ?W \<le> Max ?W" by (meson Max_ge Min_le order_trans)
  moreover have Max: "Max ?W \<le> NUM_SPINS" using W le by (subst Max_le_iff) auto
  ultimately have "Min (insert (2 ^ 64 - 1) ?W) = Min ?W" "Max (insert 0 ?W) = Max ?W"
    using W by (subst Min_insert Max_insert; auto simp: NUM_SPINS_def min_def)+
  with mm \<open>Min ?W \<le> Max ?W\<close> Max show ?thesis
    unfolding simulateBetsOnBlack_counts wins_def [symmetric] by (simp add: word_le_nat_alt)
qed

text \<open>The program always ends: it cannot deadlock and no schedule is longer than
  2000 creations, 2000 joins and 100000 spins of each thread.\<close>

theorem casino_terminates:
  assumes "reach (casino_next cfg) (casino_init malloced) s"
  shows "(stuck (casino_next cfg) s \<longleftrightarrow> joined s = NUM_EVALUATIONS)
    \<and> (\<exists>es t. run (casino_next cfg) s es = Some t \<and> joined t = NUM_EVALUATIONS
         \<and> length es \<le> NUM_EVALUATIONS * (NUM_SPINS + 2))"
proof
  have inv: "casino_inv cfg s" using assms by (rule casino.reach_inv) blast
  show "stuck (casino_next cfg) s \<longleftrightarrow> joined s = NUM_EVALUATIONS"
  proof
    show "stuck (casino_next cfg) s \<Longrightarrow> joined s = NUM_EVALUATIONS"
      using casino_progress [OF inv] by (force simp: stuck_def)
    assume "joined s = NUM_EVALUATIONS"
    then have "casino_next cfg s e = None" for e
      using inv by (cases e) (auto simp: casino_main_def casino_thread_def casino_inv_def job_inv_def)
    then show "stuck (casino_next cfg) s" by (simp add: stuck_def)
  qed
  have "(\<Sum>k<NUM_EVALUATIONS. NUM_SPINS - spins s k) \<le> (\<Sum>k<NUM_EVALUATIONS. NUM_SPINS)"
    by (rule sum_mono) simp
  then have "casino_measure s \<le> NUM_EVALUATIONS * (NUM_SPINS + 2)"
    by (simp add: casino_measure_def)
  moreover obtain es t where "run (casino_next cfg) s es = Some t" "joined t = NUM_EVALUATIONS"
    using casino.finishes [OF inv] by blast
  ultimately show "\<exists>es t. run (casino_next cfg) s es = Some t \<and> joined t = NUM_EVALUATIONS
         \<and> length es \<le> NUM_EVALUATIONS * (NUM_SPINS + 2)"
    using casino.run_meas [OF inv] by (meson add_leD1 order_trans)
qed

text \<open>A generator that only counts, on the wheel of the program.\<close>

definition counting_cfg :: casino_cfg where
  "counting_cfg = \<lparr>rand_r = (\<lambda>s. (unat s, s + 1)),
     wheel = initializeWheel (replicate 38 \<lparr>number = 0, color = RED\<rparr>)\<rparr>"

theorem casino_terminates_witness:
  "\<exists>es t. run (casino_next counting_cfg) (casino_init new_job) es = Some t
     \<and> joined t = NUM_EVALUATIONS \<and> length es \<le> 200004000"
  using casino_terminates [of counting_cfg new_job "casino_init new_job", OF reach_start]
  by (auto simp: NUM_EVALUATIONS_def NUM_SPINS_def)

theorem casino_min_max_witness:
  "\<exists>s. reach (casino_next counting_cfg) (casino_init new_job) s \<and> min_result s \<le> max_result s
     \<and> unat (max_result s) \<le> 100000"
proof -
  obtain es s where s: "run (casino_next counting_cfg) (casino_init new_job) es = Some s"
    "joined s = NUM_EVALUATIONS"
    using casino.finishes [OF casino_inv_init] by blast
  from run_reach [OF s(1)] casino_min_max [OF run_reach [OF s(1)] s(2)] show ?thesis
    by (auto simp: NUM_SPINS_def)
qed

end
