(* ===== verification/SharedCounter.thy ===== *)
theory SharedCounter
  imports Pthread
begin

text \<open>
  \<^verbatim>\<open>exercise06/task1\<close>: a thousand threads add 42 and -41 in turn to one \<^verbatim>\<open>unsigned int\<close>, 25000
  times each, protected by a mutex (\<^verbatim>\<open>task1_mutex.c\<close>) or with atomic additions
  (\<^verbatim>\<open>task1_atomic.c\<close>). With the mutex the addition is a load followed by a store, and other
  threads may run in between.
\<close>

definition THREADS :: nat where "THREADS = 1000"
definition ITERATIONS :: nat where "ITERATIONS = 25000"
definition EVEN_INCREASE :: u32 where "EVEN_INCREASE = 42"
definition ODD_INCREASE :: u32 where "ODD_INCREASE = - 41"

definition increase :: "nat \<Rightarrow> u32" where
  "increase i = (if i mod 2 = 0 then EVEN_INCREASE else ODD_INCREASE)"

text \<open>The two loops of main: how many threads have been created and joined.\<close>

record main_loops =
  created :: nat
  joined :: nat

fun main_step :: "(nat \<Rightarrow> bool) \<Rightarrow> main_loops \<Rightarrow> main_loops option" where
  "main_step ended m =
     (if created m < THREADS then Some (m\<lparr>created := created m + 1\<rparr>)
      else if joined m < THREADS
      then if ended (joined m) then Some (m\<lparr>joined := joined m + 1\<rparr>) else None
      else None)"

section \<open>With a mutex\<close>

text \<open>Where a thread is in its loop: about to lock, to load, to store the sum, to unlock.\<close>

datatype mutex_pc = Lock | Load | Store u32 | Unlock

record mutex_state =
  mutex :: pmutex
  counter :: u32
  pc :: "nat \<Rightarrow> mutex_pc"
  iter :: "nat \<Rightarrow> nat"
  loops :: main_loops

definition mutex_program_init :: mutex_state where
  "mutex_program_init = \<lparr>mutex = mutex_init, counter = 0, pc = (\<lambda>_. Lock), iter = (\<lambda>_. 0),
     loops = \<lparr>created = 0, joined = 0\<rparr>\<rparr>"

definition mutex_ended :: "mutex_state \<Rightarrow> nat \<Rightarrow> bool" where
  "mutex_ended s k \<longleftrightarrow> pc s k = Lock \<and> \<not> iter s k < ITERATIONS"

definition mutex_thread :: "mutex_state \<Rightarrow> nat \<Rightarrow> mutex_state option" where
  "mutex_thread s k =
     (case pc s k of
        Lock \<Rightarrow>
          if iter s k < ITERATIONS
          then map_option (\<lambda>m. s\<lparr>mutex := m, pc := (pc s)(k := Load)\<rparr>) (mutex_lock (mutex s) k)
          else None
      | Load \<Rightarrow> Some (s\<lparr>pc := (pc s)(k := Store (counter s + increase (iter s k)))\<rparr>)
      | Store v \<Rightarrow> Some (s\<lparr>counter := v, pc := (pc s)(k := Unlock)\<rparr>)
      | Unlock \<Rightarrow>
          map_option (\<lambda>m. s\<lparr>mutex := m, pc := (pc s)(k := Lock), iter := (iter s)(k := iter s k + 1)\<rparr>)
            (mutex_unlock (mutex s) k))"

fun mutex_next :: "mutex_state \<Rightarrow> nat \<Rightarrow> mutex_state option" where
  "mutex_next s 0 = map_option (\<lambda>m. s\<lparr>loops := m\<rparr>) (main_step (mutex_ended s) (loops s))"
| "mutex_next s (Suc k) = (if k < created (loops s) then mutex_thread s k else None)"

section \<open>With an atomic counter\<close>

record atomic_state =
  acounter :: u32
  aiter :: "nat \<Rightarrow> nat"
  aloops :: main_loops

definition atomic_program_init :: atomic_state where
  "atomic_program_init = \<lparr>acounter = 0, aiter = (\<lambda>_. 0), aloops = \<lparr>created = 0, joined = 0\<rparr>\<rparr>"

definition atomic_ended :: "atomic_state \<Rightarrow> nat \<Rightarrow> bool" where
  "atomic_ended s k \<longleftrightarrow> \<not> aiter s k < ITERATIONS"

definition atomic_thread :: "atomic_state \<Rightarrow> nat \<Rightarrow> atomic_state option" where
  "atomic_thread s k =
     (if aiter s k < ITERATIONS
      then Some (s\<lparr>acounter := acounter s + increase (aiter s k), aiter := (aiter s)(k := aiter s k + 1)\<rparr>)
      else None)"

fun atomic_next :: "atomic_state \<Rightarrow> nat \<Rightarrow> atomic_state option" where
  "atomic_next s 0 = map_option (\<lambda>m. s\<lparr>aloops := m\<rparr>) (main_step (atomic_ended s) (aloops s))"
| "atomic_next s (Suc k) = (if k < created (aloops s) then atomic_thread s k else None)"

section \<open>The sum the threads have added\<close>

definition added :: "nat \<Rightarrow> u32" where
  "added n = (\<Sum>i<n. increase i)"

definition total :: "(nat \<Rightarrow> nat) \<Rightarrow> u32" where
  "total d = (\<Sum>k<THREADS. added (d k))"

lemma added_Suc: "added (Suc n) = added n + increase n"
  by (simp add: added_def)

lemma added_even: "added (2 * m) = of_nat m"
proof (induction m)
  case (Suc m)
  have "increase (2 * m) = 42" "increase (Suc (2 * m)) = - 41"
    by (simp_all add: increase_def EVEN_INCREASE_def ODD_INCREASE_def)
  with Suc show ?case by (simp add: added_Suc)
qed (simp add: added_def)

lemma total_upd: "k < THREADS \<Longrightarrow> total (d(k := Suc (d k))) = total d + increase (d k)"
proof -
  assume k: "k < THREADS"
  have "total (d(k := Suc (d k))) = added (Suc (d k)) + (\<Sum>j \<in> {..<THREADS} - {k}. added (d j))"
    unfolding total_def using k by (subst sum.remove [of _ k]) (auto intro!: sum.cong)
  moreover have "total d = added (d k) + (\<Sum>j \<in> {..<THREADS} - {k}. added (d j))"
    unfolding total_def using k by (intro sum.remove) auto
  ultimately show ?thesis by (simp add: added_Suc)
qed

lemma total_cong: "(\<And>k. k < THREADS \<Longrightarrow> d k = e k) \<Longrightarrow> total d = total e"
  unfolding total_def by (rule sum.cong) auto

lemma total_final: "(\<And>k. k < THREADS \<Longrightarrow> d k = ITERATIONS) \<Longrightarrow> total d = 12500000"
proof -
  assume "\<And>k. k < THREADS \<Longrightarrow> d k = ITERATIONS"
  then have "total d = (\<Sum>k<THREADS. added ITERATIONS)" unfolding total_def by simp
  moreover have "added ITERATIONS = 12500"
    using added_even [of 12500] by (simp add: ITERATIONS_def)
  ultimately show ?thesis by (simp add: THREADS_def)
qed

section \<open>Main's loops\<close>

definition loops_inv :: "(nat \<Rightarrow> bool) \<Rightarrow> main_loops \<Rightarrow> bool" where
  "loops_inv ended m \<longleftrightarrow> created m \<le> THREADS \<and> joined m \<le> THREADS
     \<and> (0 < joined m \<longrightarrow> created m = THREADS) \<and> (\<forall>k < joined m. ended k)"

definition loops_left :: "main_loops \<Rightarrow> nat" where
  "loops_left m = (THREADS - created m) + (THREADS - joined m)"

lemma main_step_inv:
  assumes "loops_inv ended m" "main_step ended m = Some m'"
  shows "loops_inv ended m'" "loops_left m' < loops_left m" "created m \<le> created m'"
  using assms by (auto simp: loops_inv_def loops_left_def less_Suc_eq split: if_splits)

lemma main_step_progress:
  assumes "loops_inv ended m" "joined m \<noteq> THREADS" "main_step ended m = None"
  shows "\<exists>k < created m. \<not> ended k"
  using assms by (intro exI [of _ "joined m"]) (auto simp: loops_inv_def split: if_splits)

lemma loops_inv_mono: "loops_inv ended m \<Longrightarrow> (\<And>k. ended k \<Longrightarrow> ended' k) \<Longrightarrow> loops_inv ended' m"
  by (auto simp: loops_inv_def)

section \<open>The atomic program\<close>

definition atomic_inv :: "atomic_state \<Rightarrow> bool" where
  "atomic_inv s \<longleftrightarrow> loops_inv (atomic_ended s) (aloops s) \<and> (\<forall>k. aiter s k \<le> ITERATIONS)
     \<and> acounter s = total (aiter s)"

definition atomic_measure :: "atomic_state \<Rightarrow> nat" where
  "atomic_measure s = loops_left (aloops s) + (\<Sum>k<THREADS. ITERATIONS - aiter s k)"

lemma atomic_thread_step:
  assumes inv: "atomic_inv s" and "k < created (aloops s)" "atomic_thread s k = Some t"
  shows "atomic_inv t" "atomic_measure t < atomic_measure s"
proof -
  from assms have k: "k < THREADS" "aiter s k < ITERATIONS"
    and t: "t = s\<lparr>acounter := acounter s + increase (aiter s k), aiter := (aiter s)(k := Suc (aiter s k))\<rparr>"
    by (auto simp: atomic_thread_def atomic_inv_def loops_inv_def split: if_splits)
  have "loops_inv (atomic_ended t) (aloops s)"
    by (rule loops_inv_mono [of "atomic_ended s"]) (use inv k in \<open>auto simp: atomic_inv_def atomic_ended_def t\<close>)
  with inv k show "atomic_inv t" by (auto simp: atomic_inv_def t total_upd)
  have "(\<Sum>j<THREADS. ITERATIONS - aiter t j) < (\<Sum>j<THREADS. ITERATIONS - aiter s j)"
    by (rule sum_fun_upd_less [OF k(1)]) (use k in \<open>auto simp: t\<close>)
  then show "atomic_measure t < atomic_measure s" by (simp add: atomic_measure_def t)
qed

lemma atomic_main_step:
  assumes inv: "atomic_inv s" and "main_step (atomic_ended s) (aloops s) = Some m" and t: "t = s\<lparr>aloops := m\<rparr>"
  shows "atomic_inv t" "atomic_measure t < atomic_measure s"
proof -
  have l: "loops_inv (atomic_ended s) (aloops s)" using inv by (simp add: atomic_inv_def)
  have "atomic_ended t = atomic_ended s" by (simp add: fun_eq_iff atomic_ended_def t)
  with inv main_step_inv [OF l assms(2)] show "atomic_inv t" "atomic_measure t < atomic_measure s"
    by (simp_all add: atomic_inv_def atomic_measure_def t)
qed

interpretation atomic: machine_live atomic_next "\<lambda>s. s = atomic_program_init" atomic_inv atomic_measure
  "\<lambda>s. joined (aloops s) = THREADS"
proof
  show "s = atomic_program_init \<Longrightarrow> atomic_inv s" for s
    by (simp add: atomic_inv_def atomic_program_init_def loops_inv_def total_def added_def)
  fix s :: atomic_state and e :: nat and t :: atomic_state
  show "atomic_inv s \<Longrightarrow> atomic_next s e = Some t \<Longrightarrow> atomic_inv t"
    by (cases e) (auto intro: atomic_main_step(1) atomic_thread_step(1) split: if_splits simp del: main_step.simps)
  show "atomic_inv s \<Longrightarrow> atomic_next s e = Some t \<Longrightarrow> atomic_measure t < atomic_measure s"
    by (cases e) (auto intro: atomic_main_step(2) atomic_thread_step(2) split: if_splits simp del: main_step.simps)
next
  fix s assume inv: "atomic_inv s" and nj: "joined (aloops s) \<noteq> THREADS"
  show "\<exists>e t. atomic_next s e = Some t"
  proof (cases "main_step (atomic_ended s) (aloops s)")
    case None
    from inv have "loops_inv (atomic_ended s) (aloops s)" by (simp add: atomic_inv_def)
    from main_step_progress [OF this nj None] obtain k
      where "k < created (aloops s)" "aiter s k < ITERATIONS" by (auto simp: atomic_ended_def)
    then have "\<exists>t. atomic_next s (Suc k) = Some t" by (simp add: atomic_thread_def)
    then show ?thesis by blast
  next
    case (Some m)
    then have "\<exists>t. atomic_next s 0 = Some t" by simp
    then show ?thesis by blast
  qed
qed

section \<open>The program with the mutex\<close>

definition critical :: "mutex_state \<Rightarrow> nat \<Rightarrow> bool" where
  "critical s k \<longleftrightarrow> pc s k \<noteq> Lock"

text \<open>The additions of thread \<open>k\<close> that are in the counter.\<close>

definition stored :: "mutex_state \<Rightarrow> nat \<Rightarrow> nat" where
  "stored s k = (if pc s k = Unlock then Suc (iter s k) else iter s k)"

definition thread_inv :: "mutex_state \<Rightarrow> nat \<Rightarrow> bool" where
  "thread_inv s k \<longleftrightarrow> (mutex s = Some k \<longleftrightarrow> critical s k)
     \<and> iter s k \<le> ITERATIONS \<and> (critical s k \<longrightarrow> iter s k < ITERATIONS \<and> k < created (loops s))
     \<and> (\<forall>v. pc s k = Store v \<longrightarrow> v = counter s + increase (iter s k))"

definition mutex_inv :: "mutex_state \<Rightarrow> bool" where
  "mutex_inv s \<longleftrightarrow> loops_inv (mutex_ended s) (loops s) \<and> (\<forall>k. thread_inv s k)
     \<and> counter s = total (stored s)"

fun pc_left :: "mutex_pc \<Rightarrow> nat" where
  "pc_left Lock = 4"
| "pc_left Load = 3"
| "pc_left (Store v) = 2"
| "pc_left Unlock = 1"

definition thread_left :: "mutex_state \<Rightarrow> nat \<Rightarrow> nat" where
  "thread_left s k = 4 * (ITERATIONS - iter s k) + pc_left (pc s k)"

definition mutex_measure :: "mutex_state \<Rightarrow> nat" where
  "mutex_measure s = loops_left (loops s) + (\<Sum>k<THREADS. thread_left s k)"

lemma mutex_inv_others:
  assumes "mutex_inv s" "critical s k" "j \<noteq> k"
  shows "pc s j = Lock"
  using assms by (auto simp: mutex_inv_def thread_inv_def critical_def) (metis option.inject)

lemma mutex_thread_step:
  assumes inv: "mutex_inv s" and k: "k < created (loops s)" and step: "mutex_thread s k = Some t"
  shows "(\<forall>j. thread_inv t j) \<and> counter t = total (stored t) \<and> loops t = loops s
    \<and> (\<forall>j. mutex_ended s j \<longrightarrow> mutex_ended t j)
    \<and> thread_left t k < thread_left s k \<and> (\<forall>j. j \<noteq> k \<longrightarrow> thread_left t j = thread_left s j)"
proof -
  have ti: "thread_inv s j" for j using inv by (simp add: mutex_inv_def)
  have T: "k < THREADS" using inv k by (simp add: mutex_inv_def loops_inv_def)
  have c: "counter s = total (stored s)" using inv by (simp add: mutex_inv_def)
  show ?thesis
  proof (cases "pc s k")
    case Lock
    with step have t: "t = s\<lparr>mutex := Some k, pc := (pc s)(k := Load)\<rparr>" "mutex s = None" "iter s k < ITERATIONS"
      by (auto simp: mutex_thread_def split: if_splits)
    have "stored t = stored s" using Lock by (simp add: fun_eq_iff stored_def t)
    moreover have "thread_inv t j" for j
      using ti [of j] ti [of k] k t by (auto simp: thread_inv_def critical_def)
    ultimately show ?thesis
      using c t(2,3) Lock by (auto simp: t(1) mutex_ended_def thread_left_def)
  next
    case Load
    with step have t: "t = s\<lparr>pc := (pc s)(k := Store (counter s + increase (iter s k)))\<rparr>"
      by (auto simp: mutex_thread_def)
    have "stored t = stored s" using Load by (simp add: fun_eq_iff stored_def t)
    moreover have "thread_inv t j" for j
      using ti [of j] ti [of k] k Load by (auto simp: thread_inv_def critical_def t)
    ultimately show ?thesis
      using c Load by (auto simp: t mutex_ended_def thread_left_def)
  next
    case (Store v)
    with step have t: "t = s\<lparr>counter := v, pc := (pc s)(k := Unlock)\<rparr>"
      by (auto simp: mutex_thread_def)
    have v: "v = counter s + increase (iter s k)" using ti [of k] Store by (simp add: thread_inv_def)
    have others: "j \<noteq> k \<Longrightarrow> pc s j = Lock" for j
      using mutex_inv_others [OF inv, of k j] Store by (simp add: critical_def)
    have "stored t = (stored s)(k := Suc (stored s k))"
      using Store by (simp add: fun_eq_iff stored_def t)
    moreover have "stored s k = iter s k" using Store by (simp add: stored_def)
    ultimately have "counter t = total (stored t)"
      using total_upd [OF T, of "stored s"] c by (simp add: t v)
    moreover have "thread_inv t j" for j
      using ti [of j] ti [of k] k Store others [of j]
      by (cases "j = k") (auto simp: thread_inv_def critical_def t)
    ultimately show ?thesis
      using Store by (auto simp: t mutex_ended_def thread_left_def)
  next
    case Unlock
    with step have t: "t = s\<lparr>mutex := None, pc := (pc s)(k := Lock), iter := (iter s)(k := iter s k + 1)\<rparr>"
      by (auto simp: mutex_thread_def)
    have lt: "iter s k < ITERATIONS" and own: "mutex s = Some k"
      using ti [of k] Unlock by (auto simp: thread_inv_def critical_def)
    have "stored t = stored s" using Unlock by (simp add: fun_eq_iff stored_def t)
    moreover have "thread_inv t j" for j
      using ti [of j] k lt own by (cases "j = k") (auto simp: thread_inv_def critical_def t)
    ultimately show ?thesis
      using c lt Unlock by (auto simp: t mutex_ended_def thread_left_def)
  qed
qed

lemma mutex_thread_preserves:
  assumes inv: "mutex_inv s" and k: "k < created (loops s)" and step: "mutex_thread s k = Some t"
  shows "mutex_inv t" "mutex_measure t < mutex_measure s"
proof -
  note st = mutex_thread_step [OF assms]
  have "loops_inv (mutex_ended t) (loops s)"
    by (rule loops_inv_mono [of "mutex_ended s"]) (use inv st in \<open>auto simp: mutex_inv_def\<close>)
  with st show "mutex_inv t" by (simp add: mutex_inv_def)
  have "k < THREADS" using inv k by (simp add: mutex_inv_def loops_inv_def)
  then have "(\<Sum>j<THREADS. thread_left t j) < (\<Sum>j<THREADS. thread_left s j)"
    by (rule sum_fun_upd_less) (use st in auto)
  with st show "mutex_measure t < mutex_measure s" by (simp add: mutex_measure_def)
qed

lemma mutex_main_preserves:
  assumes inv: "mutex_inv s" and "main_step (mutex_ended s) (loops s) = Some m" and t: "t = s\<lparr>loops := m\<rparr>"
  shows "mutex_inv t" "mutex_measure t < mutex_measure s"
proof -
  have l: "loops_inv (mutex_ended s) (loops s)" using inv by (simp add: mutex_inv_def)
  have e: "mutex_ended t = mutex_ended s" "stored t = stored s" "thread_left t = thread_left s"
    by (simp_all add: fun_eq_iff mutex_ended_def stored_def thread_left_def t)
  have "thread_inv t k" for k
    using inv main_step_inv(3) [OF l assms(2)]
    by (auto simp: mutex_inv_def thread_inv_def critical_def t dest: spec [of _ k])
  with inv e main_step_inv [OF l assms(2)] show "mutex_inv t" "mutex_measure t < mutex_measure s"
    by (simp_all add: mutex_inv_def mutex_measure_def t)
qed

lemma mutex_progress:
  assumes inv: "mutex_inv s" and nj: "joined (loops s) \<noteq> THREADS"
  shows "\<exists>e t. mutex_next s e = Some t"
proof (cases "main_step (mutex_ended s) (loops s)")
  case (Some m)
  then have "\<exists>t. mutex_next s 0 = Some t" by simp
  then show ?thesis by blast
next
  case None
  from inv have "loops_inv (mutex_ended s) (loops s)" by (simp add: mutex_inv_def)
  from main_step_progress [OF this nj None] obtain k
    where k: "k < created (loops s)" "\<not> mutex_ended s k" by blast
  have ti: "thread_inv s j" for j using inv by (simp add: mutex_inv_def)
  show ?thesis
  proof (cases "mutex s")
    case None
    then have "pc s k = Lock" using ti [of k] by (auto simp: thread_inv_def critical_def)
    with k None have "\<exists>t. mutex_next s (Suc k) = Some t"
      by (auto simp: mutex_ended_def mutex_thread_def)
    then show ?thesis by blast
  next
    case (Some j)
    then have "pc s j \<noteq> Lock" "j < created (loops s)" using ti [of j] by (auto simp: thread_inv_def critical_def)
    with Some have "\<exists>t. mutex_next s (Suc j) = Some t"
      by (auto simp: mutex_thread_def split: mutex_pc.splits)
    then show ?thesis by blast
  qed
qed

interpretation mutexed: machine_live mutex_next "\<lambda>s. s = mutex_program_init" mutex_inv mutex_measure
  "\<lambda>s. joined (loops s) = THREADS"
proof
  show "s = mutex_program_init \<Longrightarrow> mutex_inv s" for s
    by (simp add: mutex_inv_def mutex_program_init_def loops_inv_def total_def added_def stored_def
        thread_inv_def critical_def mutex_init_def)
  fix s :: mutex_state and e :: nat and t :: mutex_state
  show "mutex_inv s \<Longrightarrow> mutex_next s e = Some t \<Longrightarrow> mutex_inv t"
    by (cases e) (auto intro: mutex_main_preserves(1) mutex_thread_preserves(1) split: if_splits simp del: main_step.simps)
  show "mutex_inv s \<Longrightarrow> mutex_next s e = Some t \<Longrightarrow> mutex_measure t < mutex_measure s"
    by (cases e) (auto intro: mutex_main_preserves(2) mutex_thread_preserves(2) split: if_splits simp del: main_step.simps)
qed (rule mutex_progress)

section \<open>Properties\<close>

text \<open>C4: With the mutex no update is lost: under every schedule the counter is 12500000 when
  main has joined the threads, although an addition is a load and a separate store; and the
  program can always get there.\<close>

theorem mutex_counter_final:
  assumes "reach mutex_next mutex_program_init s"
  shows "(stuck mutex_next s \<longrightarrow> joined (loops s) = THREADS \<and> counter s = 12500000)
    \<and> (\<exists>es t. run mutex_next s es = Some t \<and> joined (loops t) = THREADS \<and> counter t = 12500000)"
proof -
  have final: "counter t = 12500000" if "mutex_inv t" "joined (loops t) = THREADS" for t
  proof -
    have "stored t k = ITERATIONS" if "k < THREADS" for k
      using that \<open>mutex_inv t\<close> \<open>joined (loops t) = THREADS\<close>
      by (auto simp: mutex_inv_def loops_inv_def mutex_ended_def thread_inv_def stored_def le_antisym)
    then show ?thesis using that(1) by (simp add: mutex_inv_def total_final)
  qed
  have inv: "mutex_inv s" using assms by (rule mutexed.reach_inv) simp
  then obtain es t where "run mutex_next s es = Some t" "joined (loops t) = THREADS"
    using mutexed.finishes by blast
  with final mutexed.run_inv [OF inv] inv mutexed.no_deadlock [OF assms] show ?thesis by blast
qed

theorem mutex_counter_final_witness:
  "\<exists>es t. run mutex_next mutex_program_init es = Some t \<and> counter t = 12500000"
  using mutex_counter_final [OF reach_start] by blast

text \<open>The same holds for the atomic counter.\<close>

theorem atomic_counter_final:
  assumes "reach atomic_next atomic_program_init s"
  shows "(stuck atomic_next s \<longrightarrow> joined (aloops s) = THREADS \<and> acounter s = 12500000)
    \<and> (\<exists>es t. run atomic_next s es = Some t \<and> joined (aloops t) = THREADS \<and> acounter t = 12500000)"
proof -
  have final: "acounter t = 12500000" if "atomic_inv t" "joined (aloops t) = THREADS" for t
  proof -
    have "aiter t k = ITERATIONS" if "k < THREADS" for k
      using that \<open>atomic_inv t\<close> \<open>joined (aloops t) = THREADS\<close>
      by (auto simp: atomic_inv_def loops_inv_def atomic_ended_def le_antisym)
    then show ?thesis using that(1) by (simp add: atomic_inv_def total_final)
  qed
  have inv: "atomic_inv s" using assms by (rule atomic.reach_inv) simp
  then obtain es t where "run atomic_next s es = Some t" "joined (aloops t) = THREADS"
    using atomic.finishes by blast
  with final atomic.run_inv [OF inv] inv atomic.no_deadlock [OF assms] show ?thesis by blast
qed

theorem atomic_counter_final_witness:
  "\<exists>es t. run atomic_next atomic_program_init es = Some t \<and> acounter t = 12500000"
  using atomic_counter_final [OF reach_start] by blast

end
