(* ===== verification/SumQueue.thy ===== *)
theory SumQueue
  imports MyQueue CString
begin

text \<open>
  \<^verbatim>\<open>exercise06/task3/task3.c\<close>: main pushes \<open>n\<close> numbers 1 and -1 and one pill \<open>INT_MAX\<close> per
  consumer into a queue that is protected by a mutex and a condition variable; \<open>c\<close> consumer
  threads add up what they pop until they get a pill. A waiting consumer may wake up
  spuriously; a signal wakes one of the waiting consumers, whichever the scheduler chooses.
\<close>

section \<open>The program\<close>

record sum_cfg =
  consumers :: nat
  elements :: nat

text \<open>The arguments: \<open>None\<close> is an error message and \<^verbatim>\<open>EXIT_FAILURE\<close>.\<close>

definition sum_args :: "cstring list \<Rightarrow> sum_cfg option" where
  "sum_args argv =
     (if length argv \<noteq> 3 then None
      else let c = to_int (strtol (argv ! 1)); n = to_int (strtol (argv ! 2))
           in if n \<le> 0 \<or> c \<le> 0 then None else Some \<lparr>consumers = nat c, elements = nat n\<rparr>)"

text \<open>
  The two filling loops have the same body but for the value pushed; their rounds are numbered
  through, \<open>0..n-1\<close> for the numbers and \<open>n..n+c-1\<close> for the pills.
\<close>

definition number :: "nat \<Rightarrow> int" where
  "number i = (if i mod 2 = 0 then 1 else - 1)"

definition element :: "sum_cfg \<Rightarrow> nat \<Rightarrow> int" where
  "element cfg i = (if i < elements cfg then number i else INT_MAX)"

datatype fill_stage = FLock | FPush | FSignal | FUnlock

datatype producer_pc = Create nat | Fill nat fill_stage | Broadcast | Join nat int | Exit int
  | OutOfBounds

datatype consumer_pc = CLock | CTest | CWait | CWoken | CPop | CUnlock int | CCheck int | CDone

record sum_state =
  qmutex :: pmutex
  queue :: myqueue
  ppc :: producer_pc
  cpc :: "nat \<Rightarrow> consumer_pc"
  sums :: "nat \<Rightarrow> int"

definition sum_init :: sum_state where
  "sum_init = \<lparr>qmutex = mutex_init, queue = myqueue_init, ppc = Create 0, cpc = (\<lambda>_. CLock),
     sums = (\<lambda>_. 0)\<rparr>"

text \<open>
  Main is thread 0. The array \<^verbatim>\<open>tid\<close> has \<open>n\<close> elements and is indexed by the consumers: creating
  consumer \<open>n\<close> writes out of bounds. \<open>w\<close> is the consumer the scheduler wakes at a signal.
\<close>

definition wake :: "consumer_pc \<Rightarrow> consumer_pc" where
  "wake p = (if p = CWait then CWoken else p)"

definition producer :: "sum_cfg \<Rightarrow> sum_state \<Rightarrow> nat \<Rightarrow> sum_state option" where
  "producer cfg s w =
     (case ppc s of
        Create i \<Rightarrow>
          if i < consumers cfg
          then if i < elements cfg then Some (s\<lparr>ppc := Create (i + 1)\<rparr>)
               else Some (s\<lparr>ppc := OutOfBounds\<rparr>)
          else Some (s\<lparr>ppc := Fill 0 FLock\<rparr>)
      | Fill i FLock \<Rightarrow>
          if i < elements cfg + consumers cfg
          then map_option (\<lambda>m. s\<lparr>qmutex := m, ppc := Fill i FPush\<rparr>) (mutex_lock (qmutex s) 0)
          else Some (s\<lparr>ppc := Broadcast\<rparr>)
      | Fill i FPush \<Rightarrow>
          Some (s\<lparr>queue := myqueue_push (queue s) (element cfg i), ppc := Fill i FSignal\<rparr>)
      | Fill i FSignal \<Rightarrow>
          if list_ex (\<lambda>k. cpc s k = CWait) [0..<consumers cfg]
          then if cpc s w = CWait then Some (s\<lparr>cpc := (cpc s)(w := CWoken), ppc := Fill i FUnlock\<rparr>) else None
          else Some (s\<lparr>ppc := Fill i FUnlock\<rparr>)
      | Fill i FUnlock \<Rightarrow>
          map_option (\<lambda>m. s\<lparr>qmutex := m, ppc := Fill (i + 1) FLock\<rparr>) (mutex_unlock (qmutex s) 0)
      | Broadcast \<Rightarrow> Some (s\<lparr>cpc := (\<lambda>k. wake (cpc s k)), ppc := Join 0 0\<rparr>)
      | Join i acc \<Rightarrow>
          if i < consumers cfg
          then if cpc s i = CDone then Some (s\<lparr>ppc := Join (i + 1) (to_int (acc + sums s i))\<rparr>) else None
          else Some (s\<lparr>ppc := Exit acc\<rparr>)
      | Exit v \<Rightarrow> None
      | OutOfBounds \<Rightarrow> None)"

definition consumer :: "sum_state \<Rightarrow> nat \<Rightarrow> sum_state option" where
  "consumer s k =
     (case cpc s k of
        CLock \<Rightarrow> map_option (\<lambda>m. s\<lparr>qmutex := m, cpc := (cpc s)(k := CTest)\<rparr>) (mutex_lock (qmutex s) (Suc k))
      | CTest \<Rightarrow>
          if myqueue_is_empty (queue s)
          then map_option (\<lambda>m. s\<lparr>qmutex := m, cpc := (cpc s)(k := CWait)\<rparr>) (mutex_unlock (qmutex s) (Suc k))
          else Some (s\<lparr>cpc := (cpc s)(k := CPop)\<rparr>)
      | CWait \<Rightarrow> None
      | CWoken \<Rightarrow> map_option (\<lambda>m. s\<lparr>qmutex := m, cpc := (cpc s)(k := CTest)\<rparr>) (mutex_lock (qmutex s) (Suc k))
      | CPop \<Rightarrow>
          (case myqueue_pop (queue s) of
             None \<Rightarrow> None
           | Some (temp, q) \<Rightarrow> Some (s\<lparr>queue := q, cpc := (cpc s)(k := CUnlock temp)\<rparr>))
      | CUnlock temp \<Rightarrow>
          map_option (\<lambda>m. s\<lparr>qmutex := m, cpc := (cpc s)(k := CCheck temp)\<rparr>) (mutex_unlock (qmutex s) (Suc k))
      | CCheck temp \<Rightarrow>
          if temp = INT_MAX then Some (s\<lparr>cpc := (cpc s)(k := CDone)\<rparr>)
          else Some (s\<lparr>sums := (sums s)(k := sums s k + temp), cpc := (cpc s)(k := CLock)\<rparr>)
      | CDone \<Rightarrow> None)"

datatype sum_event = Main nat | Consumer nat | Spurious nat

definition threads :: "sum_cfg \<Rightarrow> sum_state \<Rightarrow> nat" where
  "threads cfg s = (case ppc s of Create i \<Rightarrow> i | _ \<Rightarrow> consumers cfg)"

fun sum_next :: "sum_cfg \<Rightarrow> sum_state \<Rightarrow> sum_event \<Rightarrow> sum_state option" where
  "sum_next cfg s (Main w) = producer cfg s w"
| "sum_next cfg s (Consumer k) = (if k < threads cfg s then consumer s k else None)"
| "sum_next cfg s (Spurious k) = (if cpc s k = CWait then Some (s\<lparr>cpc := (cpc s)(k := CWoken)\<rparr>) else None)"

text \<open>The same program on a system without spurious wake-ups, the worst case for its progress.\<close>

fun sum_quiet :: "sum_cfg \<Rightarrow> sum_state \<Rightarrow> sum_event \<Rightarrow> sum_state option" where
  "sum_quiet cfg s (Spurious k) = None"
| "sum_quiet cfg s e = sum_next cfg s e"

section \<open>The invariant\<close>

text \<open>Who holds the mutex.\<close>

fun holds :: "sum_state \<Rightarrow> nat \<Rightarrow> bool" where
  "holds s 0 = (case ppc s of Fill i st \<Rightarrow> st \<noteq> FLock | _ \<Rightarrow> False)"
| "holds s (Suc k) = (case cpc s k of CTest \<Rightarrow> True | CPop \<Rightarrow> True | CUnlock v \<Rightarrow> True | _ \<Rightarrow> False)"

definition lock_inv :: "sum_state \<Rightarrow> bool" where
  "lock_inv s \<longleftrightarrow> (\<forall>t. qmutex s = Some t \<longleftrightarrow> holds s t)"

text \<open>How many elements have been pushed and popped, and where the popped ones are.\<close>

fun pushed :: "sum_cfg \<Rightarrow> producer_pc \<Rightarrow> nat" where
  "pushed cfg (Create i) = 0"
| "pushed cfg (Fill i st) = (if st = FSignal \<or> st = FUnlock then Suc i else i)"
| "pushed cfg OutOfBounds = 0"
| "pushed cfg _ = elements cfg + consumers cfg"

definition popped :: "sum_cfg \<Rightarrow> sum_state \<Rightarrow> nat" where
  "popped cfg s = pushed cfg (ppc s) - length (myqueue_values (queue s))"

fun transit :: "consumer_pc \<Rightarrow> int" where
  "transit (CUnlock v) = (if v = INT_MAX then 0 else v)"
| "transit (CCheck v) = (if v = INT_MAX then 0 else v)"
| "transit _ = 0"

fun has_pill :: "consumer_pc \<Rightarrow> bool" where
  "has_pill (CUnlock v) = (v = INT_MAX)"
| "has_pill (CCheck v) = (v = INT_MAX)"
| "has_pill CDone = True"
| "has_pill _ = False"

definition pills :: "sum_cfg \<Rightarrow> sum_state \<Rightarrow> nat set" where
  "pills cfg s = {k. k < consumers cfg \<and> has_pill (cpc s k)}"

definition queue_part :: "sum_cfg \<Rightarrow> sum_state \<Rightarrow> bool" where
  "queue_part cfg s \<longleftrightarrow> myqueue_inv (queue s)
     \<and> length (myqueue_values (queue s)) \<le> pushed cfg (ppc s)
     \<and> myqueue_values (queue s) = map (element cfg) [popped cfg s..<pushed cfg (ppc s)]"

definition flow_part :: "sum_cfg \<Rightarrow> sum_state \<Rightarrow> bool" where
  "flow_part cfg s \<longleftrightarrow>
     (\<Sum>k<consumers cfg. sums s k + transit (cpc s k)) = (\<Sum>i<min (popped cfg s) (elements cfg). number i)
     \<and> card (pills cfg s) = popped cfg s - elements cfg
     \<and> (\<forall>k. \<bar>sums s k\<bar> + \<bar>transit (cpc s k)\<bar> \<le> int (popped cfg s))"

definition consumer_part :: "sum_cfg \<Rightarrow> sum_state \<Rightarrow> bool" where
  "consumer_part cfg s \<longleftrightarrow> (\<forall>k. (threads cfg s \<le> k \<longrightarrow> cpc s k = CLock)
     \<and> (cpc s k = CPop \<longrightarrow> myqueue_values (queue s) \<noteq> []))"

fun main_part :: "sum_cfg \<Rightarrow> sum_state \<Rightarrow> producer_pc \<Rightarrow> bool" where
  "main_part cfg s (Create i) = (i \<le> consumers cfg)"
| "main_part cfg s (Fill i st) =
     (i \<le> elements cfg + consumers cfg \<and> (st \<noteq> FLock \<longrightarrow> i < elements cfg + consumers cfg))"
| "main_part cfg s Broadcast = True"
| "main_part cfg s (Join i acc) =
     (i \<le> consumers cfg \<and> (\<forall>j<i. cpc s j = CDone) \<and> (\<forall>k. cpc s k \<noteq> CWait)
      \<and> acc = to_int (\<Sum>j<i. sums s j))"
| "main_part cfg s (Exit v) =
     ((\<forall>j<consumers cfg. cpc s j = CDone) \<and> v = to_int (\<Sum>j<consumers cfg. sums s j))"
| "main_part cfg s OutOfBounds = False"

definition sum_inv :: "sum_cfg \<Rightarrow> sum_state \<Rightarrow> bool" where
  "sum_inv cfg s \<longleftrightarrow> consumers cfg \<le> elements cfg \<and> lock_inv s \<and> queue_part cfg s \<and> flow_part cfg s
     \<and> consumer_part cfg s \<and> main_part cfg s (ppc s)"

lemmas sum_parts = sum_inv_def lock_inv_def queue_part_def flow_part_def consumer_part_def

lemma sum_inv_init: "consumers cfg \<le> elements cfg \<Longrightarrow> sum_inv cfg sum_init"
  by (auto simp: sum_parts sum_init_def mutex_init_def mq.inv_emp mq.contents_emp popped_def pills_def
      threads_def gr0_conv_Suc elim!: holds.elims)

text \<open>Steps that touch neither the queue nor what the consumers have popped.\<close>

lemma quiet_parts:
  assumes "queue t = queue s" "pushed cfg (ppc t) = pushed cfg (ppc s)" "sums t = sums s"
    and "\<And>k. transit (cpc t k) = transit (cpc s k)" "\<And>k. has_pill (cpc t k) = has_pill (cpc s k)"
  shows "queue_part cfg t = queue_part cfg s" "flow_part cfg t = flow_part cfg s"
  using assms by (simp_all add: queue_part_def flow_part_def popped_def pills_def)

lemma to_int_add: "to_int (to_int a + b) = to_int (a + b)"
proof -
  have "(to_int a + b + 2147483648) mod 4294967296 = ((a + 2147483648) mod 4294967296 + b) mod 4294967296"
    by (simp add: to_int_def)
  also have "\<dots> = (a + b + 2147483648) mod 4294967296" by (simp add: mod_simps algebra_simps)
  finally show ?thesis by (simp add: to_int_def)
qed

section \<open>Preservation\<close>

lemma lock_acquire:
  "lock_inv s \<Longrightarrow> qmutex s = None \<Longrightarrow> qmutex t = Some u \<Longrightarrow> holds t u
    \<Longrightarrow> (\<And>v. v \<noteq> u \<Longrightarrow> holds t v = holds s v) \<Longrightarrow> lock_inv t"
  unfolding lock_inv_def by (metis option.distinct(1) option.inject)

lemma lock_release:
  "lock_inv s \<Longrightarrow> qmutex s = Some u \<Longrightarrow> qmutex t = None \<Longrightarrow> \<not> holds t u
    \<Longrightarrow> (\<And>v. v \<noteq> u \<Longrightarrow> holds t v = holds s v) \<Longrightarrow> lock_inv t"
  unfolding lock_inv_def by (metis option.distinct(1) option.inject)

lemma lock_same:
  "lock_inv s \<Longrightarrow> qmutex t = qmutex s \<Longrightarrow> (\<And>v. holds t v = holds s v) \<Longrightarrow> lock_inv t"
  by (simp add: lock_inv_def)

lemma holds_main: "cpc t = cpc s \<Longrightarrow> v \<noteq> 0 \<Longrightarrow> holds t v = holds s v"
  by (cases v) auto

lemma holds_consumer:
  "ppc t = ppc s \<Longrightarrow> cpc t = (cpc s)(k := p) \<Longrightarrow> v \<noteq> Suc k \<Longrightarrow> holds t v = holds s v"
  by (cases v) auto

text \<open>A consumer moves on without popping.\<close>

lemma quiet_consumer:
  assumes inv: "sum_inv cfg s" and k: "k < threads cfg s" and nd: "cpc s k \<noteq> CDone"
    and t: "t = s\<lparr>qmutex := m, cpc := (cpc s)(k := p)\<rparr>"
    and same: "transit p = transit (cpc s k)" "has_pill p = has_pill (cpc s k)"
    and pop: "p = CPop \<longrightarrow> myqueue_values (queue s) \<noteq> []"
    and wait: "p = CWait \<longrightarrow> (\<forall>i acc. ppc s \<noteq> Join i acc)" and lock: "lock_inv t"
  shows "sum_inv cfg t"
proof -
  have "queue_part cfg t" "flow_part cfg t"
    using inv quiet_parts [of t s cfg] same by (simp_all add: sum_inv_def t)
  moreover have "consumer_part cfg t"
    using inv k pop by (auto simp: sum_inv_def consumer_part_def t threads_def)
  moreover have "main_part cfg t (ppc t)"
    using inv nd wait k by (cases "ppc s") (auto simp: sum_inv_def t threads_def)
  ultimately show ?thesis using inv lock by (simp add: sum_inv_def)
qed

text \<open>When all pills have been popped, every consumer has or had one.\<close>

lemma all_pills:
  assumes inv: "sum_inv cfg s" and "popped cfg s = elements cfg + consumers cfg" "k < consumers cfg"
  shows "has_pill (cpc s k)"
proof -
  have "card (pills cfg s) = card {..<consumers cfg}"
    using inv assms(2) by (simp add: sum_inv_def flow_part_def)
  then have "pills cfg s = {..<consumers cfg}" by (intro card_subset_eq) (auto simp: pills_def)
  with assms(3) show ?thesis by (auto simp: pills_def)
qed

lemma no_wait_after_broadcast:
  assumes inv: "sum_inv cfg s" and k: "k < threads cfg s" and pc: "cpc s k = CTest"
    and emp: "myqueue_is_empty (queue s)"
  shows "ppc s \<noteq> Join i acc"
proof
  assume join: "ppc s = Join i acc"
  then have "popped cfg s = elements cfg + consumers cfg"
    using inv emp by (simp add: popped_def sum_inv_def queue_part_def mq.is_emp_iff)
  from all_pills [OF inv this] k join pc show False by (force simp: threads_def)
qed

text \<open>A pop.\<close>

lemma pop_parts:
  assumes inv: "sum_inv cfg s" and k: "k < threads cfg s" and pc: "cpc s k = CPop"
    and pop: "myqueue_pop (queue s) = Some (temp, q)"
    and t: "t = s\<lparr>queue := q, cpc := (cpc s)(k := CUnlock temp)\<rparr>"
  shows "queue_part cfg t" "popped cfg t = Suc (popped cfg s)" "temp = element cfg (popped cfg s)"
    "popped cfg s < elements cfg + consumers cfg"
proof -
  have q: "myqueue_inv (queue s)" and len: "length (myqueue_values (queue s)) \<le> pushed cfg (ppc s)"
    and vals: "myqueue_values (queue s) = map (element cfg) [popped cfg s..<pushed cfg (ppc s)]"
    using inv by (simp_all add: sum_inv_def queue_part_def)
  have c: "myqueue_values (queue s) = temp # myqueue_values q"
    using mq.contents_pop [OF q pop] .
  then have lt: "popped cfg s < pushed cfg (ppc s)" using len by (simp add: popped_def)
  then have "[popped cfg s..<pushed cfg (ppc s)] = popped cfg s # [Suc (popped cfg s)..<pushed cfg (ppc s)]"
    by (rule upt_conv_Cons)
  with vals c have e: "temp = element cfg (popped cfg s)"
    "myqueue_values q = map (element cfg) [Suc (popped cfg s)..<pushed cfg (ppc s)]" by simp_all
  then show "temp = element cfg (popped cfg s)" by simp
  show p: "popped cfg t = Suc (popped cfg s)" using c len lt by (simp add: popped_def t)
  have "pushed cfg (ppc s) \<le> elements cfg + consumers cfg"
    using inv by (cases "ppc s") (auto simp: sum_inv_def)
  with lt show "popped cfg s < elements cfg + consumers cfg" by simp
  show "queue_part cfg t"
    using mq.inv_pop [OF q pop] e(2) c len by (simp add: queue_part_def p) (simp add: t)
qed

lemma sum_at: "k < n \<Longrightarrow> (\<Sum>j<n. f j) = f k + (\<Sum>j \<in> {..<n} - {k}. f j)" for f :: "nat \<Rightarrow> int"
  by (rule sum.remove) auto

lemma number_abs [simp]: "\<bar>number i\<bar> = 1" and number_not_pill [simp]: "number i \<noteq> INT_MAX"
  by (simp_all add: number_def INT_MAX_def)

lemma flow_pop:
  assumes inv: "sum_inv cfg s" and k: "k < threads cfg s" and pc: "cpc s k = CPop"
    and pop: "myqueue_pop (queue s) = Some (temp, q)"
    and t: "t = s\<lparr>queue := q, cpc := (cpc s)(k := CUnlock temp)\<rparr>"
  shows "flow_part cfg t"
proof -
  note pp = pop_parts [OF assms]
  let ?p = "popped cfg s"
  have K: "k < consumers cfg"
    using inv k by (cases "ppc s") (auto simp: sum_inv_def threads_def)
  have fl: "(\<Sum>k<consumers cfg. sums s k + transit (cpc s k)) = (\<Sum>i<min ?p (elements cfg). number i)"
    "card (pills cfg s) = ?p - elements cfg" "\<And>j. \<bar>sums s j\<bar> + \<bar>transit (cpc s j)\<bar> \<le> int ?p"
    using inv by (simp_all add: sum_inv_def flow_part_def)
  have rest: "(\<Sum>j \<in> {..<consumers cfg} - {k}. sums t j + transit (cpc t j))
      = (\<Sum>j \<in> {..<consumers cfg} - {k}. sums s j + transit (cpc s j))"
    by (rule sum.cong) (auto simp: t)
  have tr: "transit (CUnlock temp) = (if ?p < elements cfg then number ?p else 0)"
    by (simp add: pp(3) element_def)
  have "(\<Sum>k<consumers cfg. sums t k + transit (cpc t k))
      = (\<Sum>k<consumers cfg. sums s k + transit (cpc s k)) + transit (CUnlock temp)"
    using K rest pc by (simp add: sum_at [OF K] t)
  also have "\<dots> = (\<Sum>i<min (Suc ?p) (elements cfg). number i)"
    unfolding fl(1) tr by (simp add: min_def less_Suc_eq)
  finally have 1: "(\<Sum>k<consumers cfg. sums t k + transit (cpc t k))
      = (\<Sum>i<min (popped cfg t) (elements cfg). number i)" by (simp add: pp(2))
  have "pills cfg t = (if ?p < elements cfg then pills cfg s else insert k (pills cfg s))"
    "k \<notin> pills cfg s" "finite (pills cfg s)"
    using pc K pp(3) by (auto simp: pills_def t element_def split: if_splits)
  then have 2: "card (pills cfg t) = popped cfg t - elements cfg"
    using fl(2) pp(2) by auto
  have "\<bar>sums t j\<bar> + \<bar>transit (cpc t j)\<bar> \<le> int (popped cfg t)" for j
  proof (cases "j = k")
    case True
    have "\<bar>transit (CUnlock temp)\<bar> \<le> 1" unfolding tr by simp
    with fl(3) [of k] True pc show ?thesis unfolding pp(2) by (simp add: t)
  next
    case False
    with fl(3) [of j] show ?thesis unfolding pp(2) by (simp add: t)
  qed
  with 1 2 show ?thesis by (simp add: flow_part_def)
qed

lemma pop_preserves:
  assumes inv: "sum_inv cfg s" and k: "k < threads cfg s" and pc: "cpc s k = CPop"
    and pop: "myqueue_pop (queue s) = Some (temp, q)"
    and t: "t = s\<lparr>queue := q, cpc := (cpc s)(k := CUnlock temp)\<rparr>"
  shows "sum_inv cfg t"
proof -
  have "holds t v = holds s v" for v
    using holds_consumer [of t s k "CUnlock temp" v] pc by (cases "v = Suc k") (auto simp: t)
  then have "lock_inv t" using inv by (auto simp: sum_inv_def t intro: lock_same)
  moreover have "consumer_part cfg t"
  proof -
    have "cpc s j \<noteq> CPop" if "j \<noteq> k" for j
    proof
      assume "cpc s j = CPop"
      then have "holds s (Suc j)" "holds s (Suc k)" using pc by simp_all
      then show False using inv that unfolding sum_inv_def lock_inv_def by (metis Suc_inject option.inject)
    qed
    then show ?thesis using inv k by (auto simp: sum_inv_def consumer_part_def t threads_def)
  qed
  moreover have "main_part cfg t (ppc t)"
    using inv pc k by (cases "ppc s") (auto simp: sum_inv_def t threads_def)
  ultimately show ?thesis
    using inv flow_pop [OF assms] pop_parts(1) [OF assms] by (simp add: sum_inv_def)
qed

text \<open>A consumer adds a popped number to its sum.\<close>

lemma add_preserves:
  assumes inv: "sum_inv cfg s" and k: "k < threads cfg s" and pc: "cpc s k = CCheck temp"
    and temp: "temp \<noteq> INT_MAX"
    and t: "t = s\<lparr>sums := (sums s)(k := sums s k + temp), cpc := (cpc s)(k := CLock)\<rparr>"
  shows "sum_inv cfg t"
proof -
  have "holds t v = holds s v" for v
    using holds_consumer [of t s k CLock v] pc by (cases "v = Suc k") (auto simp: t)
  then have "lock_inv t" using inv by (auto simp: sum_inv_def t intro: lock_same)
  moreover have "queue_part cfg t" using inv by (simp add: sum_inv_def queue_part_def popped_def t)
  moreover have "flow_part cfg t"
  proof -
    have sum_eq: "sums t j + transit (cpc t j) = sums s j + transit (cpc s j)" for j
      using pc temp by (simp add: t)
    have "pills cfg t = pills cfg s" "popped cfg t = popped cfg s"
      using pc temp by (auto simp: pills_def popped_def t)
    moreover have "\<bar>sums t j\<bar> + \<bar>transit (cpc t j)\<bar> \<le> \<bar>sums s j\<bar> + \<bar>transit (cpc s j)\<bar>" for j
      using pc temp by (simp add: t abs_triangle_ineq)
    moreover have "flow_part cfg s" using inv by (simp add: sum_inv_def)
    then have "\<bar>sums s j\<bar> + \<bar>transit (cpc s j)\<bar> \<le> int (popped cfg s)" for j by (simp add: flow_part_def)
    ultimately have "\<bar>sums t j\<bar> + \<bar>transit (cpc t j)\<bar> \<le> int (popped cfg s)" for j by (meson order_trans)
    with \<open>flow_part cfg s\<close> show ?thesis unfolding flow_part_def
      by (simp add: \<open>pills cfg t = pills cfg s\<close> \<open>popped cfg t = popped cfg s\<close> sum_eq)
  qed
  moreover have "consumer_part cfg t"
    using inv k by (auto simp: sum_inv_def consumer_part_def t threads_def)
  moreover have "main_part cfg t (ppc t)"
    using inv pc k by (cases "ppc s") (auto simp: sum_inv_def t threads_def intro!: sum.cong arg_cong [where f = to_int])
  ultimately show ?thesis using inv by (simp add: sum_inv_def)
qed

lemma consumer_preserves:
  assumes inv: "sum_inv cfg s" and k: "k < threads cfg s" and step: "consumer s k = Some t"
  shows "sum_inv cfg t"
proof -
  have lock: "lock_inv s" using inv by (simp add: sum_inv_def)
  note q = quiet_consumer [OF inv k]
  note hc = holds_consumer [of _ s k]
  show ?thesis
  proof (cases "cpc s k")
    case CLock
    with step have t: "t = s\<lparr>qmutex := Some (Suc k), cpc := (cpc s)(k := CTest)\<rparr>" "qmutex s = None"
      by (auto simp: consumer_def)
    have "lock_inv t" by (rule lock_acquire [OF lock t(2), of _ "Suc k"]) (auto simp: t hc)
    with CLock show ?thesis by (intro q [OF _ t(1)]) simp_all
  next
    case CTest
    show ?thesis
    proof (cases "myqueue_is_empty (queue s)")
      case True
      with step CTest have t: "t = s\<lparr>qmutex := None, cpc := (cpc s)(k := CWait)\<rparr>" "qmutex s = Some (Suc k)"
        by (auto simp: consumer_def)
      have "lock_inv t" by (rule lock_release [OF lock t(2)]) (auto simp: t hc)
      with CTest no_wait_after_broadcast [OF inv k CTest True] show ?thesis
        by (intro q [OF _ t(1)]) simp_all
    next
      case False
      with step CTest have t: "t = s\<lparr>qmutex := qmutex s, cpc := (cpc s)(k := CPop)\<rparr>"
        by (auto simp: consumer_def)
      have "holds t v = holds s v" for v using hc [of t CPop v] CTest by (cases "v = Suc k") (auto simp: t)
      then have "lock_inv t" by (intro lock_same [OF lock]) (simp_all add: t)
      with CTest False inv show ?thesis
        by (intro q [OF _ t]) (simp_all add: mq.is_emp_iff sum_inv_def queue_part_def)
    qed
  next
    case CWait
    with step show ?thesis by (simp add: consumer_def)
  next
    case CWoken
    with step have t: "t = s\<lparr>qmutex := Some (Suc k), cpc := (cpc s)(k := CTest)\<rparr>" "qmutex s = None"
      by (auto simp: consumer_def)
    have "lock_inv t" by (rule lock_acquire [OF lock t(2), of _ "Suc k"]) (auto simp: t hc)
    with CWoken show ?thesis by (intro q [OF _ t(1)]) simp_all
  next
    case CPop
    with step show ?thesis
      by (auto simp: consumer_def split: option.splits intro: pop_preserves [OF inv k CPop])
  next
    case (CUnlock temp)
    with step have t: "t = s\<lparr>qmutex := None, cpc := (cpc s)(k := CCheck temp)\<rparr>" "qmutex s = Some (Suc k)"
      by (auto simp: consumer_def)
    have "lock_inv t" by (rule lock_release [OF lock t(2)]) (auto simp: t hc)
    with CUnlock show ?thesis by (intro q [OF _ t(1)]) simp_all
  next
    case (CCheck temp)
    show ?thesis
    proof (cases "temp = INT_MAX")
      case True
      with step CCheck have t: "t = s\<lparr>qmutex := qmutex s, cpc := (cpc s)(k := CDone)\<rparr>"
        by (auto simp: consumer_def)
      have "holds t v = holds s v" for v using hc [of t CDone v] CCheck by (cases "v = Suc k") (auto simp: t)
      then have "lock_inv t" by (intro lock_same [OF lock]) (simp_all add: t)
      with CCheck True show ?thesis by (intro q [OF _ t]) simp_all
    next
      case False
      with step CCheck show ?thesis
        by (auto simp: consumer_def intro: add_preserves [OF inv k CCheck])
    qed
  next
    case CDone
    with step show ?thesis by (simp add: consumer_def)
  qed
qed

text \<open>Main moves on, perhaps waking consumers, without pushing.\<close>

lemma wake_cases: "wake p = p \<or> p = CWait \<and> wake p = CWoken"
  by (simp add: wake_def)

lemma quiet_main:
  assumes inv: "sum_inv cfg s" and t: "t = s\<lparr>qmutex := m, cpc := c, ppc := p\<rparr>"
    and woken: "\<And>j. c j = cpc s j \<or> c j = wake (cpc s j)"
    and main: "pushed cfg p = pushed cfg (ppc s)" "threads cfg s \<le> threads cfg t" "main_part cfg t p"
    and lock: "lock_inv t"
  shows "sum_inv cfg t"
proof -
  have w: "c j = cpc s j \<or> cpc s j = CWait \<and> c j = CWoken" for j
    using woken [of j] wake_cases [of "cpc s j"] by auto
  have "transit (c j) = transit (cpc s j)" "has_pill (c j) = has_pill (cpc s j)" for j
    using w [of j] by auto
  then have "queue_part cfg t" "flow_part cfg t"
    using inv main(1) quiet_parts [of t s cfg] by (simp_all add: sum_inv_def t)
  moreover have "consumer_part cfg t"
    unfolding consumer_part_def
  proof (intro allI conjI impI)
    fix k
    have old: "threads cfg s \<le> k \<longrightarrow> cpc s k = CLock" "cpc s k = CPop \<longrightarrow> myqueue_values (queue s) \<noteq> []"
      using inv by (auto simp: sum_inv_def consumer_part_def)
    show "threads cfg t \<le> k \<Longrightarrow> cpc t k = CLock" using old(1) main(2) w [of k] by (simp add: t)
    show "cpc t k = CPop \<Longrightarrow> myqueue_values (queue t) \<noteq> []" using old(2) w [of k] by (auto simp: t)
  qed
  ultimately show ?thesis using inv lock main(3) by (simp add: sum_inv_def t)
qed

lemma push_preserves:
  assumes inv: "sum_inv cfg s" and pc: "ppc s = Fill i FPush"
    and t: "t = s\<lparr>queue := myqueue_push (queue s) (element cfg i), ppc := Fill i FSignal\<rparr>"
  shows "sum_inv cfg t"
proof -
  have q: "myqueue_inv (queue s)" "length (myqueue_values (queue s)) \<le> i"
    "myqueue_values (queue s) = map (element cfg) [popped cfg s..<i]"
    using inv pc by (auto simp: sum_inv_def queue_part_def)
  note v = mq.contents_push [OF q(1), of "element cfg i"]
  have p: "popped cfg t = popped cfg s" using q(2) pc by (simp add: popped_def t v)
  moreover have "popped cfg s \<le> i" using pc by (simp add: popped_def)
  ultimately have "queue_part cfg t"
    using q mq.inv_push [OF q(1)] v by (simp add: queue_part_def) (simp add: t)
  moreover have "flow_part cfg t" using inv p by (simp add: sum_inv_def flow_part_def pills_def) (simp add: t)
  moreover have "holds t u = holds s u" for u using holds_main [of t s u] pc by (cases u) (auto simp: t)
  then have "lock_inv t" using inv by (auto simp: sum_inv_def t intro: lock_same)
  moreover have "consumer_part cfg t"
    using inv pc v by (auto simp: sum_inv_def consumer_part_def threads_def t)
  ultimately show ?thesis using inv pc by (simp add: sum_inv_def t)
qed

lemma producer_preserves:
  assumes inv: "sum_inv cfg s" and step: "producer cfg s w = Some t"
  shows "sum_inv cfg t"
proof -
  have lock: "lock_inv s" and main: "main_part cfg s (ppc s)" and cn: "consumers cfg \<le> elements cfg"
    using inv by (simp_all add: sum_inv_def)
  have hm: "t = s\<lparr>qmutex := m, cpc := c, ppc := p\<rparr> \<Longrightarrow> c = cpc s \<Longrightarrow> v \<noteq> 0 \<Longrightarrow> holds t v = holds s v" for m c p v
    using holds_main [of t s v] by simp
  show ?thesis
  proof (cases "ppc s")
    case (Create i)
    with step main cn have t: "t = s\<lparr>qmutex := qmutex s, cpc := cpc s,
        ppc := (if i < consumers cfg then Create (i + 1) else Fill 0 FLock)\<rparr>"
      by (auto simp: producer_def split: if_splits)
    have "holds t v = holds s v" for v using hm [OF t refl, of v] Create by (cases v) (auto simp: t)
    then have "lock_inv t" by (intro lock_same [OF lock]) (simp_all add: t)
    with Create main show ?thesis by (intro quiet_main [OF inv t]) (auto simp: threads_def t)
  next
    case (Fill i st)
    show ?thesis
    proof (cases st)
      case FLock
      show ?thesis
      proof (cases "i < elements cfg + consumers cfg")
        case True
        with step Fill FLock have t: "t = s\<lparr>qmutex := Some 0, cpc := cpc s, ppc := Fill i FPush\<rparr>" "qmutex s = None"
          by (auto simp: producer_def)
        have "lock_inv t" by (rule lock_acquire [OF lock t(2), of _ 0]) (simp_all add: hm [OF t(1) refl], simp_all add: t(1))
        with Fill FLock True show ?thesis by (intro quiet_main [OF inv t(1)]) (auto simp: threads_def t)
      next
        case False
        with step Fill FLock have t: "t = s\<lparr>qmutex := qmutex s, cpc := cpc s, ppc := Broadcast\<rparr>"
          by (auto simp: producer_def)
        have "holds t v = holds s v" for v using hm [OF t refl, of v] Fill FLock by (cases v) (auto simp: t)
        then have "lock_inv t" by (intro lock_same [OF lock]) (simp_all add: t)
        with Fill FLock False main show ?thesis by (intro quiet_main [OF inv t]) (auto simp: threads_def t)
      qed
    next
      case FPush
      with step Fill show ?thesis by (auto simp: producer_def intro: push_preserves [OF inv])
    next
      case FSignal
      with step Fill have "t = s\<lparr>qmutex := qmutex s, cpc := cpc s, ppc := Fill i FUnlock\<rparr>
          \<or> cpc s w = CWait \<and> t = s\<lparr>qmutex := qmutex s, cpc := (cpc s)(w := CWoken), ppc := Fill i FUnlock\<rparr>"
        by (auto simp: producer_def split: if_splits)
      then obtain c where t: "t = s\<lparr>qmutex := qmutex s, cpc := c, ppc := Fill i FUnlock\<rparr>"
        and c: "c = cpc s \<or> cpc s w = CWait \<and> c = (cpc s)(w := CWoken)" by blast
      have "holds t v = holds s v" for v using c Fill FSignal by (cases v) (auto simp: t split: if_splits)
      then have "lock_inv t" by (intro lock_same [OF lock]) (simp_all add: t)
      with Fill FSignal c main show ?thesis
        by (intro quiet_main [OF inv t]) (auto simp: threads_def t wake_def)
    next
      case FUnlock
      with step Fill have t: "t = s\<lparr>qmutex := None, cpc := cpc s, ppc := Fill (i + 1) FLock\<rparr>" "qmutex s = Some 0"
        by (auto simp: producer_def)
      have "lock_inv t" by (rule lock_release [OF lock t(2)]) (simp_all add: hm [OF t(1) refl], simp_all add: t(1))
      with Fill FUnlock main show ?thesis by (intro quiet_main [OF inv t(1)]) (auto simp: threads_def t)
    qed
  next
    case Broadcast
    with step have t: "t = s\<lparr>qmutex := qmutex s, cpc := (\<lambda>k. wake (cpc s k)), ppc := Join 0 0\<rparr>"
      by (simp add: producer_def)
    have "holds t v = holds s v" for v
      using Broadcast by (cases v) (auto simp: t wake_def)
    then have "lock_inv t" by (intro lock_same [OF lock]) (simp_all add: t)
    with Broadcast show ?thesis
      by (intro quiet_main [OF inv t]) (auto simp: threads_def t wake_def to_int_def)
  next
    case (Join i acc)
    with step have t: "t = s\<lparr>qmutex := qmutex s, cpc := cpc s,
        ppc := (if i < consumers cfg then Join (i + 1) (to_int (acc + sums s i)) else Exit acc)\<rparr>"
      and d: "i < consumers cfg \<longrightarrow> cpc s i = CDone"
      by (auto simp: producer_def split: if_splits)
    have "holds t v = holds s v" for v using hm [OF t refl, of v] Join by (cases v) (auto simp: t)
    then have "lock_inv t" by (intro lock_same [OF lock]) (simp_all add: t)
    moreover have "main_part cfg t (ppc t)"
      using Join main d by (auto simp: t less_Suc_eq to_int_add)
    ultimately show ?thesis using Join by (intro quiet_main [OF inv t]) (auto simp: threads_def t)
  qed (use step in \<open>simp_all add: producer_def\<close>)
qed

lemma spurious_preserves:
  assumes inv: "sum_inv cfg s" and pc: "cpc s k = CWait" and t: "t = s\<lparr>cpc := (cpc s)(k := CWoken)\<rparr>"
  shows "sum_inv cfg t"
proof -
  have "holds t v = holds s v" for v
    using holds_consumer [of t s k CWoken v] pc by (cases "v = Suc k") (auto simp: t)
  then have "lock_inv t" using inv by (auto simp: sum_inv_def t intro: lock_same)
  moreover have "threads cfg s \<le> k \<longrightarrow> cpc s k = CLock" using inv by (simp add: sum_inv_def consumer_part_def)
  then have "k < threads cfg s" using pc by (cases "threads cfg s \<le> k") simp_all
  ultimately show ?thesis
    using quiet_consumer [OF inv, where m = "qmutex s" and p = CWoken and t = t and k = k] pc by (simp add: t)
qed

lemma sum_next_preserves: "sum_inv cfg s \<Longrightarrow> sum_next cfg s e = Some t \<Longrightarrow> sum_inv cfg t"
  by (cases e) (auto intro: producer_preserves consumer_preserves spurious_preserves split: if_splits)

interpretation sumq: machine_inv "sum_next cfg" "\<lambda>s. consumers cfg \<le> elements cfg \<and> s = sum_init" "sum_inv cfg"
  for cfg
  by unfold_locales (auto intro: sum_inv_init sum_next_preserves)

section \<open>Progress and termination without spurious wake-ups\<close>

fun crank :: "consumer_pc \<Rightarrow> nat" where
  "crank CLock = 2"
| "crank CTest = 1"
| "crank CWait = 0"
| "crank CWoken = 2"
| "crank CPop = 0"
| "crank (CUnlock v) = 4"
| "crank (CCheck v) = 3"
| "crank CDone = 0"

fun srank :: "fill_stage \<Rightarrow> nat" where
  "srank FLock = 14"
| "srank FPush = 13"
| "srank FSignal = 7"
| "srank FUnlock = 1"

fun prank :: "sum_cfg \<Rightarrow> producer_pc \<Rightarrow> nat" where
  "prank cfg (Create i) = (consumers cfg - i) + 3 * consumers cfg + 20 * (elements cfg + consumers cfg) + 17"
| "prank cfg (Fill i st) = 3 * consumers cfg + 20 * (elements cfg + consumers cfg - i) + srank st + 2"
| "prank cfg Broadcast = 3 * consumers cfg + 2"
| "prank cfg (Join i acc) = consumers cfg - i + 1"
| "prank cfg (Exit v) = 0"
| "prank cfg OutOfBounds = 0"

definition cranks :: "sum_cfg \<Rightarrow> (nat \<Rightarrow> consumer_pc) \<Rightarrow> nat" where
  "cranks cfg f = (\<Sum>k<consumers cfg. crank (f k))"

definition sum_measure :: "sum_cfg \<Rightarrow> sum_state \<Rightarrow> nat" where
  "sum_measure cfg s = prank cfg (ppc s) + 5 * length (myqueue_values (queue s)) + cranks cfg (cpc s)"

lemma cranks_upd: "k < consumers cfg \<Longrightarrow> cranks cfg (f(k := p)) + crank (f k) = cranks cfg f + crank p"
  unfolding cranks_def by (rule sum_upd)

lemma cranks_wake: "cranks cfg (\<lambda>k. wake (f k)) \<le> cranks cfg f + 2 * consumers cfg"
proof -
  have "cranks cfg (\<lambda>k. wake (f k)) \<le> (\<Sum>k<consumers cfg. crank (f k) + 2)"
    unfolding cranks_def by (rule sum_mono) (auto simp: wake_def)
  also have "\<dots> = cranks cfg f + 2 * consumers cfg" by (simp only: cranks_def sum.distrib) simp
  finally show ?thesis .
qed

lemma threads_le: "sum_inv cfg s \<Longrightarrow> threads cfg s \<le> consumers cfg"
  by (cases "ppc s") (auto simp: sum_inv_def threads_def)

lemma consumer_measure:
  assumes inv: "sum_inv cfg s" and k: "k < threads cfg s" and step: "consumer s k = Some t"
  shows "sum_measure cfg t < sum_measure cfg s"
proof -
  have K: "k < consumers cfg" using threads_le [OF inv] k by simp
  show ?thesis
  proof (cases "cpc s k = CPop")
    case True
    with step obtain temp q where q: "myqueue_pop (queue s) = Some (temp, q)"
      and t: "t = s\<lparr>queue := q, cpc := (cpc s)(k := CUnlock temp)\<rparr>"
      by (auto simp: consumer_def split: option.splits)
    have "myqueue_inv (queue s)" using inv by (simp add: sum_inv_def queue_part_def)
    from mq.contents_pop [OF this q] have "myqueue_values (queue s) = temp # myqueue_values q" .
    with cranks_upd [OF K, of "cpc s" "CUnlock temp"] True show ?thesis
      by (simp add: sum_measure_def t)
  next
    case False
    with step obtain p where "cpc t = (cpc s)(k := p)" "crank p < crank (cpc s k)"
      "ppc t = ppc s" "queue t = queue s"
      by (auto simp: consumer_def split: consumer_pc.splits if_splits)
    with cranks_upd [OF K, of "cpc s" p] show ?thesis by (simp add: sum_measure_def)
  qed
qed

lemma producer_measure:
  assumes inv: "sum_inv cfg s" and step: "producer cfg s w = Some t"
  shows "sum_measure cfg t < sum_measure cfg s"
proof -
  have main: "main_part cfg s (ppc s)" using inv by (simp add: sum_inv_def)
  consider i where "ppc s = Fill i FSignal" "cpc s w = CWait"
    "t = s\<lparr>cpc := (cpc s)(w := CWoken), ppc := Fill i FUnlock\<rparr>"
    | "ppc s = Broadcast"
    | i where "ppc s = Fill i FPush"
    | "cpc t = cpc s" "queue t = queue s" "prank cfg (ppc t) < prank cfg (ppc s)"
    using step main by (auto simp: producer_def split: producer_pc.splits fill_stage.splits if_splits)
  then show ?thesis
  proof cases
    case 1
    have "threads cfg s \<le> w \<longrightarrow> cpc s w = CLock" using inv by (simp add: sum_inv_def consumer_part_def)
    then have "w < consumers cfg" using 1 threads_le [OF inv] by (cases "threads cfg s \<le> w") simp_all
    from cranks_upd [OF this, of "cpc s" CWoken] 1 show ?thesis by (simp add: sum_measure_def)
  next
    case 2
    with step have "t = s\<lparr>cpc := (\<lambda>k. wake (cpc s k)), ppc := Join 0 0\<rparr>" by (simp add: producer_def)
    with 2 cranks_wake [of cfg "cpc s"] show ?thesis by (simp add: sum_measure_def)
  next
    case 3
    with step have "t = s\<lparr>queue := myqueue_push (queue s) (element cfg i), ppc := Fill i FSignal\<rparr>"
      by (simp add: producer_def)
    with 3 inv show ?thesis by (simp add: sum_measure_def sum_inv_def queue_part_def mq.contents_push)
  next
    case 4
    then show ?thesis by (simp add: sum_measure_def)
  qed
qed

lemma mutex_holder_moves:
  assumes inv: "sum_inv cfg s" and m: "qmutex s = Some t"
  shows "\<exists>e u. sum_quiet cfg s e = Some u"
proof (cases t)
  case 0
  then have h: "holds s 0" using inv m unfolding sum_inv_def lock_inv_def by blast
  then obtain i st where f: "ppc s = Fill i st" "st \<noteq> FLock" by (auto split: producer_pc.splits)
  show ?thesis
  proof (cases "st = FSignal \<and> list_ex (\<lambda>k. cpc s k = CWait) [0..<consumers cfg]")
    case True
    then obtain w where "cpc s w = CWait" by (auto simp: list_ex_iff)
    with f True have "\<exists>u. sum_quiet cfg s (Main w) = Some u" by (simp add: producer_def)
    then show ?thesis by blast
  next
    case False
    with f m 0 have "\<exists>u. sum_quiet cfg s (Main 0) = Some u"
      by (cases st) (auto simp: producer_def)
    then show ?thesis by blast
  qed
next
  case (Suc k)
  then have h: "holds s (Suc k)" using inv m unfolding sum_inv_def lock_inv_def by blast
  have c: "(threads cfg s \<le> k \<longrightarrow> cpc s k = CLock) \<and> (cpc s k = CPop \<longrightarrow> myqueue_values (queue s) \<noteq> [])"
    using inv by (simp add: sum_inv_def consumer_part_def)
  have q: "myqueue_inv (queue s)" using inv by (simp add: sum_inv_def queue_part_def)
  have k: "k < threads cfg s" using h c by (cases "threads cfg s \<le> k") simp_all
  have pop: "\<exists>temp q. myqueue_pop (queue s) = Some (temp, q)" if "cpc s k = CPop"
    using mq.pop_defined [OF q] mq.is_emp_iff [OF q] c that by simp
  have "\<exists>u. consumer s k = Some u"
    using h pop m Suc by (cases "cpc s k") (auto simp: consumer_def)
  with k have "\<exists>u. sum_quiet cfg s (Consumer k) = Some u" by simp
  then show ?thesis by blast
qed

lemma sum_progress:
  assumes inv: "sum_inv cfg s" and ne: "\<not> (\<exists>v. ppc s = Exit v)"
  shows "\<exists>e u. sum_quiet cfg s e = Some u"
proof (cases "qmutex s")
  case (Some t)
  then show ?thesis by (rule mutex_holder_moves [OF inv])
next
  case None
  have no: "\<not> holds s v" for v using inv None by (simp add: sum_inv_def lock_inv_def)
  have main: "main_part cfg s (ppc s)" using inv by (simp add: sum_inv_def)
  show ?thesis
  proof (cases "\<exists>i acc. ppc s = Join i acc \<and> i < consumers cfg \<and> cpc s i \<noteq> CDone")
    case True
    then obtain i acc where j: "ppc s = Join i acc" "i < consumers cfg" "cpc s i \<noteq> CDone" by blast
    with main have "cpc s i \<noteq> CWait" by simp
    with j no [of "Suc i"] None have "\<exists>u. consumer s i = Some u"
      by (cases "cpc s i") (auto simp: consumer_def)
    with j have "\<exists>u. sum_quiet cfg s (Consumer i) = Some u" by (simp add: threads_def)
    then show ?thesis by blast
  next
    case False
    have "\<exists>u. producer cfg s 0 = Some u"
    proof (cases "ppc s")
      case (Fill i st)
      with no [of 0] have "st = FLock" by simp
      with Fill None show ?thesis by (simp add: producer_def)
    qed (use ne False main in \<open>auto simp: producer_def\<close>)
    then have "\<exists>u. sum_quiet cfg s (Main 0) = Some u" by simp
    then show ?thesis by blast
  qed
qed

lemma sum_quiet_next: "sum_quiet cfg s e = Some t \<Longrightarrow> sum_next cfg s e = Some t"
  by (cases e) auto

interpretation sumq_quiet: machine_live "sum_quiet cfg" "sum_inv cfg" "sum_inv cfg" "sum_measure cfg"
  "\<lambda>s. \<exists>v. ppc s = Exit v"
  for cfg
proof
  fix s e t assume inv: "sum_inv cfg s" and step: "sum_quiet cfg s e = Some t"
  show "sum_inv cfg t" by (rule sum_next_preserves [OF inv sum_quiet_next [OF step]])
  show "sum_measure cfg t < sum_measure cfg s"
    using step by (cases e) (auto intro: consumer_measure [OF inv] producer_measure [OF inv] split: if_splits)
qed (assumption | rule sum_progress)+

section \<open>Properties\<close>

lemma number_sum: "(\<Sum>i<n. number i) = int (n mod 2)"
proof (induction n)
  case (Suc n)
  then show ?case by (cases "n mod 2 = 0") (simp_all add: number_def mod_Suc)
qed simp

text \<open>What holds when main exits.\<close>

lemma exit_result:
  assumes "0 < consumers cfg" "sum_inv cfg s" "ppc s = Exit v"
  shows "v = int (elements cfg mod 2) \<and> (\<Sum>k<consumers cfg. sums s k) = int (elements cfg mod 2)
    \<and> (\<forall>k. k < consumers cfg \<longrightarrow> cpc s k = CDone \<and> \<bar>sums s k\<bar> \<le> int (elements cfg + consumers cfg))
    \<and> cells (queue s) = Map.empty"
proof -
  note inv = assms(2)
  then have done_all: "\<And>k. k < consumers cfg \<Longrightarrow> cpc s k = CDone"
    and v: "v = to_int (\<Sum>j<consumers cfg. sums s j)" using assms(3) by (auto simp: sum_inv_def)
  have "pills cfg s = {..<consumers cfg}" using done_all by (auto simp: pills_def)
  then have pop: "popped cfg s = elements cfg + consumers cfg"
    using inv assms(1) by (auto simp: sum_inv_def flow_part_def)
  have fl: "(\<Sum>k<consumers cfg. sums s k + transit (cpc s k)) = (\<Sum>i<min (popped cfg s) (elements cfg). number i)"
    "\<And>k. \<bar>sums s k\<bar> + \<bar>transit (cpc s k)\<bar> \<le> int (popped cfg s)"
    and q: "myqueue_inv (queue s)"
    using inv by (simp_all add: sum_inv_def flow_part_def queue_part_def)
  have "(\<Sum>k<consumers cfg. sums s k) = (\<Sum>k<consumers cfg. sums s k + transit (cpc s k))"
    by (rule sum.cong) (simp_all add: done_all)
  then have sum: "(\<Sum>k<consumers cfg. sums s k) = int (elements cfg mod 2)"
    unfolding fl(1) by (simp add: pop number_sum)
  have "in_int (int (elements cfg mod 2))"
    by (cases "even (elements cfg)") (auto simp: in_int_def INT_MIN_def INT_MAX_def even_iff_mod_2_eq_zero odd_iff_mod_2_eq_one)
  then have "v = int (elements cfg mod 2)" unfolding v sum by (rule to_int_id)
  moreover have "\<bar>sums s k\<bar> \<le> int (elements cfg + consumers cfg)" for k
    using fl(2) [of k] unfolding pop by linarith
  moreover have "myqueue_values (queue s) = []"
  proof -
    have "elements cfg + consumers cfg - length (myqueue_values (queue s)) = elements cfg + consumers cfg"
      using pop assms(3) by (simp add: popped_def)
    then have "length (myqueue_values (queue s)) = 0" using assms(1) by linarith
    then show ?thesis by simp
  qed
  then have "cells (queue s) = Map.empty" using q by (auto simp: myqueue_values_def myqueue_inv_def)
  ultimately show ?thesis using sum done_all by simp
qed

text \<open>C3: Whatever the schedule and the spurious wake-ups, main exits only after all consumers
  have ended and every element has been popped; the sum it prints is 1 for an odd number of
  elements and 0 for an even one, and the queue's memory has been released.\<close>

theorem sum_queue_result:
  assumes "0 < consumers cfg" "consumers cfg \<le> elements cfg"
    and "reach (sum_next cfg) sum_init s" "ppc s = Exit v"
  shows "v = int (elements cfg mod 2) \<and> (\<Sum>k<consumers cfg. sums s k) = int (elements cfg mod 2)
    \<and> (\<forall>k. k < consumers cfg \<longrightarrow> cpc s k = CDone \<and> \<bar>sums s k\<bar> \<le> int (elements cfg + consumers cfg))
    \<and> cells (queue s) = Map.empty"
  using assms exit_result sumq.reach_inv by blast

text \<open>C26: The program never deadlocks, even if no wait ends without a signal: from every state it
  can reach, main can get to its end.\<close>

theorem sum_queue_finishes:
  assumes "consumers cfg \<le> elements cfg" "reach (sum_next cfg) sum_init s"
  shows "(stuck (sum_quiet cfg) s \<longrightarrow> (\<exists>v. ppc s = Exit v))
    \<and> (\<exists>es t v. run (sum_quiet cfg) s es = Some t \<and> ppc t = Exit v)"
proof -
  have inv: "sum_inv cfg s" using assms sumq.reach_inv by blast
  then show ?thesis using sum_progress [OF inv] sumq_quiet.finishes [OF inv] by (force simp: stuck_def)
qed

definition sum_example :: sum_cfg where "sum_example = \<lparr>consumers = 2, elements = 3\<rparr>"

theorem sum_queue_finishes_witness:
  "\<exists>es t v. run (sum_quiet sum_example) sum_init es = Some t \<and> ppc t = Exit v"
  using sum_queue_finishes [of sum_example, OF _ reach_start] by (simp add: sum_example_def)

lemma run_quiet_next: "run (sum_quiet cfg) s es = Some t \<Longrightarrow> run (sum_next cfg) s es = Some t"
  by (induction es arbitrary: s) (auto split: option.splits dest: sum_quiet_next)

theorem sum_queue_result_witness:
  "\<exists>s. reach (sum_next sum_example) sum_init s \<and> ppc s = Exit 1"
proof -
  have inv: "sum_inv sum_example sum_init" by (rule sum_inv_init) (simp add: sum_example_def)
  obtain es s v where s: "run (sum_quiet sum_example) sum_init es = Some s" "ppc s = Exit v"
    using sumq_quiet.finishes [OF inv] by blast
  have r: "reach (sum_next sum_example) sum_init s" by (rule run_reach [OF run_quiet_next [OF s(1)]])
  have "v = 1" using sum_queue_result [OF _ _ r s(2)] by (simp add: sum_example_def)
  with r s(2) show ?thesis by blast
qed

text \<open>With more consumers than elements main writes past the end of the array \<^verbatim>\<open>tid\<close>, which
  has room for as many thread ids as there are elements, and it does so whatever the threads do
  as soon as it has created as many consumers as there are elements.\<close>

theorem sum_queue_overflow:
  assumes "elements cfg < consumers cfg"
  shows "\<exists>s. run (sum_quiet cfg) sum_init (replicate (elements cfg + 1) (Main 0)) = Some s
    \<and> ppc s = OutOfBounds"
proof -
  have "run (sum_quiet cfg) sum_init (replicate n (Main 0)) = Some (sum_init\<lparr>ppc := Create n\<rparr>)"
    if "n \<le> elements cfg" for n
    using that
  proof (induction n)
    case (Suc n)
    have "replicate (Suc n) (Main 0) = replicate n (Main 0) @ [Main 0]"
      by (simp add: replicate_append_same)
    with Suc assms show ?case by (simp add: run_append producer_def del: replicate.simps)
  qed (simp add: sum_init_def)
  from this [of "elements cfg"] show ?thesis
    using assms by (simp only: replicate_add run_append) (simp add: producer_def)
qed

theorem sum_queue_overflow_witness:
  "\<exists>s. run (sum_quiet \<lparr>consumers = 2, elements = 1\<rparr>) sum_init (replicate 2 (Main 0)) = Some s
    \<and> ppc s = OutOfBounds"
  using sum_queue_overflow [of "\<lparr>consumers = 2, elements = 1\<rparr>"] by (simp add: numeral_2_eq_2)

end
