(* ===== verification/DiceGame.thy ===== *)
theory DiceGame
  imports Pthread CString
begin

text \<open>
  \<^verbatim>\<open>exercise10/task1/task1.c\<close>: every player is a thread; in each round the remaining players
  roll, one thread determines the highest roll, and every player eliminates itself if it has
  rolled it. The only synchronisation is one barrier, passed four times per round.
\<close>

section \<open>The program\<close>

text \<open>The arguments: \<open>None\<close> is an error message and \<^verbatim>\<open>EXIT_FAILURE\<close>.\<close>

definition dice_args :: "cstring list \<Rightarrow> nat option" where
  "dice_args argv =
     (if length argv \<noteq> 2 then None
      else let num_players = to_int (strtol (argv ! 1))
           in if num_players \<le> 0 then None else Some (nat num_players))"

datatype barrier = B1 | B2 | B3 | B4

datatype dice_pc = DWhile | DRoll | DArrive barrier | DWait barrier | DMax | DCheck | DElim | DEnd

record game_state =
  n :: int
  current_max :: int
  current_max_count :: int
  rolls :: "nat \<Rightarrow> int"
  loser :: "nat \<Rightarrow> bool"
  dpc :: "nat \<Rightarrow> dice_pc"

definition dice_init :: "nat \<Rightarrow> game_state" where
  "dice_init p = \<lparr>n = int p, current_max = 0, current_max_count = 0, rolls = (\<lambda>_. 0),
     loser = (\<lambda>_. False), dpc = (\<lambda>_. DWhile)\<rparr>"

text \<open>The loop of the serial thread over all \<open>max_n\<close> rolls; between the first two barriers no
  other thread reads or writes the state, so it is one step here.\<close>

definition max_round :: "int \<times> int \<Rightarrow> int \<Rightarrow> int \<times> int" where
  "max_round mc v =
     (if v > fst mc then (v, 1) else if v = fst mc then (fst mc, snd mc + 1) else mc)"

definition max_loop :: "int list \<Rightarrow> int \<times> int" where
  "max_loop vs = foldl max_round (0, 0) vs"

text \<open>
  The barrier counts the threads that wait; the last thread to arrive releases them all, and
  \<open>w\<close>, any one of them, gets \<^verbatim>\<open>PTHREAD_BARRIER_SERIAL_THREAD\<close>.
\<close>

fun after_barrier :: "barrier \<Rightarrow> bool \<Rightarrow> dice_pc" where
  "after_barrier B1 serial = (if serial then DMax else DArrive B2)"
| "after_barrier B2 serial = DCheck"
| "after_barrier B3 serial = DArrive B4"
| "after_barrier B4 serial = DWhile"

fun waiting :: "dice_pc \<Rightarrow> bool" where
  "waiting (DWait b) = True"
| "waiting _ = False"

definition release :: "(nat \<Rightarrow> dice_pc) \<Rightarrow> nat \<Rightarrow> barrier \<Rightarrow> nat \<Rightarrow> nat \<Rightarrow> dice_pc" where
  "release pc i b w j =
     (if j = i then after_barrier b (i = w)
      else case pc j of DWait b' \<Rightarrow> after_barrier b' (j = w) | q \<Rightarrow> q)"

text \<open>
  One step of player \<open>i\<close> of \<open>p\<close>; \<open>c\<close> is the value of \<^verbatim>\<open>rand()\<close> or the serial thread, whichever the
  step needs.
\<close>

definition dice_step :: "nat \<Rightarrow> game_state \<Rightarrow> nat \<Rightarrow> nat \<Rightarrow> game_state option" where
  "dice_step p s i c =
     (case dpc s i of
        DWhile \<Rightarrow> Some (s\<lparr>dpc := (dpc s)(i := if n s > 1 then DRoll else DEnd)\<rparr>)
      | DRoll \<Rightarrow>
          if \<not> loser s i
          then Some (s\<lparr>rolls := (rolls s)(i := int c mod 6 + 1), dpc := (dpc s)(i := DArrive B1)\<rparr>)
          else Some (s\<lparr>dpc := (dpc s)(i := DArrive B1)\<rparr>)
      | DArrive b \<Rightarrow>
          if list_all (\<lambda>j. j = i \<or> waiting (dpc s j)) [0..<p]
          then if c < p then Some (s\<lparr>dpc := release (dpc s) i b c\<rparr>) else None
          else Some (s\<lparr>dpc := (dpc s)(i := DWait b)\<rparr>)
      | DWait b \<Rightarrow> None
      | DMax \<Rightarrow>
          (case max_loop (map (rolls s) [0..<p]) of
             (m, k) \<Rightarrow> Some (s\<lparr>current_max := m, current_max_count := k, dpc := (dpc s)(i := DArrive B2)\<rparr>))
      | DCheck \<Rightarrow>
          if \<not> loser s i \<and> current_max_count s \<noteq> n s \<and> rolls s i = current_max s
          then Some (s\<lparr>dpc := (dpc s)(i := DElim)\<rparr>)
          else Some (s\<lparr>dpc := (dpc s)(i := DArrive B3)\<rparr>)
      | DElim \<Rightarrow>
          Some (s\<lparr>n := n s - 1, rolls := (rolls s)(i := 0), loser := (loser s)(i := True),
                  dpc := (dpc s)(i := DArrive B3)\<rparr>)
      | DEnd \<Rightarrow> None)"

fun dice_next :: "nat \<Rightarrow> game_state \<Rightarrow> nat \<times> nat \<Rightarrow> game_state option" where
  "dice_next p s (i, c) = (if i < p then dice_step p s i c else None)"

section \<open>The highest roll\<close>

lemma max_loop_snoc: "max_loop (vs @ [v]) = max_round (max_loop vs) v"
  by (simp add: max_loop_def)

lemma max_round_fst: "fst (max_round mc v) = max v (fst mc)"
  by (auto simp: max_round_def)

lemma max_loop_max: "fst (max_loop vs) = Max (insert 0 (set vs))"
proof (induction vs rule: rev_induct)
  case (snoc v vs)
  have "Max (insert 0 (insert v (set vs))) = max v (Max (insert 0 (set vs)))"
    by (subst insert_commute, subst Max_insert; simp)
  then have "Max (insert 0 (set (vs @ [v]))) = max v (Max (insert 0 (set vs)))" by simp
  with snoc show ?case by (simp only: max_loop_snoc max_round_fst)
qed (simp add: max_loop_def)

lemma max_loop_ge: "v \<in> set vs \<Longrightarrow> v \<le> fst (max_loop vs)" "0 \<le> fst (max_loop vs)"
  by (simp_all add: max_loop_max)

lemma count_list_0: "v \<notin> set vs \<Longrightarrow> count_list vs v = 0"
  by (induction vs) auto

lemma max_loop_count: "snd (max_loop vs) = int (count_list vs (fst (max_loop vs)))"
proof (induction vs rule: rev_induct)
  case (snoc v vs)
  have "v > fst (max_loop vs) \<Longrightarrow> count_list vs v = 0"
    using max_loop_ge(1) [of v vs] by (intro count_list_0) auto
  with snoc show ?case by (auto simp: max_loop_snoc max_round_def)
qed (simp add: max_loop_def)

section \<open>The invariant\<close>

datatype phase = Rolling | Judging | Eliminating | Closing

text \<open>All threads are between the same two passages of the barrier.\<close>

fun in_phase :: "phase \<Rightarrow> dice_pc \<Rightarrow> bool" where
  "in_phase Rolling q = (q \<in> {DWhile, DRoll, DArrive B1, DWait B1, DEnd})"
| "in_phase Judging q = (q \<in> {DMax, DArrive B2, DWait B2})"
| "in_phase Eliminating q = (q \<in> {DCheck, DElim, DArrive B3, DWait B3})"
| "in_phase Closing q = (q \<in> {DArrive B4, DWait B4})"

definition players :: "nat \<Rightarrow> game_state \<Rightarrow> nat set" where
  "players p s = {i. i < p \<and> \<not> loser s i}"

definition rolled :: "nat \<Rightarrow> game_state \<Rightarrow> bool" where
  "rolled p s \<longleftrightarrow> (\<forall>i \<in> players p s. 1 \<le> rolls s i)"

definition judged :: "nat \<Rightarrow> game_state \<Rightarrow> bool" where
  "judged p s \<longleftrightarrow> max_loop (map (rolls s) [0..<p]) = (current_max s, current_max_count s)"

fun phase_inv :: "nat \<Rightarrow> game_state \<Rightarrow> phase \<Rightarrow> bool" where
  "phase_inv p s Rolling = (\<forall>i<p. (dpc s i = DEnd \<longrightarrow> n s \<le> 1)
     \<and> (dpc s i \<in> {DRoll, DArrive B1, DWait B1} \<longrightarrow> n s > 1)
     \<and> (dpc s i \<in> {DArrive B1, DWait B1} \<longrightarrow> \<not> loser s i \<longrightarrow> 1 \<le> rolls s i))"
| "phase_inv p s Judging = (n s > 1 \<and> rolled p s
     \<and> (judged p s \<and> (\<forall>i<p. dpc s i \<noteq> DMax)
        \<or> (\<exists>i<p. dpc s i = DMax \<and> (\<forall>j<p. j \<noteq> i \<longrightarrow> dpc s j \<noteq> DMax))))"
| "phase_inv p s Eliminating = (rolled p s
     \<and> (\<forall>i<p. dpc s i = DElim \<longrightarrow> \<not> loser s i \<and> rolls s i = current_max s)
     \<and> ((\<exists>i \<in> players p s. rolls s i \<noteq> current_max s)
        \<or> current_max_count s = n s \<and> (\<forall>i<p. dpc s i \<noteq> DElim)))"
| "phase_inv p s Closing = True"

definition dice_common :: "nat \<Rightarrow> game_state \<Rightarrow> bool" where
  "dice_common p s \<longleftrightarrow> n s = int (card (players p s)) \<and> n s \<ge> 1
     \<and> (\<forall>i<p. loser s i \<longrightarrow> rolls s i = 0) \<and> (\<exists>i<p. \<not> waiting (dpc s i))"

definition dice_inv :: "nat \<Rightarrow> game_state \<Rightarrow> bool" where
  "dice_inv p s \<longleftrightarrow> dice_common p s
     \<and> (\<exists>ph. (\<forall>i<p. in_phase ph (dpc s i)) \<and> phase_inv p s ph)"

lemma dice_inv_init: "0 < p \<Longrightarrow> dice_inv p (dice_init p)"
  unfolding dice_inv_def dice_common_def
  by (rule conjI, simp add: dice_init_def players_def, blast,
      rule exI [of _ Rolling], simp add: dice_init_def)

lemma finite_players [simp]: "finite (players p s)"
  by (simp add: players_def)

lemma players_cong: "loser t = loser s \<Longrightarrow> players p t = players p s"
  by (simp add: players_def)

text \<open>The highest roll is that of a remaining player, and the losers do not count.\<close>

lemma judged_count:
  assumes "judged p s" "rolled p s" "\<forall>i<p. loser s i \<longrightarrow> rolls s i = 0" "players p s \<noteq> {}"
  shows "current_max_count s = int (card {i \<in> players p s. rolls s i = current_max s})"
    "1 \<le> current_max s" "\<forall>i \<in> players p s. rolls s i \<le> current_max s"
proof -
  let ?vs = "map (rolls s) [0..<p]"
  have m: "current_max s = fst (max_loop ?vs)" "current_max_count s = snd (max_loop ?vs)"
    using assms(1) by (simp_all add: judged_def)
  show le: "\<forall>i \<in> players p s. rolls s i \<le> current_max s"
    using max_loop_ge(1) [of _ ?vs] by (auto simp: m(1) players_def)
  from assms(4) obtain i where "i \<in> players p s" by blast
  with le assms(2) show ge: "1 \<le> current_max s" by (force simp: rolled_def)
  have "count_list ?vs v = card {i. i < p \<and> rolls s i = v}" for v
  proof -
    have "count_list (map f xs) v = length (filter (\<lambda>i. f i = v) xs)" for f :: "nat \<Rightarrow> int" and xs
      by (induction xs) auto
    moreover have "length (filter (\<lambda>i. rolls s i = v) [0..<p]) = card {i. i < p \<and> rolls s i = v}"
      by (subst distinct_card [symmetric]) (auto intro: arg_cong [where f = card])
    ultimately show ?thesis by simp
  qed
  moreover have "{i. i < p \<and> rolls s i = current_max s} = {i \<in> players p s. rolls s i = current_max s}"
    using assms(3) ge by (auto simp: players_def)
  ultimately show "current_max_count s = int (card {i \<in> players p s. rolls s i = current_max s})"
    by (simp add: m max_loop_count)
qed

section \<open>Preservation\<close>

text \<open>A step inside a phase.\<close>

lemma dice_stay:
  assumes inv: "dice_inv p s" and i: "i < p" and ph: "\<forall>j<p. in_phase ph (dpc s j)"
    and t: "dpc t = (dpc s)(i := q)" "in_phase ph q" "\<not> waiting q \<or> (\<exists>j<p. j \<noteq> i \<and> \<not> waiting (dpc s j))"
    and "phase_inv p t ph" "n t = int (card (players p t))" "n t \<ge> 1" "\<forall>j<p. loser t j \<longrightarrow> rolls t j = 0"
  shows "dice_inv p t"
proof -
  have "\<exists>j<p. \<not> waiting (dpc t j)" using t(3) i by (auto simp: t(1))
  moreover have "\<forall>j<p. in_phase ph (dpc t j)" using ph t(2) by (simp add: t(1))
  ultimately show ?thesis using assms(7-10) by (auto simp: dice_inv_def dice_common_def)
qed

lemma phase_unique: "in_phase ph q \<Longrightarrow> in_phase ph' q \<Longrightarrow> ph = ph'"
  by (cases ph; cases ph') auto

lemma dice_inv_phase:
  assumes "dice_inv p s" "i < p" "in_phase ph (dpc s i)"
  shows "(\<forall>j<p. in_phase ph (dpc s j)) \<and> phase_inv p s ph"
  using assms phase_unique unfolding dice_inv_def by metis

lemma dice_local_step:
  assumes inv: "dice_inv p s" and i: "i < p" and step: "dice_step p s i c = Some t"
    and pc: "dpc s i \<in> {DWhile, DRoll, DMax, DCheck, DElim}"
  shows "dice_inv p t"
proof -
  have common: "n s = int (card (players p s))" "n s \<ge> 1" "\<forall>j<p. loser s j \<longrightarrow> rolls s j = 0"
    using inv by (simp_all add: dice_inv_def dice_common_def)
  note ph = dice_inv_phase [OF inv i]
  consider "dpc s i = DWhile" | "dpc s i = DRoll" | "dpc s i = DMax" | "dpc s i = DCheck" | "dpc s i = DElim"
    using pc by blast
  then show ?thesis
  proof cases
    case 1
    with step have t: "t = s\<lparr>dpc := (dpc s)(i := if n s > 1 then DRoll else DEnd)\<rparr>" by (simp add: dice_step_def)
    from ph [of Rolling] 1 have r: "\<forall>j<p. in_phase Rolling (dpc s j)" "phase_inv p s Rolling" by auto
    have P: "players p t = players p s" by (simp add: t players_def)
    have "phase_inv p t Rolling"
      unfolding phase_inv.simps
    proof (intro allI impI)
      fix j assume "j < p"
      with r(2) show "(dpc t j = DEnd \<longrightarrow> n t \<le> 1) \<and> (dpc t j \<in> {DRoll, DArrive B1, DWait B1} \<longrightarrow> n t > 1)
        \<and> (dpc t j \<in> {DArrive B1, DWait B1} \<longrightarrow> \<not> loser t j \<longrightarrow> 1 \<le> rolls t j)"
        by (cases "j = i") (simp_all add: t)
    qed
    with common P show ?thesis
      by (intro dice_stay [OF inv i r(1), where q = "if n s > 1 then DRoll else DEnd"])
        (simp_all add: t del: phase_inv.simps)
  next
    case 2
    define f where "f = (if loser s i then rolls s else (rolls s)(i := int c mod 6 + 1))"
    with 2 step have t: "t = s\<lparr>rolls := f, dpc := (dpc s)(i := DArrive B1)\<rparr>"
      by (auto simp: dice_step_def split: if_splits)
    from ph [of Rolling] 2 have r: "\<forall>j<p. in_phase Rolling (dpc s j)" "phase_inv p s Rolling" by auto
    have P: "players p t = players p s" by (simp add: t players_def)
    have "0 \<le> int c mod 6" by simp
    then have f: "\<not> loser s i \<longrightarrow> 1 \<le> f i" "\<And>j. j \<noteq> i \<Longrightarrow> f j = rolls s j" "loser s i \<longrightarrow> f i = rolls s i"
      by (auto simp: f_def)
    have "n s > 1" using r(2) i 2 by simp
    have "phase_inv p t Rolling"
      using r(2) f(1,2) \<open>n s > 1\<close> by (auto simp: t)
    moreover have "loser s j \<Longrightarrow> f j = rolls s j" for j using f(2) [of j] f(3) by (cases "j = i") simp_all
    then have "\<forall>j<p. loser t j \<longrightarrow> rolls t j = 0" using common(3) by (auto simp: t)
    ultimately show ?thesis
      using common P by (intro dice_stay [OF inv i r(1), where q = "DArrive B1"]) (auto simp: t)
  next
    case 3
    obtain m k where mk: "max_loop (map (rolls s) [0..<p]) = (m, k)" by (rule prod.exhaust)
    with 3 step have t: "t = s\<lparr>current_max := m, current_max_count := k, dpc := (dpc s)(i := DArrive B2)\<rparr>"
      by (simp add: dice_step_def)
    from ph [of Judging] 3 have r: "\<forall>j<p. in_phase Judging (dpc s j)" "phase_inv p s Judging" by auto
    have P: "players p t = players p s" by (simp add: t players_def)
    have "\<forall>j<p. j \<noteq> i \<longrightarrow> dpc s j \<noteq> DMax" using r(2) 3 i by (auto; metis)
    moreover have "judged p t" using mk by (simp add: judged_def t)
    moreover have "rolled p t" using r(2) P by (simp add: rolled_def t)
    ultimately have "phase_inv p t Judging" using r(2) by (auto simp: t)
    then show ?thesis
      using common P by (intro dice_stay [OF inv i r(1), where q = "DArrive B2"]) (auto simp: t)
  next
    case 4
    define q where "q = (if \<not> loser s i \<and> current_max_count s \<noteq> n s \<and> rolls s i = current_max s
      then DElim else DArrive B3)"
    with 4 step have t: "t = s\<lparr>dpc := (dpc s)(i := q)\<rparr>" by (auto simp: dice_step_def split: if_splits)
    from ph [of Eliminating] 4 have r: "\<forall>j<p. in_phase Eliminating (dpc s j)" "phase_inv p s Eliminating" by auto
    have P: "players p t = players p s" by (simp add: t players_def)
    have "phase_inv p t Eliminating"
      using r(2) P by (auto simp: t rolled_def q_def)
    moreover have "in_phase Eliminating q" "\<not> waiting q" by (auto simp: q_def)
    ultimately show ?thesis
      using common P by (intro dice_stay [OF inv i r(1), where q = q]) (simp_all add: t del: phase_inv.simps in_phase.simps)
  next
    case 5
    with step have t: "t = s\<lparr>n := n s - 1, rolls := (rolls s)(i := 0), loser := (loser s)(i := True),
        dpc := (dpc s)(i := DArrive B3)\<rparr>" by (simp add: dice_step_def)
    from ph [of Eliminating] 5 have r: "\<forall>j<p. in_phase Eliminating (dpc s j)" "phase_inv p s Eliminating" by auto
    have P: "players p t = players p s - {i}" by (auto simp: t players_def)
    have ei: "\<not> loser s i" "rolls s i = current_max s" using r(2) i 5 by auto
    then have im: "i \<in> players p s" using i by (simp add: players_def)
    from r(2) i 5 obtain j where j: "j \<in> players p s" "rolls s j \<noteq> current_max s" by auto
    then have jt: "j \<in> players p t" "j \<noteq> i" using ei P by auto
    have "card (players p s) = Suc (card (players p t))"
      unfolding P by (rule card.remove [OF finite_players im])
    moreover have "n t = n s - 1" by (simp add: t)
    ultimately have "n t = int (card (players p t))" using common(1) by linarith
    moreover have "card (players p t) > 0" using jt by (auto simp: card_gt_0_iff)
    moreover have "phase_inv p t Eliminating"
    proof -
      have "rolled p t" using r(2) P by (auto simp: rolled_def t)
      moreover have "rolls t j \<noteq> current_max t" using j jt by (simp add: t)
      moreover have "\<forall>k<p. dpc t k = DElim \<longrightarrow> \<not> loser t k \<and> rolls t k = current_max t"
        using r(2) by (simp add: t)
      ultimately show ?thesis using jt(1) by auto
    qed
    ultimately show ?thesis
      using common by (intro dice_stay [OF inv i r(1), where q = "DArrive B3"]) (auto simp: t)
  qed
qed

lemma phase_arrive: "in_phase ph (DArrive b) \<Longrightarrow> ph = (case b of B1 \<Rightarrow> Rolling | B2 \<Rightarrow> Judging | B3 \<Rightarrow> Eliminating | B4 \<Rightarrow> Closing)"
  by (cases ph; cases b) auto

lemma waiting_in_phase: "in_phase ph q \<Longrightarrow> in_phase ph (DArrive b) \<Longrightarrow> waiting q \<Longrightarrow> q = DWait b"
  by (cases ph; cases b; cases q) auto

lemma dice_arrive_wait:
  assumes inv: "dice_inv p s" and i: "i < p" and pc: "dpc s i = DArrive b"
    and other: "\<exists>j<p. j \<noteq> i \<and> \<not> waiting (dpc s j)" and t: "t = s\<lparr>dpc := (dpc s)(i := DWait b)\<rparr>"
  shows "dice_inv p t"
proof -
  have common: "n s = int (card (players p s))" "n s \<ge> 1" "\<forall>j<p. loser s j \<longrightarrow> rolls s j = 0"
    using inv by (simp_all add: dice_inv_def dice_common_def)
  obtain ph where ph: "in_phase ph (DArrive b)"
    using inv i pc unfolding dice_inv_def by metis
  from dice_inv_phase [OF inv i] ph pc
  have r: "\<forall>j<p. in_phase ph (dpc s j)" "phase_inv p s ph" by auto
  have P: "players p t = players p s" by (simp add: t players_def)
  have same: "n t = n s" "rolls t = rolls s" "loser t = loser s" "current_max t = current_max s"
    "current_max_count t = current_max_count s" by (simp_all add: t)
  have other_pc: "(dpc t j = DMax) = (dpc s j = DMax)" "(dpc t j = DElim) = (dpc s j = DElim)" for j
    using pc by (simp_all add: t)
  have "phase_inv p t ph"
  proof (cases ph)
    case Rolling
    with ph have "b = B1" by (cases b) auto
    with Rolling r(2) i pc show ?thesis by (simp add: t)
  qed (use r(2) in \<open>simp_all add: same other_pc P rolled_def judged_def\<close>)
  moreover have "in_phase ph (DWait b)" using ph by (cases ph; cases b) auto
  ultimately show ?thesis
    using common P other by (intro dice_stay [OF inv i r(1), where q = "DWait b"]) (auto simp: t)
qed

lemma dice_arrive_last:
  assumes inv: "dice_inv p s" and i: "i < p" and pc: "dpc s i = DArrive b"
    and all: "\<forall>j<p. j = i \<or> waiting (dpc s j)" and w: "w < p"
    and t: "t = s\<lparr>dpc := release (dpc s) i b w\<rparr>"
  shows "dice_inv p t"
proof -
  have common: "n s = int (card (players p s))" "n s \<ge> 1" "\<forall>j<p. loser s j \<longrightarrow> rolls s j = 0"
    using inv by (simp_all add: dice_inv_def dice_common_def)
  obtain ph where ph: "in_phase ph (DArrive b)"
    using inv i pc unfolding dice_inv_def by metis
  from dice_inv_phase [OF inv i] ph pc
  have r: "\<forall>j<p. in_phase ph (dpc s j)" "phase_inv p s ph" by auto
  have old: "j < p \<Longrightarrow> j \<noteq> i \<Longrightarrow> dpc s j = DWait b" for j
    using r(1) all ph by (auto intro: waiting_in_phase)
  then have new: "j < p \<Longrightarrow> dpc t j = after_barrier b (j = w)" for j
    by (auto simp: t release_def)
  have P: "players p t = players p s" by (simp add: t players_def)
  have nw: "\<not> waiting (after_barrier b x)" for x by (cases b) auto
  then have c: "dice_common p t" using common P i new [OF i] by (auto simp: dice_common_def t)
  have "\<exists>ph. (\<forall>j<p. in_phase ph (dpc t j)) \<and> phase_inv p t ph"
  proof (cases b)
    case B1
    with ph have "ph = Rolling" using phase_arrive by fastforce
    with r(2) pc i B1 have n1: "n s > 1" by auto
    have "1 \<le> rolls s j" if "j \<in> players p s" for j
      using that r(2) \<open>ph = Rolling\<close> pc B1 old [of j] by (cases "j = i") (auto simp: players_def)
    then have "rolled p t" by (simp add: rolled_def P) (simp add: t)
    with n1 new B1 w have "phase_inv p t Judging" by (auto simp: t)
    then show ?thesis using new B1 by (intro exI [of _ Judging]) auto
  next
    case B2
    with ph have J: "ph = Judging" using phase_arrive by fastforce
    have "dpc s j \<noteq> DMax" if "j < p" for j using old [OF that] pc by (cases "j = i") auto
    with r(2) J have jd: "judged p s" "rolled p s" by auto
    have "players p s \<noteq> {}" using common by auto
    note jc = judged_count [OF jd common(3) this]
    have "(\<exists>j \<in> players p s. rolls s j \<noteq> current_max s) \<or> current_max_count s = n s"
    proof (cases "\<exists>j \<in> players p s. rolls s j \<noteq> current_max s")
      case False
      then have "{j \<in> players p s. rolls s j = current_max s} = players p s" by auto
      with jc(1) common(1) show ?thesis by simp
    qed simp
    with jd(2) new B2 P have "phase_inv p t Eliminating" by (auto simp: t rolled_def)
    then show ?thesis using new B2 by (intro exI [of _ Eliminating]) auto
  next
    case B3
    then show ?thesis using new by (intro exI [of _ Closing]) auto
  next
    case B4
    then show ?thesis using new by (intro exI [of _ Rolling]) auto
  qed
  with c show ?thesis by (simp add: dice_inv_def)
qed

lemma dice_next_preserves: "dice_inv p s \<Longrightarrow> dice_next p s e = Some t \<Longrightarrow> dice_inv p t"
proof -
  assume inv: "dice_inv p s" and step: "dice_next p s e = Some t"
  obtain i c where e: "e = (i, c)" by (cases e)
  with step have i: "i < p" and st: "dice_step p s i c = Some t" by (auto split: if_splits)
  show "dice_inv p t"
  proof (cases "\<exists>b. dpc s i = DArrive b")
    case True
    then obtain b where b: "dpc s i = DArrive b" by blast
    show ?thesis
    proof (cases "list_all (\<lambda>j. j = i \<or> waiting (dpc s j)) [0..<p]")
      case True
      with st b have "t = s\<lparr>dpc := release (dpc s) i b c\<rparr>" "c < p" by (auto simp: dice_step_def split: if_splits)
      with True show ?thesis by (intro dice_arrive_last [OF inv i b, of c]) (auto simp: list_all_iff)
    next
      case False
      with st b have "t = s\<lparr>dpc := (dpc s)(i := DWait b)\<rparr>" by (simp add: dice_step_def)
      with False show ?thesis by (intro dice_arrive_wait [OF inv i b]) (auto simp: list_all_iff)
    qed
  next
    case False
    then have "dpc s i \<in> {DWhile, DRoll, DMax, DCheck, DElim}"
      using st by (cases "dpc s i") (auto simp: dice_step_def)
    then show ?thesis by (rule dice_local_step [OF inv i st])
  qed
qed

interpretation dice: machine_inv "dice_next p" "\<lambda>s. 0 < p \<and> s = dice_init p" "dice_inv p" for p
  by unfold_locales (auto intro: dice_inv_init dice_next_preserves)

section \<open>Properties\<close>

definition dice_over :: "nat \<Rightarrow> game_state \<Rightarrow> bool" where
  "dice_over p s \<longleftrightarrow> (\<forall>i<p. dpc s i = DEnd)"

text \<open>C9: The game never deadlocks and ends with exactly one winner: whatever the rolls and the
  schedule, at least one player is always in the game, the counter \<open>n\<close> is the number of
  remaining players, some thread can move until all have ended, and then exactly one player
  has not been eliminated.\<close>

theorem dice_one_winner:
  assumes "reach (dice_next p) (dice_init p) s" "0 < p"
  shows "n s \<ge> 1 \<and> n s = int (card {i. i < p \<and> \<not> loser s i})
    \<and> (stuck (dice_next p) s \<longleftrightarrow> dice_over p s)
    \<and> (dice_over p s \<longrightarrow> (\<exists>!i. i < p \<and> \<not> loser s i))"
proof -
  have inv: "dice_inv p s" using assms dice.reach_inv by blast
  then have common: "n s = int (card (players p s))" "n s \<ge> 1" "\<exists>i<p. \<not> waiting (dpc s i)"
    by (simp_all add: dice_inv_def dice_common_def)
  have winner: "\<exists>!i. i < p \<and> \<not> loser s i" if "dice_over p s"
  proof -
    have "dpc s 0 = DEnd" using that assms(2) by (simp add: dice_over_def)
    then have "phase_inv p s Rolling" using dice_inv_phase [OF inv assms(2), of Rolling] by simp
    with \<open>dpc s 0 = DEnd\<close> assms(2) common have "card (players p s) = 1" by auto
    then obtain i where "players p s = {i}" by (auto simp: card_1_singleton_iff)
    then show ?thesis by (intro ex1I [of _ i]) (auto simp: players_def)
  qed
  moreover have "stuck (dice_next p) s \<longleftrightarrow> dice_over p s"
  proof
    assume st: "stuck (dice_next p) s"
    have blocked: "dpc s i = DEnd \<or> (\<exists>b. dpc s i = DWait b)" if "i < p" for i
    proof -
      have no: "dice_step p s i c = None" for c
      proof -
        have "dice_next p s (i, c) = None" using st unfolding stuck_def by blast
        with that show ?thesis by simp
      qed
      show ?thesis
        using no [of 0] that by (cases "dpc s i") (auto simp: dice_step_def split: if_splits prod.splits)
    qed
    obtain i where i: "i < p" "\<not> waiting (dpc s i)" using common(3) by blast
    with blocked [OF i(1)] have e: "dpc s i = DEnd" by auto
    with dice_inv_phase [OF inv i(1), of Rolling]
    have R: "\<forall>j<p. in_phase Rolling (dpc s j)" "phase_inv p s Rolling" by auto
    with e i(1) have "n s \<le> 1" by simp
    then have "dpc s j = DEnd" if "j < p" for j
      using blocked [OF that] R that by auto
    then show "dice_over p s" by (simp add: dice_over_def)
  qed (auto simp: stuck_def dice_over_def dice_step_def)
  ultimately show ?thesis using common by (simp add: players_def)
qed

theorem dice_one_winner_witness:
  "\<exists>s. reach (dice_next 1) (dice_init 1) s \<and> dice_over 1 s \<and> \<not> loser s 0"
proof -
  obtain s where s: "run (dice_next 1) (dice_init 1) [(0, 0)] = Some s" "dice_over 1 s"
    by (simp add: dice_init_def dice_step_def dice_over_def)
  from run_reach [OF s(1)] dice_one_winner [OF run_reach [OF s(1)]] s(2) show ?thesis by auto
qed

definition rolls_6_6_1 :: "(nat \<times> nat) list" where
  "rolls_6_6_1 =
     [(0, 0), (1, 0), (2, 0), (0, 5), (1, 5), (2, 0), (0, 0), (1, 0), (2, 2), (2, 0), (0, 0), (1, 0), (2, 0)]"

text \<open>The players eliminate themselves one after the other, but compare the number of highest
  rolls with the number of players that is going down meanwhile: after the same rolls 6, 6, 1
  one schedule eliminates both players with the highest roll and another only the first of
  them, as soon as the number of players equals the number of highest rolls.\<close>

theorem dice_elimination_race:
  "(\<exists>s. run (dice_next 3) (dice_init 3) (rolls_6_6_1 @ [(0, 0), (1, 0), (0, 0), (1, 0), (2, 0)]) = Some s
      \<and> n s = 1 \<and> map (loser s) [0, 1, 2] = [True, True, False] \<and> map (dpc s) [0, 1, 2] = replicate 3 (DArrive B3))
   \<and> (\<exists>s. run (dice_next 3) (dice_init 3) (rolls_6_6_1 @ [(0, 0), (0, 0), (1, 0), (2, 0)]) = Some s
      \<and> n s = 2 \<and> map (loser s) [0, 1, 2] = [True, False, False] \<and> rolls s 1 = current_max s
      \<and> map (dpc s) [0, 1, 2] = replicate 3 (DArrive B3))"
proof
  have "(case run (dice_next 3) (dice_init 3) (rolls_6_6_1 @ [(0, 0), (1, 0), (0, 0), (1, 0), (2, 0)]) of
      None \<Rightarrow> False
    | Some s \<Rightarrow> n s = 1 \<and> map (loser s) [0, 1, 2] = [True, True, False] \<and> map (dpc s) [0, 1, 2] = replicate 3 (DArrive B3))"
    by code_simp
  then show "\<exists>s. run (dice_next 3) (dice_init 3) (rolls_6_6_1 @ [(0, 0), (1, 0), (0, 0), (1, 0), (2, 0)]) = Some s
      \<and> n s = 1 \<and> map (loser s) [0, 1, 2] = [True, True, False] \<and> map (dpc s) [0, 1, 2] = replicate 3 (DArrive B3)"
    by (auto split: option.splits)
  have "(case run (dice_next 3) (dice_init 3) (rolls_6_6_1 @ [(0, 0), (0, 0), (1, 0), (2, 0)]) of
      None \<Rightarrow> False
    | Some s \<Rightarrow> n s = 2 \<and> map (loser s) [0, 1, 2] = [True, False, False] \<and> rolls s 1 = current_max s
        \<and> map (dpc s) [0, 1, 2] = replicate 3 (DArrive B3))"
    by code_simp
  then show "\<exists>s. run (dice_next 3) (dice_init 3) (rolls_6_6_1 @ [(0, 0), (0, 0), (1, 0), (2, 0)]) = Some s
      \<and> n s = 2 \<and> map (loser s) [0, 1, 2] = [True, False, False] \<and> rolls s 1 = current_max s
      \<and> map (dpc s) [0, 1, 2] = replicate 3 (DArrive B3)"
    by (auto split: option.splits)
qed

end
