(* ===== verification/Beehive.thy ===== *)
theory Beehive
  imports MyQueue
begin

text \<open>
  \<^verbatim>\<open>exercise11/task3/beehive.c\<close> (tasks 1 and 2 differ only in what the clean-up frees): bees
  harvest a field of flowers. A queue holds the positions of known flowers; a bee that finds
  nectar reports the neighbouring flowers that still have some. Two mutexes protect the queue
  and the field, a barrier separates the rounds, and main waits for the last flower or for a
  bear that destroys the hive.
\<close>

section \<open>The field\<close>

record field_geometry =
  width :: u64
  height :: u64
  number_flowers :: u64

definition error_value :: u64 where "error_value = - 1"

definition calculate_positions :: "u64 \<Rightarrow> field_geometry \<Rightarrow> u64 list" where
  "calculate_positions pos dimensions =
     (let w = width dimensions; h = height dimensions;
          top = (if pos \<ge> w then pos - w else error_value);
          bottom = (if pos + w < w * h then pos + w else error_value);
          left = (if pos mod w > 0 then pos - 1 else error_value);
          right = (if pos mod w < w - 1 then pos + 1 else error_value)
      in [top, bottom, left, right])"

text \<open>The positions that \<^verbatim>\<open>check_nearby_flowers\<close> looks at.\<close>

definition nearby :: "u64 \<Rightarrow> field_geometry \<Rightarrow> u64 list" where
  "nearby pos dimensions = filter (\<lambda>p. p \<noteq> error_value) (calculate_positions pos dimensions)"

text \<open>The geometry main computes from its (\<open>int\<close>) arguments; an overflow of the product is
  undefined.\<close>

definition global_field :: "int \<Rightarrow> int \<Rightarrow> field_geometry option" where
  "global_field w h =
     (if in_int (w * h)
      then Some \<lparr>width = word_of_int w, height = word_of_int h, number_flowers = word_of_int (w * h)\<rparr>
      else None)"

definition cells_of :: "field_geometry \<Rightarrow> nat" where
  "cells_of g = unat (width g) * unat (height g)"

definition grid_ok :: "field_geometry \<Rightarrow> bool" where
  "grid_ok g \<longleftrightarrow> 0 < cells_of g \<and> int (cells_of g) \<le> INT_MAX \<and> number_flowers g = width g * height g"

text \<open>Two flowers are neighbours in a row or in a column.\<close>

definition adjacent :: "field_geometry \<Rightarrow> nat \<Rightarrow> nat \<Rightarrow> bool" where
  "adjacent g p q \<longleftrightarrow> q < cells_of g \<and>
     (let w = unat (width g)
      in q + w = p \<or> p + w = q \<or> q + 1 = p \<and> p mod w \<noteq> 0 \<or> p + 1 = q \<and> q mod w \<noteq> 0)"

lemma global_field_ok:
  assumes "0 < w" "0 < h" "in_int (w * h)" "global_field w h = Some g"
  shows "grid_ok g" "cells_of g = nat (w * h)"
proof -
  have le: "w \<le> INT_MAX" "h \<le> INT_MAX"
    using assms(1-3) mult_le_cancel_left1 [of w h] mult_le_cancel_right1 [of w h]
    by (auto simp: in_int_def) (smt (verit) mult_le_cancel_left1 mult_le_cancel_right1)+
  from assms(3,4) have g: "g = \<lparr>width = word_of_int w, height = word_of_int h, number_flowers = word_of_int (w * h)\<rparr>"
    by (simp add: global_field_def)
  have u: "unat (word_of_int v :: u64) = nat v" if "0 < v" "v \<le> INT_MAX" for v
    using that by (simp add: unat_eq_nat_uint uint_word_of_int INT_MAX_def)
  show c: "cells_of g = nat (w * h)"
    using u [OF assms(1) le(1)] u [OF assms(2) le(2)] assms(1,2) by (simp add: cells_of_def g nat_mult_distrib)
  show "grid_ok g"
    using assms(1-3) c by (simp add: grid_ok_def g in_int_def)
qed

lemma grid_bounds:
  assumes "grid_ok g" "unat pos < cells_of g"
  shows "0 < unat (width g)" "unat (width g) < 2 ^ 31" "unat pos < 2 ^ 31" "unat (width g * height g) = cells_of g"
proof -
  have c: "0 < cells_of g" "cells_of g < 2 ^ 31" using assms by (auto simp: grid_ok_def INT_MAX_def)
  then show "0 < unat (width g)" by (auto simp: cells_of_def)
  have "unat (width g) \<le> cells_of g" using c(1) by (simp add: cells_of_def)
  with c show "unat (width g) < 2 ^ 31" by simp
  show "unat pos < 2 ^ 31" using assms(2) c by simp
  show "unat (width g * height g) = cells_of g"
    using c(2) by (simp add: unat_word_ariths cells_of_def)
qed

lemma not_error_value: "unat p < 2 ^ 32 \<Longrightarrow> p \<noteq> error_value"
  by (auto simp: error_value_def unsigned_minus_1_eq_mask mask_eq_exp_minus_1)

lemma nearby_adjacent:
  assumes g: "grid_ok g" and pos: "unat pos < cells_of g"
  shows "unat ` set (nearby pos g) = {q. adjacent g (unat pos) q}"
proof -
  note b = grid_bounds [OF assms]
  define w p where "w = unat (width g)" and "p = unat pos"
  have plus: "unat (pos + width g) = p + w" "unat (pos + 1) = p + 1"
    using b(2,3) by (simp_all add: unat_word_ariths p_def w_def)
  have minus: "w \<le> p \<Longrightarrow> unat (pos - width g) = p - w" "0 < p \<Longrightarrow> unat (pos - 1) = p - 1"
    "unat (width g - 1) = w - 1"
    using b(1) by (simp_all add: unat_sub_if_size p_def w_def)
  have modw: "unat (pos mod width g) = p mod w" by (simp add: unat_mod p_def w_def)
  have top: "unat ` set (filter (\<lambda>x. x \<noteq> error_value) [if pos \<ge> width g then pos - width g else error_value])
      = {q. q + w = p}"
    using minus(1) b(3) by (auto simp: word_le_nat_alt not_error_value p_def [symmetric] w_def [symmetric])
  have bottom: "unat ` set (filter (\<lambda>x. x \<noteq> error_value)
        [if pos + width g < width g * height g then pos + width g else error_value])
      = {q. q < cells_of g \<and> p + w = q}"
    using plus(1) b(2-4) by (auto simp: word_less_nat_alt not_error_value p_def [symmetric] w_def [symmetric])
  have left: "unat ` set (filter (\<lambda>x. x \<noteq> error_value) [if pos mod width g > 0 then pos - 1 else error_value])
      = {q. q + 1 = p \<and> p mod w \<noteq> 0}"
    using minus(2) modw b(3) by (cases "p = 0")
      (auto simp: word_less_nat_alt not_error_value p_def [symmetric] w_def [symmetric])
  have mod_Suc_w: "p mod w < w - 1 \<longleftrightarrow> (p + 1) mod w \<noteq> 0"
    using b(1) by (auto simp: mod_Suc w_def [symmetric]) (metis Suc_pred less_SucE mod_less_divisor)
  have right: "unat ` set (filter (\<lambda>x. x \<noteq> error_value) [if pos mod width g < width g - 1 then pos + 1 else error_value])
      = {q. p + 1 = q \<and> q mod w \<noteq> 0}"
    using plus(2) modw minus(3) b(3) mod_Suc_w
    by (auto simp: word_less_nat_alt not_error_value p_def [symmetric] w_def [symmetric])
  have "(p + 1) < cells_of g" if "(p + 1) mod w \<noteq> 0"
  proof -
    have "cells_of g mod w = 0" by (simp add: cells_of_def w_def)
    with that pos show ?thesis by (metis Suc_eq_plus1 Suc_lessI p_def)
  qed
  moreover have "unat ` set (nearby pos g)
      = {q. q + w = p} \<union> {q. q < cells_of g \<and> p + w = q} \<union> {q. q + 1 = p \<and> p mod w \<noteq> 0} \<union> {q. p + 1 = q \<and> q mod w \<noteq> 0}"
    unfolding top [symmetric] bottom [symmetric] left [symmetric] right [symmetric]
    by (auto simp: nearby_def calculate_positions_def Let_def)
  ultimately show ?thesis using pos unfolding adjacent_def p_def [symmetric] w_def [symmetric] Let_def by auto
qed

text \<open>The neighbourhood connects the whole field.\<close>

lemma in_grid: "(x::nat) < w \<Longrightarrow> y < h \<Longrightarrow> y * w + x < w * h"
proof -
  assume "x < w" "y < h"
  then have "y * w + x < y * w + w" by simp
  also have "\<dots> = Suc y * w" by simp
  also have "\<dots> \<le> h * w" using \<open>y < h\<close> by (intro mult_le_mono1) simp
  finally show ?thesis by (simp add: mult.commute)
qed

lemma grid_connected:
  assumes start: "s0 < cells_of g" "s0 \<in> H"
    and closed: "\<And>p q. p \<in> H \<Longrightarrow> p < cells_of g \<Longrightarrow> adjacent g p q \<Longrightarrow> q \<in> H"
    and q: "q < cells_of g"
  shows "q \<in> H"
proof -
  define w h where "w = unat (width g)" and "h = unat (height g)"
  have cells: "cells_of g = w * h" by (simp add: cells_of_def w_def h_def)
  have w: "0 < w" using q by (cases w) (simp_all add: cells)
  have adj: "adjacent g p q" if "q < w * h" "q + w = p \<or> p + w = q \<or> q + 1 = p \<and> p mod w \<noteq> 0 \<or> p + 1 = q \<and> q mod w \<noteq> 0" for p q
    using that unfolding adjacent_def cells Let_def w_def by blast
  have div_lt: "r div w < h" "r mod w < w" "r div w * w + r mod w = r" if "r < w * h" for r
    using that w by (simp_all add: less_mult_imp_div_less mult.commute)
  define x0 y0 where "x0 = s0 mod w" and "y0 = s0 div w"
  have s0: "y0 * w + x0 \<in> H" "x0 < w" "y0 < h"
    using div_lt [of s0] start by (simp_all add: x0_def y0_def cells)
  have right: "y0 * w + (x0 + k) \<in> H" if "x0 + k < w" for k
    using that
  proof (induction k)
    case (Suc k)
    let ?q = "y0 * w + (x0 + Suc k)"
    have "?q mod w \<noteq> 0" using Suc.prems by simp
    moreover have "?q < w * h" "y0 * w + (x0 + k) < w * h" using in_grid [of "x0 + Suc k" w y0 h] in_grid [of "x0 + k" w y0 h] s0(3) Suc.prems by simp_all
    moreover have "y0 * w + (x0 + k) + 1 = ?q" by simp
    ultimately have "adjacent g (y0 * w + (x0 + k)) ?q" by (intro adj) blast+
    moreover have "y0 * w + (x0 + k) \<in> H" using Suc by simp
    ultimately show ?case using closed \<open>y0 * w + (x0 + k) < w * h\<close> cells by metis
  qed (use s0 in simp)
  have left: "y0 * w + (x0 - k) \<in> H" if "k \<le> x0" for k
    using that
  proof (induction k)
    case (Suc k)
    then have "y0 * w + (x0 - Suc k) + 1 = y0 * w + (x0 - k)" by simp
    moreover have "x0 - k < w" using s0(2) by simp
    then have "(y0 * w + (x0 - k)) mod w \<noteq> 0"
      unfolding mod_mult_self3 using Suc.prems by (simp only: mod_less)
    moreover have l: "y0 * w + (x0 - k) < w * h" "y0 * w + (x0 - Suc k) < w * h"
      using in_grid s0(2,3) Suc.prems by (meson diff_le_self le_less_trans)+
    ultimately have "adjacent g (y0 * w + (x0 - k)) (y0 * w + (x0 - Suc k))" by (intro adj) blast+
    moreover have "y0 * w + (x0 - k) \<in> H" using Suc by simp
    ultimately show ?case using closed l(1) cells by metis
  qed (use s0 in simp)
  have row: "y0 * w + x \<in> H" if "x < w" for x
    using right [of "x - x0"] left [of "x0 - x"] that by (cases "x0 \<le> x") simp_all
  have down: "(y0 + k) * w + x \<in> H" if "x < w" "y0 + k < h" for x k
    using that(2)
  proof (induction k)
    case (Suc k)
    with closed [of "(y0 + k) * w + x" "(y0 + Suc k) * w + x"] adj
      in_grid [OF that(1), of "y0 + k" h] in_grid [OF that(1), of "y0 + Suc k" h]
    show ?case unfolding cells by (simp add: algebra_simps)
  qed (use row that in simp)
  have up: "(y0 - k) * w + x \<in> H" if "x < w" "k \<le> y0" for x k
    using that(2)
  proof (induction k)
    case (Suc k)
    then have "(y0 - k) = Suc (y0 - Suc k)" by simp
    then have "(y0 - Suc k) * w + x + w = (y0 - k) * w + x" by simp
    with Suc closed [of "(y0 - k) * w + x" "(y0 - Suc k) * w + x"] adj s0(3)
      in_grid [OF that(1), of "y0 - k" h] in_grid [OF that(1), of "y0 - Suc k" h]
    show ?case unfolding cells by simp
  qed (use row that in simp)
  have "(q div w) * w + q mod w \<in> H"
    using down [of "q mod w" "q div w - y0"] up [of "q mod w" "y0 - q div w"] div_lt [of q] q
    by (cases "y0 \<le> q div w") (simp_all add: cells)
  with div_lt(3) [of q] q show ?thesis by (simp add: cells)
qed

section \<open>The program\<close>

text \<open>\<^verbatim>\<open>bear_attack\<close>, from the two random numbers it draws: whether the hive is destroyed.\<close>

definition BEAR_ATTACK_CHANCE :: nat where "BEAR_ATTACK_CHANCE = 10"
definition BEAR_SUCCESS_CHANCE :: nat where "BEAR_SUCCESS_CHANCE = 50"

definition bear_attack :: "nat \<Rightarrow> nat \<Rightarrow> bool" where
  "bear_attack r1 r2 \<longleftrightarrow> r1 mod 100 < BEAR_ATTACK_CHANCE \<and> \<not> r2 mod 100 < BEAR_SUCCESS_CHANCE"

datatype hive_barrier = Landing | Start

datatype bee_pc = BWhile | BLockQueue | BTest | BIdle | BPop | BUnlockQueue u64 | BLockField u64
  | BCollect u64 | BReport "u64 list" | BUnlockField | BArrive hive_barrier | BWait hive_barrier
  | BBear | BDestroy | BDone

datatype hive_pc = HSpawn nat | HWatch | HStop | HJoin nat | HExit

record hive_cfg =
  geometry :: field_geometry
  bees :: nat

record hive =
  hqueue :: myqueue
  nectar :: "bool list"
  collected :: u64
  queue_mutex :: pmutex
  field_mutex :: pmutex
  must_terminate :: bool
  destroyed :: bool
  bpc :: "nat \<Rightarrow> bee_pc"
  hpc :: hive_pc

definition hive_init :: "hive_cfg \<Rightarrow> hive" where
  "hive_init cfg =
     \<lparr>hqueue = myqueue_push myqueue_init (to_int (uint (height (geometry cfg) * width (geometry cfg) div 2))),
      nectar = replicate (unat (height (geometry cfg) * width (geometry cfg))) True, collected = 0,
      queue_mutex = mutex_init, field_mutex = mutex_init, must_terminate = False, destroyed = False,
      bpc = (\<lambda>_. BWhile), hpc = HSpawn 0\<rparr>"

fun after_hive_barrier :: "hive_barrier \<Rightarrow> bool \<Rightarrow> bee_pc" where
  "after_hive_barrier Landing serial = (if serial then BBear else BArrive Start)"
| "after_hive_barrier Start serial = BWhile"

fun bee_waits :: "bee_pc \<Rightarrow> bool" where
  "bee_waits (BWait b) = True"
| "bee_waits _ = False"

definition hive_release :: "(nat \<Rightarrow> bee_pc) \<Rightarrow> nat \<Rightarrow> hive_barrier \<Rightarrow> nat \<Rightarrow> nat \<Rightarrow> bee_pc" where
  "hive_release pc i b w j =
     (if j = i then after_hive_barrier b (i = w)
      else case pc j of BWait b' \<Rightarrow> after_hive_barrier b' (j = w) | q \<Rightarrow> q)"

text \<open>
  One step of bee \<open>i\<close>; \<open>r1\<close> and \<open>r2\<close> are random numbers, \<open>r1\<close> also the serial thread of a barrier.
  A position is a \<^verbatim>\<open>size_t\<close>; the queue stores it as an \<^verbatim>\<open>int\<close>. A report pushes one flower
  per step, without the queue's mutex, as in the code.
\<close>

definition bee_step :: "hive_cfg \<Rightarrow> hive \<Rightarrow> nat \<Rightarrow> nat \<Rightarrow> nat \<Rightarrow> hive option" where
  "bee_step cfg s i r1 r2 =
     (let goto = (\<lambda>s p. s\<lparr>bpc := (bpc s)(i := p)\<rparr>)
      in case bpc s i of
        BWhile \<Rightarrow> Some (goto s (if must_terminate s then BDone else BLockQueue))
      | BLockQueue \<Rightarrow> map_option (\<lambda>m. goto (s\<lparr>queue_mutex := m\<rparr>) BTest) (mutex_lock (queue_mutex s) i)
      | BTest \<Rightarrow> Some (goto s (if myqueue_is_empty (hqueue s) then BIdle else BPop))
      | BIdle \<Rightarrow> map_option (\<lambda>m. goto (s\<lparr>queue_mutex := m\<rparr>) (BArrive Landing)) (mutex_unlock (queue_mutex s) i)
      | BPop \<Rightarrow>
          (case myqueue_pop (hqueue s) of
             None \<Rightarrow> None
           | Some (v, q) \<Rightarrow> Some (goto (s\<lparr>hqueue := q\<rparr>) (BUnlockQueue (word_of_int v))))
      | BUnlockQueue pos \<Rightarrow>
          map_option (\<lambda>m. goto (s\<lparr>queue_mutex := m\<rparr>) (BLockField pos)) (mutex_unlock (queue_mutex s) i)
      | BLockField pos \<Rightarrow>
          map_option (\<lambda>m. goto (s\<lparr>field_mutex := m\<rparr>) (BCollect pos)) (mutex_lock (field_mutex s) i)
      | BCollect pos \<Rightarrow>
          if nectar s ! unat pos
          then Some (goto (s\<lparr>nectar := (nectar s)[unat pos := False], collected := collected s + 1\<rparr>)
                       (BReport (nearby pos (geometry cfg))))
          else Some (goto s BUnlockField)
      | BReport [] \<Rightarrow> Some (goto s BUnlockField)
      | BReport (p # ps) \<Rightarrow>
          if nectar s ! unat p
          then Some (goto (s\<lparr>hqueue := myqueue_push (hqueue s) (to_int (uint p))\<rparr>) (BReport ps))
          else Some (goto s (BReport ps))
      | BUnlockField \<Rightarrow>
          map_option (\<lambda>m. goto (s\<lparr>field_mutex := m\<rparr>) (BArrive Landing)) (mutex_unlock (field_mutex s) i)
      | BArrive b \<Rightarrow>
          if list_all (\<lambda>j. j = i \<or> bee_waits (bpc s j)) [0..<bees cfg]
          then if r1 < bees cfg then Some (s\<lparr>bpc := hive_release (bpc s) i b r1\<rparr>) else None
          else Some (goto s (BWait b))
      | BWait b \<Rightarrow> None
      | BBear \<Rightarrow>
          if bear_attack r1 r2 then Some (goto (s\<lparr>must_terminate := True\<rparr>) BDestroy)
          else Some (goto s (BArrive Start))
      | BDestroy \<Rightarrow> Some (goto (s\<lparr>destroyed := True\<rparr>) (BArrive Start))
      | BDone \<Rightarrow> None)"

text \<open>Main: its busy loop changes nothing, so it has no step while the loop goes on.\<close>

definition hive_main :: "hive_cfg \<Rightarrow> hive \<Rightarrow> hive option" where
  "hive_main cfg s =
     (case hpc s of
        HSpawn i \<Rightarrow> Some (s\<lparr>hpc := if i < bees cfg then HSpawn (i + 1) else HWatch\<rparr>)
      | HWatch \<Rightarrow>
          if collected s < number_flowers (geometry cfg) \<and> \<not> destroyed s then None
          else Some (s\<lparr>hpc := HStop\<rparr>)
      | HStop \<Rightarrow> Some (s\<lparr>must_terminate := True, hpc := HJoin 0\<rparr>)
      | HJoin i \<Rightarrow>
          if i < bees cfg then (if bpc s i = BDone then Some (s\<lparr>hpc := HJoin (i + 1)\<rparr>) else None)
          else Some (s\<lparr>hpc := HExit\<rparr>)
      | HExit \<Rightarrow> None)"

datatype hive_event = HMain | Bee nat nat nat

definition spawned :: "hive_cfg \<Rightarrow> hive \<Rightarrow> nat" where
  "spawned cfg s = (case hpc s of HSpawn i \<Rightarrow> i | _ \<Rightarrow> bees cfg)"

fun hive_next :: "hive_cfg \<Rightarrow> hive \<Rightarrow> hive_event \<Rightarrow> hive option" where
  "hive_next cfg s HMain = hive_main cfg s"
| "hive_next cfg s (Bee i r1 r2) = (if i < spawned cfg s then bee_step cfg s i r1 r2 else None)"

section \<open>The invariant\<close>

text \<open>The flowers a bee is on its way to, or about to report.\<close>

fun places :: "bee_pc \<Rightarrow> nat set" where
  "places (BUnlockQueue pos) = {unat pos}"
| "places (BLockField pos) = {unat pos}"
| "places (BCollect pos) = {unat pos}"
| "places (BReport ps) = unat ` set ps"
| "places _ = {}"

definition queued :: "hive \<Rightarrow> nat set" where
  "queued s = nat ` set (myqueue_values (hqueue s))"

definition known :: "hive \<Rightarrow> nat set" where
  "known s = queued s \<union> (\<Union>i. places (bpc s i))"

definition harvested :: "hive \<Rightarrow> nat set" where
  "harvested s = {p. p < length (nectar s) \<and> \<not> nectar s ! p}"

text \<open>Every flower that is known lies in the field, and so do the numbers in the queue.\<close>

definition places_ok :: "hive_cfg \<Rightarrow> hive \<Rightarrow> bool" where
  "places_ok cfg s \<longleftrightarrow> myqueue_inv (hqueue s)
     \<and> (\<forall>v \<in> set (myqueue_values (hqueue s)). 0 \<le> v \<and> nat v < cells_of (geometry cfg))
     \<and> (\<forall>i. places (bpc s i) \<subseteq> {..<cells_of (geometry cfg)})"

text \<open>The first flower and all neighbours of harvested flowers are known, unless harvested.\<close>

definition covered :: "hive_cfg \<Rightarrow> hive \<Rightarrow> bool" where
  "covered cfg s \<longleftrightarrow> cells_of (geometry cfg) div 2 \<in> harvested s \<union> known s
     \<and> (\<forall>p \<in> harvested s. \<forall>q. adjacent (geometry cfg) p q \<longrightarrow> q \<in> harvested s \<union> known s)"

definition stopped :: "hive_cfg \<Rightarrow> hive \<Rightarrow> bool" where
  "stopped cfg s \<longleftrightarrow> (hpc s = HStop \<or> (\<exists>i. hpc s = HJoin i) \<or> hpc s = HExit
     \<longrightarrow> \<not> collected s < number_flowers (geometry cfg) \<or> destroyed s)"

definition hive_inv :: "hive_cfg \<Rightarrow> hive \<Rightarrow> bool" where
  "hive_inv cfg s \<longleftrightarrow> grid_ok (geometry cfg) \<and> length (nectar s) = cells_of (geometry cfg)
     \<and> unat (collected s) = card (harvested s) \<and> places_ok cfg s \<and> covered cfg s \<and> stopped cfg s"

lemma hive_keep:
  assumes inv: "hive_inv cfg s" and same: "nectar t = nectar s" "collected t = collected s"
    and "places_ok cfg t" "known s \<subseteq> harvested s \<union> known t" "stopped cfg t"
  shows "hive_inv cfg t"
proof -
  have "harvested t = harvested s" using same by (simp add: harvested_def)
  then show ?thesis using assms by (auto simp: hive_inv_def covered_def)
qed

lemma stopped_mono:
  "stopped cfg s \<Longrightarrow> hpc t = hpc s \<Longrightarrow> collected t = collected s \<Longrightarrow> (destroyed s \<longrightarrow> destroyed t) \<Longrightarrow> stopped cfg t"
  by (auto simp: stopped_def)

text \<open>A bee moves on without leaving a flower or finding one.\<close>

lemma hive_quiet:
  assumes inv: "hive_inv cfg s"
    and same: "nectar t = nectar s" "collected t = collected s" "hqueue t = hqueue s"
    and pl: "\<And>j. places (bpc t j) = places (bpc s j)" and st: "stopped cfg t"
  shows "hive_inv cfg t"
proof (rule hive_keep [OF inv same(1,2) _ _ st])
  show "places_ok cfg t" using inv same pl by (simp add: hive_inv_def places_ok_def)
  show "known s \<subseteq> harvested s \<union> known t" by (simp add: known_def queued_def same pl)
qed

lemma places_moved:
  "bpc t = (bpc s)(i := p) \<Longrightarrow> x \<in> places (bpc s j) \<Longrightarrow> x \<in> places (bpc s i) \<or> x \<in> places (bpc t j) \<and> j \<noteq> i"
  by (cases "j = i") auto

lemma known_moved:
  assumes "bpc t = (bpc s)(i := p)" "queued s \<subseteq> queued t \<union> places p" "places (bpc s i) \<subseteq> harvested s \<union> known t"
  shows "known s \<subseteq> harvested s \<union> known t"
proof
  fix x assume "x \<in> known s"
  then consider "x \<in> queued s" | j where "x \<in> places (bpc s j)" by (auto simp: known_def)
  then show "x \<in> harvested s \<union> known t"
  proof cases
    case 1
    moreover have "places p = places (bpc t i)" using assms(1) by simp
    ultimately show ?thesis using assms(2) unfolding known_def by blast
  next
    case 2
    from places_moved [OF assms(1) 2] assms(3) show ?thesis unfolding known_def by blast
  qed
qed

lemma uint_to_int: "unat p < 2 ^ 31 \<Longrightarrow> to_int (uint p) = uint p" for p :: u64
proof -
  assume "unat p < 2 ^ 31"
  then have "int (unat p) < int (2 ^ 31)" unfolding of_nat_less_iff .
  then have "uint p < 2147483648" unfolding uint_nat by simp
  moreover have "0 \<le> uint p" by simp
  ultimately have "in_int (uint p)" unfolding in_int_def INT_MAX_def INT_MIN_def by linarith
  then show ?thesis by (rule to_int_id)
qed

lemma cells_bound: "hive_inv cfg s \<Longrightarrow> cells_of (geometry cfg) < 2 ^ 31"
  by (auto simp: hive_inv_def grid_ok_def INT_MAX_def)

text \<open>Popping a position: it moves from the queue to the bee.\<close>

lemma pop_inv:
  assumes inv: "hive_inv cfg s" and pc: "bpc s i = BPop" and pop: "myqueue_pop (hqueue s) = Some (v, q)"
    and t: "t = s\<lparr>hqueue := q, bpc := (bpc s)(i := BUnlockQueue (word_of_int v))\<rparr>"
  shows "hive_inv cfg t"
proof -
  have ok: "places_ok cfg s" "stopped cfg s" using inv by (simp_all add: hive_inv_def)
  then have q: "myqueue_inv (hqueue s)" by (simp add: places_ok_def)
  note vals = mq.contents_pop [OF q pop]
  have v: "0 \<le> v" "nat v < cells_of (geometry cfg)" using ok(1) by (simp_all add: places_ok_def vals)
  then have "nat v < 2 ^ 31" using cells_bound [OF inv] by simp
  then have u: "unat (word_of_int v :: u64) = nat v"
    using v(1) by (simp add: unat_eq_nat_uint uint_word_of_int)
  show ?thesis
  proof (rule hive_keep [OF inv])
    show "places_ok cfg t"
      using ok(1) v u mq.inv_pop [OF q pop] by (auto simp: places_ok_def vals t)
    show "known s \<subseteq> harvested s \<union> known t"
      by (rule known_moved [of t s i]) (auto simp: t queued_def vals u pc)
    show "stopped cfg t" by (rule stopped_mono [OF ok(2)]) (simp_all add: t)
  qed (simp_all add: t)
qed

text \<open>Reporting a neighbour: it moves from the bee to the queue unless it has been harvested.\<close>

lemma report_inv:
  assumes inv: "hive_inv cfg s" and pc: "bpc s i = BReport (p # ps)"
    and t: "t = s\<lparr>hqueue := (if nectar s ! unat p then myqueue_push (hqueue s) (to_int (uint p)) else hqueue s),
       bpc := (bpc s)(i := BReport ps)\<rparr>"
  shows "hive_inv cfg t"
proof -
  have ok: "places_ok cfg s" "stopped cfg s" and len: "length (nectar s) = cells_of (geometry cfg)"
    using inv by (simp_all add: hive_inv_def)
  then have q: "myqueue_inv (hqueue s)" by (simp add: places_ok_def)
  have pl: "unat ` set (p # ps) \<subseteq> {..<cells_of (geometry cfg)}"
    using ok(1) pc unfolding places_ok_def by (metis places.simps(4))
  then have p: "unat p < cells_of (geometry cfg)" by simp
  then have "unat p < 2 ^ 31" using cells_bound [OF inv] by simp
  then have up: "to_int (uint p) = uint p" "nat (uint p) = unat p" by (simp_all add: uint_to_int)
  note vals = mq.contents_push [OF q, of "to_int (uint p)"]
  show ?thesis
  proof (rule hive_keep [OF inv])
    show "places_ok cfg t"
      using ok(1) pl p up mq.inv_push [OF q] vals by (auto simp: places_ok_def t)
    show "known s \<subseteq> harvested s \<union> known t"
    proof (rule known_moved [of t s i])
      show "queued s \<subseteq> queued t \<union> places (BReport ps)" by (auto simp: queued_def t vals)
      have "unat ` set ps \<subseteq> places (bpc t i)" by (simp add: t)
      then have "unat ` set ps \<subseteq> known t" by (auto simp: known_def)
      moreover have "unat p \<in> harvested s \<union> known t"
        using p len up vals by (auto simp: harvested_def known_def queued_def t)
      ultimately show "places (bpc s i) \<subseteq> harvested s \<union> known t" using pc by auto
    qed (simp add: t)
    show "stopped cfg t" by (rule stopped_mono [OF ok(2)]) (simp_all add: t)
  qed (simp_all add: t)
qed

text \<open>Collecting: the flower is harvested and its neighbours become known.\<close>

lemma collect_inv:
  assumes inv: "hive_inv cfg s" and pc: "bpc s i = BCollect pos" and has: "nectar s ! unat pos"
    and t: "t = s\<lparr>nectar := (nectar s)[unat pos := False], collected := collected s + 1,
       bpc := (bpc s)(i := BReport (nearby pos (geometry cfg)))\<rparr>"
  shows "hive_inv cfg t"
proof -
  let ?g = "geometry cfg"
  have ok: "places_ok cfg s" "stopped cfg s" "covered cfg s" "grid_ok ?g"
    and len: "length (nectar s) = cells_of ?g" and cnt: "unat (collected s) = card (harvested s)"
    using inv by (simp_all add: hive_inv_def)
  have p: "unat pos < cells_of ?g"
    using ok(1) pc unfolding places_ok_def by (metis insert_subset lessThan_iff places.simps(3))
  have H: "harvested t = insert (unat pos) (harvested s)"
    using p len by (auto simp: harvested_def t nth_list_update)
  have new: "unat pos \<notin> harvested s" "finite (harvested s)" using has by (simp_all add: harvested_def)
  have sub: "harvested s \<subseteq> {..<cells_of ?g}" by (auto simp: harvested_def len)
  then have "card (harvested s) \<le> cells_of ?g" using card_mono [OF finite_lessThan sub] by simp
  then have small: "unat (collected s) < 2 ^ 31" using cnt cells_bound [OF inv] by simp
  then have c: "unat (collected t) = Suc (unat (collected s))" by (simp add: t unat_word_ariths)
  have near: "unat ` set (nearby pos ?g) = {q. adjacent ?g (unat pos) q}"
    by (rule nearby_adjacent [OF ok(4) p])
  have adj_lt: "adjacent ?g x q \<Longrightarrow> q < cells_of ?g" for x q by (simp add: adjacent_def)
  have "unat ` set (nearby pos ?g) \<subseteq> {..<cells_of ?g}" unfolding near by (auto dest: adj_lt)
  then have "places_ok cfg t" using ok(1) by (simp add: places_ok_def t)
  moreover have K: "known s \<subseteq> harvested t \<union> known t"
  proof
    fix x assume "x \<in> known s"
    then have "x \<in> queued s \<or> x = unat pos \<or> (\<exists>j. j \<noteq> i \<and> x \<in> places (bpc s j))"
      using pc by (auto simp: known_def) (metis places.simps(3) singletonD)
    moreover have "j \<noteq> i \<Longrightarrow> bpc t j = bpc s j" for j by (simp add: t)
    moreover have "queued t = queued s" by (simp add: queued_def t)
    ultimately show "x \<in> harvested t \<union> known t" unfolding known_def H by (metis UN_I UNIV_I UnCI insertI1)
  qed
  moreover have "{q. adjacent ?g (unat pos) q} \<subseteq> known t"
  proof -
    have "places (bpc t i) = {q. adjacent ?g (unat pos) q}" using near by (simp add: t)
    then show ?thesis unfolding known_def by blast
  qed
  then have near_known: "adjacent ?g (unat pos) q \<Longrightarrow> q \<in> harvested t \<union> known t" for q by blast
  have "covered cfg t"
  proof -
    have mono: "harvested s \<union> known s \<subseteq> harvested t \<union> known t" using K H by auto
    have "q \<in> harvested t \<union> known t" if "x \<in> harvested t" "adjacent ?g x q" for x q
    proof (cases "x = unat pos")
      case True
      with near_known that(2) show ?thesis by simp
    next
      case False
      then have "q \<in> harvested s \<union> known s" using that H ok(3) by (simp add: covered_def)
      with mono show ?thesis by (rule subsetD)
    qed
    moreover have "cells_of ?g div 2 \<in> harvested s \<union> known s" using ok(3) unfolding covered_def by (rule conjunct1)
    then have "cells_of ?g div 2 \<in> harvested t \<union> known t" by (rule subsetD [OF mono])
    ultimately show ?thesis by (simp add: covered_def)
  qed
  moreover have "stopped cfg t"
  proof -
    have "collected s \<le> collected t" using c by (simp add: word_le_nat_alt)
    then have le: "collected t < x \<Longrightarrow> collected s < x" for x by (rule order.strict_trans1)
    have same: "hpc t = hpc s" "destroyed t = destroyed s" by (simp_all add: t)
    show ?thesis using ok(2) le unfolding stopped_def same by blast
  qed
  moreover have "unat (collected t) = card (harvested t)" using c cnt H new by simp
  ultimately show ?thesis using ok(4) len by (simp add: hive_inv_def t)
qed

lemma release_places:
  assumes pc: "bpc s i = BArrive b" and t: "bpc t = hive_release (bpc s) i b w"
  shows "places (bpc t j) = places (bpc s j)"
proof -
  have "places (after_hive_barrier b' x) = {}" for b' x by (cases b') auto
  then show ?thesis using pc by (auto simp: t hive_release_def split: bee_pc.splits)
qed

lemma bee_step_inv:
  assumes inv: "hive_inv cfg s" and step: "bee_step cfg s i r1 r2 = Some t"
  shows "hive_inv cfg t"
proof -
  have st: "stopped cfg s" using inv by (simp add: hive_inv_def)
  have quiet: "hive_inv cfg t" if "nectar t = nectar s" "collected t = collected s" "hqueue t = hqueue s"
    "hpc t = hpc s" "destroyed s \<longrightarrow> destroyed t" "\<exists>p. bpc t = (bpc s)(i := p) \<and> places p = places (bpc s i)"
  proof (rule hive_quiet [OF inv that(1-3)])
    from that(6) obtain p where p: "bpc t = (bpc s)(i := p)" "places p = places (bpc s i)" by blast
    show "places (bpc t j) = places (bpc s j)" for j
      unfolding p(1) using p(2) by (cases "j = i") simp_all
    show "stopped cfg t" by (rule stopped_mono [OF st that(4,2,5)])
  qed
  show ?thesis
  proof (cases "bpc s i")
    case BPop
    with step obtain v q where "myqueue_pop (hqueue s) = Some (v, q)"
      "t = s\<lparr>hqueue := q, bpc := (bpc s)(i := BUnlockQueue (word_of_int v))\<rparr>"
      by (auto simp: bee_step_def Let_def split: option.splits)
    then show ?thesis by (rule pop_inv [OF inv BPop])
  next
    case (BCollect pos)
    show ?thesis
    proof (cases "nectar s ! unat pos")
      case True
      with step BCollect show ?thesis
        by (intro collect_inv [OF inv BCollect True]) (auto simp: bee_step_def Let_def)
    next
      case False
      with step BCollect have t: "t = s\<lparr>bpc := (bpc s)(i := BUnlockField)\<rparr>"
        by (auto simp: bee_step_def Let_def)
      have ok: "places_ok cfg s" and len: "length (nectar s) = cells_of (geometry cfg)"
        using inv by (simp_all add: hive_inv_def)
      have "unat pos < cells_of (geometry cfg)"
        using ok BCollect unfolding places_ok_def by (metis insert_subset lessThan_iff places.simps(3))
      then have "unat pos \<in> harvested s" using False len by (simp add: harvested_def)
      then have "known s \<subseteq> harvested s \<union> known t"
        by (intro known_moved [of t s i]) (auto simp: t queued_def BCollect)
      moreover have "places_ok cfg t" using ok by (simp add: places_ok_def t)
      moreover have "stopped cfg t" by (rule stopped_mono [OF st]) (simp_all add: t)
      ultimately show ?thesis by (intro hive_keep [OF inv]) (simp_all add: t)
    qed
  next
    case (BReport ps)
    show ?thesis
    proof (cases ps)
      case Nil
      with step BReport show ?thesis by (intro quiet) (auto simp: bee_step_def Let_def)
    next
      case (Cons p rest)
      with step BReport show ?thesis
        by (intro report_inv [OF inv]) (auto simp: bee_step_def Let_def)
    qed
  next
    case (BArrive b)
    show ?thesis
    proof (cases "list_all (\<lambda>j. j = i \<or> bee_waits (bpc s j)) [0..<bees cfg]")
      case True
      with step BArrive have t: "t = s\<lparr>bpc := hive_release (bpc s) i b r1\<rparr>"
        by (auto simp: bee_step_def Let_def split: if_splits)
      have "places (bpc t j) = places (bpc s j)" for j
        by (rule release_places [OF BArrive]) (simp add: t)
      moreover have "stopped cfg t" by (rule stopped_mono [OF st]) (simp_all add: t)
      ultimately show ?thesis by (intro hive_quiet [OF inv]) (simp_all add: t)
    next
      case False
      with step BArrive show ?thesis by (intro quiet) (auto simp: bee_step_def Let_def)
    qed
  qed (rule quiet; use step in \<open>auto simp: bee_step_def Let_def split: if_splits\<close>)+
qed

lemma hive_main_inv:
  assumes inv: "hive_inv cfg s" and step: "hive_main cfg s = Some t"
  shows "hive_inv cfg t"
proof (rule hive_quiet [OF inv])
  have same: "nectar t = nectar s" "collected t = collected s" "hqueue t = hqueue s" "bpc t = bpc s" "destroyed t = destroyed s"
    using step by (auto simp: hive_main_def split: hive_pc.splits if_splits)
  then show "nectar t = nectar s" "collected t = collected s" "hqueue t = hqueue s" "places (bpc t j) = places (bpc s j)" for j
    by simp_all
  have st: "stopped cfg s" using inv by (simp add: hive_inv_def)
  have "hpc t = HExit \<or> (\<exists>i. hpc t = HJoin i) \<or> hpc t = HStop
    \<longrightarrow> hpc s = HStop \<or> (\<exists>i. hpc s = HJoin i) \<or> \<not> (collected s < number_flowers (geometry cfg) \<and> \<not> destroyed s)"
    using step by (auto simp: hive_main_def split: hive_pc.splits if_splits)
  then show "stopped cfg t" using st unfolding stopped_def same by blast
qed

lemma hive_inv_init:
  assumes g: "grid_ok (geometry cfg)"
  shows "hive_inv cfg (hive_init cfg)"
proof -
  let ?g = "geometry cfg"
  have "unat (0 :: u64) < cells_of ?g" using g by (simp add: grid_ok_def)
  note b = grid_bounds [OF g this]
  have wh: "unat (height ?g * width ?g) = cells_of ?g" using b(4) by (simp add: mult.commute)
  have pos: "0 < cells_of ?g" and small: "cells_of ?g < 2 ^ 31" using g by (auto simp: grid_ok_def INT_MAX_def)
  have d: "unat (height ?g * width ?g div 2) = cells_of ?g div 2" by (simp add: unat_div wh)
  have "unat (height ?g * width ?g div 2) < 2 ^ 31" using small unfolding d by simp
  have ti: "to_int (uint (height ?g * width ?g div 2)) = int (cells_of ?g div 2)"
    using uint_to_int [OF \<open>unat (height ?g * width ?g div 2) < 2 ^ 31\<close>] by (simp only: uint_nat d)
  have vals: "myqueue_values (hqueue (hive_init cfg)) = [int (cells_of ?g div 2)]"
    by (simp add: hive_init_def mq.contents_push mq.inv_emp mq.contents_emp ti)
  have none: "harvested (hive_init cfg) = {}" by (simp add: harvested_def hive_init_def)
  have "places_ok cfg (hive_init cfg)"
    using pos vals by (simp add: places_ok_def) (simp add: hive_init_def mq.inv_push mq.inv_emp)
  moreover have "covered cfg (hive_init cfg)" by (simp add: covered_def none known_def queued_def vals)
  moreover have "stopped cfg (hive_init cfg)" by (simp add: stopped_def hive_init_def)
  ultimately show ?thesis using g none by (simp add: hive_inv_def) (simp add: hive_init_def wh)
qed

interpretation beehive: machine_inv "hive_next cfg" "\<lambda>s. grid_ok (geometry cfg) \<and> s = hive_init cfg" "hive_inv cfg"
  for cfg
proof
  show "grid_ok (geometry cfg) \<and> s = hive_init cfg \<Longrightarrow> hive_inv cfg s" for s by (auto intro: hive_inv_init)
  show "hive_inv cfg s \<Longrightarrow> hive_next cfg s e = Some t \<Longrightarrow> hive_inv cfg t" for s e t
    by (cases e) (auto intro: bee_step_inv hive_main_inv split: if_splits)
qed

section \<open>Properties\<close>

text \<open>The positions \<^verbatim>\<open>calculate_positions\<close> yields, with the error value left out, are
  exactly the neighbours of the flower inside the field, for every field whose number of
  flowers is an \<^verbatim>\<open>int\<close>: no wrap-around of the unsigned arithmetic ever escapes the checks.\<close>

theorem nearby_correct:
  assumes "grid_ok g" "unat pos < cells_of g"
  shows "unat ` set (nearby pos g) = {q. adjacent g (unat pos) q}"
  using assms by (rule nearby_adjacent)

definition field_3_3 :: field_geometry where
  "field_3_3 = \<lparr>width = 3, height = 3, number_flowers = 9\<rparr>"

theorem nearby_correct_witness: "{q. adjacent field_3_3 4 q} = {1, 7, 3, 5}"
proof -
  have "grid_ok field_3_3" "unat (4 :: u64) < cells_of field_3_3" by code_simp+
  from nearby_correct [OF this] have "{q. adjacent field_3_3 4 q} = unat ` set (nearby 4 field_3_3)" by simp
  also have "nearby 4 field_3_3 = [1, 7, 3, 5]" by code_simp
  finally show ?thesis by simp
qed


definition hive_example :: hive_cfg where
  "hive_example = \<lparr>geometry = field_3_3, bees = 2\<rparr>"


definition one_flower :: hive_cfg where
  "one_flower = \<lparr>geometry = \<lparr>width = 1, height = 1, number_flowers = 1\<rparr>, bees = 2\<rparr>"

definition hang_schedule :: "hive_event list" where
  "hang_schedule = replicate 3 HMain @ replicate 10 (Bee 0 0 0) @ [HMain, HMain, Bee 1 0 0]"

text \<open>The program can hang: when the last flower is harvested, main sets the termination flag
  while the bees are between two rounds of the barrier; a bee that reads the flag leaves its
  loop, and the others wait at the barrier for it for ever, so that main never joins them.\<close>

theorem hive_can_hang:
  "\<exists>s. run (hive_next one_flower) (hive_init one_flower) hang_schedule = Some s
     \<and> stuck (hive_next one_flower) s \<and> hpc s = HJoin 0 \<and> \<not> destroyed s"
proof -
  have "(case run (hive_next one_flower) (hive_init one_flower) hang_schedule of None \<Rightarrow> False
    | Some s \<Rightarrow> hpc s = HJoin 0 \<and> bpc s 0 = BWait Landing \<and> bpc s 1 = BDone \<and> \<not> destroyed s)"
    by code_simp
  then obtain s where s: "run (hive_next one_flower) (hive_init one_flower) hang_schedule = Some s"
    "hpc s = HJoin 0" "bpc s 0 = BWait Landing" "bpc s 1 = BDone" "\<not> destroyed s"
    by (auto split: option.splits)
  have "hive_next one_flower s e = None" for e
  proof (cases e)
    case HMain
    with s show ?thesis by (simp add: hive_main_def one_flower_def)
  next
    case (Bee i r1 r2)
    consider "i = 0" | "i = 1" | "2 \<le> i" by linarith
    then show ?thesis using s Bee by cases (simp_all add: spawned_def one_flower_def bee_step_def)
  qed
  with s show ?thesis by (auto simp: stuck_def)
qed

text \<open>The queue is accessed by two bees at the same time: one reports a flower, holding
  the mutex of the field only, while another is about to pop under the mutex of the queue.\<close>

theorem hive_queue_race:
  "\<exists>es s. run (hive_next hive_example) (hive_init hive_example) es = Some s
     \<and> bpc s 0 = BReport [7, 3, 5] \<and> nectar s ! 7 \<and> bpc s 1 = BPop
     \<and> queue_mutex s = Some 1 \<and> field_mutex s = Some 0"
proof -
  have "(case run (hive_next hive_example) (hive_init hive_example)
      (replicate 3 HMain @ replicate 8 (Bee 0 0 0) @ replicate 3 (Bee 1 0 0)) of None \<Rightarrow> False
    | Some s \<Rightarrow> bpc s 0 = BReport [7, 3, 5] \<and> nectar s ! 7 \<and> bpc s 1 = BPop
        \<and> queue_mutex s = Some 1 \<and> field_mutex s = Some 0)"
    by code_simp
  then show ?thesis by (auto split: option.splits)
qed

end
