(* ===== verification/MemoryTracker.thy ===== *)
theory MemoryTracker
  imports Prelude
begin

text \<open>
  \<^verbatim>\<open>exercise01/task1/includes/memory_tracking.[ch]\<close>: a table of 100 slots that records the
  allocations a program has made through the macros \<^verbatim>\<open>malloc\<close>, \<^verbatim>\<open>calloc\<close> and \<^verbatim>\<open>free\<close>. Seen from
  outside it is a finite map from addresses to sizes and lines; the locale
  \<open>allocation_table\<close> states this contract and the interpretation discharges it.
\<close>

unbundle bit_operations_syntax

section \<open>The contract\<close>

datatype tracker_call = Alloc u64 u64 u16 | Free u64 u16

type_synonym allocations = "u64 \<Rightarrow> (u64 \<times> u16) option"

text \<open>The abstract table; \<open>cap\<close> allocations fit.\<close>

fun alloc_step :: "nat \<Rightarrow> allocations \<Rightarrow> tracker_call \<Rightarrow> allocations" where
  "alloc_step cap m (Alloc a sz line) =
     (if a = 0 \<or> cap \<le> card (dom m) then m else m(a \<mapsto> (sz, line)))"
| "alloc_step cap m (Free a line) = m(a := None)"

text \<open>\<^verbatim>\<open>malloc\<close> never returns an address that is allocated.\<close>

fun fresh_calls :: "nat \<Rightarrow> allocations \<Rightarrow> tracker_call list \<Rightarrow> bool" where
  "fresh_calls cap m [] = True"
| "fresh_calls cap m (c # cs) =
     ((case c of Alloc a sz line \<Rightarrow> m a = None | Free a line \<Rightarrow> True) \<and> fresh_calls cap (alloc_step cap m c) cs)"

text \<open>A call on a table with the given operations.\<close>

fun table_call :: "('t \<Rightarrow> u64 \<Rightarrow> u64 \<Rightarrow> u16 \<Rightarrow> 't) \<Rightarrow> ('t \<Rightarrow> u64 \<Rightarrow> u16 \<Rightarrow> bool \<times> 't) \<Rightarrow> 't
    \<Rightarrow> tracker_call \<Rightarrow> 't" where
  "table_call alloc dealloc t (Alloc a sz ln) = alloc t a sz ln"
| "table_call alloc dealloc t (Free a ln) = snd (dealloc t a ln)"

locale allocation_table =
  fixes cap :: nat and tinv :: "'t \<Rightarrow> bool" and live :: "'t \<Rightarrow> allocations"
    and alloc :: "'t \<Rightarrow> u64 \<Rightarrow> u64 \<Rightarrow> u16 \<Rightarrow> 't" and dealloc :: "'t \<Rightarrow> u64 \<Rightarrow> u16 \<Rightarrow> bool \<times> 't"
  assumes inv_alloc: "tinv t \<Longrightarrow> live t a = None \<Longrightarrow> tinv (alloc t a sz ln)"
    and live_alloc: "tinv t \<Longrightarrow> live t a = None \<Longrightarrow> live (alloc t a sz ln) = alloc_step cap (live t) (Alloc a sz ln)"
    and inv_dealloc: "tinv t \<Longrightarrow> tinv (snd (dealloc t a ln))"
    and live_dealloc: "tinv t \<Longrightarrow> live (snd (dealloc t a ln)) = (live t)(a := None)"
    and dealloc_result: "tinv t \<Longrightarrow> fst (dealloc t a ln) \<longleftrightarrow> live t a \<noteq> None"
begin

lemma calls_refine:
  "tinv t \<Longrightarrow> fresh_calls cap (live t) cs
    \<Longrightarrow> tinv (foldl (table_call alloc dealloc) t cs) \<and> live (foldl (table_call alloc dealloc) t cs) = foldl (alloc_step cap) (live t) cs"
proof (induction cs arbitrary: t)
  case (Cons c cs)
  have "tinv (table_call alloc dealloc t c)" "live (table_call alloc dealloc t c) = alloc_step cap (live t) c"
    using Cons.prems by (cases c; simp add: inv_alloc live_alloc inv_dealloc live_dealloc)+
  with Cons show ?case by simp
qed simp

end

section \<open>The tracker of the code\<close>

definition MEMORY_TRACKER_SIZE :: nat where "MEMORY_TRACKER_SIZE = 100"

text \<open>The error kinds are numbered from 0, but used as bits.\<close>

definition NULL_FREE :: u8 where "NULL_FREE = 0"
definition DOUBLE_FREE :: u8 where "DOUBLE_FREE = 1"
definition MAX_ALLOC :: u8 where "MAX_ALLOC = 2"
definition FAILED_ALLOC :: u8 where "FAILED_ALLOC = 3"
definition MEMORY_LEAK :: u8 where "MEMORY_LEAK = 4"

lemmas error_bits = NULL_FREE_def DOUBLE_FREE_def MAX_ALLOC_def FAILED_ALLOC_def MEMORY_LEAK_def

record memory_t =
  address :: u64
  msize :: u64
  mline :: u16

record memory_tracker =
  memory :: "memory_t list"
  total_allocated_memory :: u64
  total_freed_memory :: u64
  error :: u8

text \<open>The global variable, zero before \<^verbatim>\<open>main\<close> runs.\<close>

definition tracker_init :: memory_tracker where
  "tracker_init = \<lparr>memory = replicate MEMORY_TRACKER_SIZE \<lparr>address = 0, msize = 0, mline = 0\<rparr>,
     total_allocated_memory = 0, total_freed_memory = 0, error = 0\<rparr>"

fun find_loop :: "memory_t list \<Rightarrow> u64 \<Rightarrow> nat \<Rightarrow> nat option" where
  "find_loop [] a i = None"
| "find_loop (m # ms) a i = (if address m = a then Some i else find_loop ms a (Suc i))"

definition find_address :: "memory_tracker \<Rightarrow> u64 \<Rightarrow> nat option" where
  "find_address t a = find_loop (memory t) a 0"

definition allocate_memory :: "memory_tracker \<Rightarrow> u64 \<Rightarrow> u64 \<Rightarrow> u16 \<Rightarrow> memory_tracker" where
  "allocate_memory t a sz line =
     (if a = 0 then t\<lparr>error := error t OR FAILED_ALLOC\<rparr>
      else case find_address t 0 of
             None \<Rightarrow> t\<lparr>error := error t OR MAX_ALLOC\<rparr>
           | Some i \<Rightarrow> t\<lparr>memory := (memory t)[i := \<lparr>address = a, msize = sz, mline = line\<rparr>],
                         total_allocated_memory := total_allocated_memory t + sz\<rparr>)"

definition free_memory :: "memory_tracker \<Rightarrow> u64 \<Rightarrow> u16 \<Rightarrow> bool \<times> memory_tracker" where
  "free_memory t a line =
     (if a = 0 then (False, t\<lparr>error := error t OR NULL_FREE\<rparr>)
      else case find_address t a of
             None \<Rightarrow> (False, t\<lparr>error := error t OR DOUBLE_FREE\<rparr>)
           | Some i \<Rightarrow> (True, t\<lparr>memory := (memory t)[i := (memory t ! i)\<lparr>address := 0\<rparr>],
                               total_freed_memory := total_freed_memory t + msize (memory t ! i)\<rparr>))"

text \<open>What \<^verbatim>\<open>print_memory_tracker\<close> shows: the totals, the leaked bytes and, if there are any, the
  size and line of every block still allocated.\<close>

definition print_memory_tracker :: "memory_tracker \<Rightarrow> u64 \<times> u64 \<times> u64 \<times> (u64 \<times> u16) list" where
  "print_memory_tracker t =
     (let leaked = total_allocated_memory t - total_freed_memory t
      in (total_allocated_memory t, total_freed_memory t, leaked,
          if leaked > 0 then map (\<lambda>m. (msize m, mline m)) (filter (\<lambda>m. address m \<noteq> 0) (memory t)) else []))"

definition is_memory_leaked :: "memory_tracker \<Rightarrow> bool" where
  "is_memory_leaked t \<longleftrightarrow> total_allocated_memory t \<noteq> total_freed_memory t"

definition check_clean_memory_handling :: "memory_tracker \<Rightarrow> bool" where
  "check_clean_memory_handling t \<longleftrightarrow> error t = 0 \<and> \<not> is_memory_leaked t"

text \<open>
  The macros: \<open>ptr\<close> is what the C library's function returned; the line number is cut to 16
  bits, and the product of \<^verbatim>\<open>my_calloc\<close> wraps. \<open>my_free\<close> says whether \<^verbatim>\<open>free\<close> itself is called.
\<close>

definition my_malloc :: "memory_tracker \<Rightarrow> u64 \<Rightarrow> u64 \<Rightarrow> u32 \<Rightarrow> memory_tracker" where
  "my_malloc t ptr sz line = allocate_memory t ptr sz (ucast line)"

definition my_calloc :: "memory_tracker \<Rightarrow> u64 \<Rightarrow> u64 \<Rightarrow> u64 \<Rightarrow> u32 \<Rightarrow> memory_tracker" where
  "my_calloc t ptr num sz line = allocate_memory t ptr (sz * num) (ucast line)"

definition my_free :: "memory_tracker \<Rightarrow> u64 \<Rightarrow> u32 \<Rightarrow> bool \<times> memory_tracker" where
  "my_free t ptr line = free_memory t ptr (ucast line)"

section \<open>The table as a map\<close>

definition live_size :: "memory_t \<Rightarrow> u64" where
  "live_size m = (if address m = 0 then 0 else msize m)"

definition entries_of :: "memory_t list \<Rightarrow> (u64 \<times> u64 \<times> u16) list" where
  "entries_of ms = map (\<lambda>m. (address m, msize m, mline m)) (filter (\<lambda>m. address m \<noteq> 0) ms)"

definition tracker_inv :: "memory_tracker \<Rightarrow> bool" where
  "tracker_inv t \<longleftrightarrow> length (memory t) = MEMORY_TRACKER_SIZE
     \<and> distinct (map fst (entries_of (memory t)))
     \<and> total_allocated_memory t - total_freed_memory t = sum_list (map live_size (memory t))"

text \<open>What the lookup of the code finds: the map the tracker stands for.\<close>

definition tracker_live :: "memory_tracker \<Rightarrow> allocations" where
  "tracker_live t a =
     (if a = 0 then None else map_option (\<lambda>i. (msize (memory t ! i), mline (memory t ! i))) (find_address t a))"

lemma find_loop_Some:
  "find_loop ms a k = Some i \<Longrightarrow> k \<le> i \<and> i < k + length ms \<and> address (ms ! (i - k)) = a"
  by (induction ms arbitrary: k) (auto simp: nth_Cons' Suc_diff_le split: if_splits dest: Suc_le_lessD, fastforce+)

lemma find_loop_None: "find_loop ms a k = None \<longleftrightarrow> a \<notin> address ` set ms"
  by (induction ms arbitrary: k) auto

lemma find_loop_map_of:
  "a \<noteq> 0 \<Longrightarrow> map_option (\<lambda>i. (msize (ms ! (i - k)), mline (ms ! (i - k)))) (find_loop ms a k) = map_of (entries_of ms) a"
proof (induction ms arbitrary: k)
  case (Cons m ms)
  show ?case
  proof (cases "address m = a")
    case False
    have "map_option (\<lambda>i. (msize ((m # ms) ! (i - k)), mline ((m # ms) ! (i - k)))) (find_loop ms a (Suc k))
        = map_option (\<lambda>i. (msize (ms ! (i - Suc k)), mline (ms ! (i - Suc k)))) (find_loop ms a (Suc k))"
      by (intro option.map_cong refl) (auto dest!: find_loop_Some simp: nth_Cons' less_eq_Suc_le)
    with False Cons show ?thesis by (simp add: entries_of_def)
  qed (use Cons.prems in \<open>simp add: entries_of_def\<close>)
qed (simp add: entries_of_def)

lemma live_entries: "tracker_live t = map_of (entries_of (memory t))"
proof
  fix a
  show "tracker_live t a = map_of (entries_of (memory t)) a"
  proof (cases "a = 0")
    case True
    then have "a \<notin> fst ` set (entries_of (memory t))" by (auto simp: entries_of_def)
    then have "map_of (entries_of (memory t)) a = None" by (rule map_of_eq_None_iff [THEN iffD2])
    with True show ?thesis by (simp add: tracker_live_def)
  next
    case False
    with find_loop_map_of [of a "memory t" 0] show ?thesis by (simp add: tracker_live_def find_address_def)
  qed
qed

lemma entries_update:
  assumes "i < length ms"
  shows "entries_of ms = entries_of (take i ms) @ entries_of [ms ! i] @ entries_of (drop (Suc i) ms)"
    "entries_of (ms[i := m]) = entries_of (take i ms) @ entries_of [m] @ entries_of (drop (Suc i) ms)"
proof -
  have "entries_of (xs @ y # ys) = entries_of xs @ entries_of [y] @ entries_of ys" for xs y ys
    by (simp add: entries_of_def)
  then show "entries_of ms = entries_of (take i ms) @ entries_of [ms ! i] @ entries_of (drop (Suc i) ms)"
    "entries_of (ms[i := m]) = entries_of (take i ms) @ entries_of [m] @ entries_of (drop (Suc i) ms)"
    by (subst id_take_nth_drop [OF assms], simp, simp add: upd_conv_take_nth_drop [OF assms])
qed

lemma live_sizes_update:
  "i < length ms \<Longrightarrow> sum_list (map live_size (ms[i := m])) = sum_list (map live_size ms) + live_size m - live_size (ms ! i)"
  by (simp add: map_update sum_list_update_group)

lemma dom_live:
  assumes "tracker_inv t"
  shows "MEMORY_TRACKER_SIZE \<le> card (dom (tracker_live t)) \<longleftrightarrow> find_address t 0 = None"
proof -
  let ?ms = "memory t"
  have "card (dom (tracker_live t)) = length (entries_of ?ms)"
    using assms distinct_card [of "map fst (entries_of ?ms)"]
    by (simp add: live_entries dom_map_of_conv_image_fst tracker_inv_def)
  also have "\<dots> = length (filter (\<lambda>m. address m \<noteq> 0) ?ms)" by (simp add: entries_of_def)
  finally have "card (dom (tracker_live t)) = length (filter (\<lambda>m. address m \<noteq> 0) ?ms)" .
  moreover have "length ?ms = MEMORY_TRACKER_SIZE" using assms by (simp add: tracker_inv_def)
  moreover have "length ?ms \<le> length (filter (\<lambda>m. address m \<noteq> 0) ?ms) \<longleftrightarrow> find_address t 0 = None"
    by (auto simp: length_filter_all list_all_iff find_address_def find_loop_None)
  ultimately show ?thesis by simp
qed

lemma tracker_alloc:
  assumes inv: "tracker_inv t" and fresh: "tracker_live t a = None"
  shows "tracker_inv (allocate_memory t a sz ln)"
    "tracker_live (allocate_memory t a sz ln) = alloc_step MEMORY_TRACKER_SIZE (tracker_live t) (Alloc a sz ln)"
proof -
  let ?ms = "memory t" and ?t = "allocate_memory t a sz ln" and ?m = "\<lparr>address = a, msize = sz, mline = ln\<rparr>"
  have "tracker_inv ?t \<and> tracker_live ?t = alloc_step MEMORY_TRACKER_SIZE (tracker_live t) (Alloc a sz ln)"
  proof (cases "a = 0 \<or> find_address t 0 = None")
    case True
    then have "memory ?t = ?ms" "total_allocated_memory ?t = total_allocated_memory t"
      "total_freed_memory ?t = total_freed_memory t" by (auto simp: allocate_memory_def)
    with inv True show ?thesis by (auto simp: tracker_inv_def live_entries dom_live [OF inv, symmetric, unfolded live_entries])
  next
    case False
    then obtain i where i: "find_address t 0 = Some i" "a \<noteq> 0" by blast
    then have lt: "i < length ?ms" and z: "address (?ms ! i) = 0"
      using find_loop_Some [of ?ms 0 0 i] by (auto simp: find_address_def)
    have t: "?t = t\<lparr>memory := ?ms[i := ?m], total_allocated_memory := total_allocated_memory t + sz\<rparr>"
      using i by (simp add: allocate_memory_def)
    note e = entries_update [OF lt]
    have old: "entries_of ?ms = entries_of (take i ?ms) @ entries_of (drop (Suc i) ?ms)"
      using e(1) z by (simp add: entries_of_def)
    have new: "entries_of (memory ?t) = entries_of (take i ?ms) @ (a, sz, ln) # entries_of (drop (Suc i) ?ms)"
      using e(2) [of ?m] i(2) by (simp add: t entries_of_def)
    have na: "a \<notin> fst ` set (entries_of (take i ?ms)) \<union> fst ` set (entries_of (drop (Suc i) ?ms))"
      using fresh unfolding live_entries old by (auto simp: map_of_eq_None_iff)
    have "sum_list (map live_size (memory ?t)) = sum_list (map live_size ?ms) + sz"
      using lt z i(2) by (simp add: t live_sizes_update live_size_def)
    moreover have "distinct (map fst (entries_of (memory ?t)))"
      using inv na unfolding new by (simp add: tracker_inv_def old)
    ultimately have "tracker_inv ?t" using inv unfolding tracker_inv_def by (simp add: t algebra_simps)
    moreover have "tracker_live ?t = (tracker_live t)(a \<mapsto> (sz, ln))"
      using na unfolding live_entries new old by (intro map_of_insert_mid) blast
    moreover have "\<not> MEMORY_TRACKER_SIZE \<le> card (dom (tracker_live t))" using i dom_live [OF inv] by simp
    ultimately show ?thesis using i(2) by simp
  qed
  then show "tracker_inv ?t" "tracker_live ?t = alloc_step MEMORY_TRACKER_SIZE (tracker_live t) (Alloc a sz ln)" by auto
qed

lemma tracker_free:
  assumes inv: "tracker_inv t"
  shows "tracker_inv (snd (free_memory t a ln))" "tracker_live (snd (free_memory t a ln)) = (tracker_live t)(a := None)"
    "fst (free_memory t a ln) \<longleftrightarrow> tracker_live t a \<noteq> None"
proof -
  let ?ms = "memory t" and ?t = "snd (free_memory t a ln)"
  have "tracker_inv ?t \<and> tracker_live ?t = (tracker_live t)(a := None) \<and> (fst (free_memory t a ln) \<longleftrightarrow> tracker_live t a \<noteq> None)"
  proof (cases "a = 0 \<or> find_address t a = None")
    case True
    then have "memory ?t = ?ms" "total_allocated_memory ?t = total_allocated_memory t"
      "total_freed_memory ?t = total_freed_memory t" "\<not> fst (free_memory t a ln)" by (auto simp: free_memory_def)
    moreover have "tracker_live t a = None" using True by (auto simp: tracker_live_def)
    ultimately show ?thesis using inv by (simp add: tracker_inv_def live_entries fun_upd_idem)
  next
    case False
    then obtain i where i: "find_address t a = Some i" "a \<noteq> 0" by blast
    then have lt: "i < length ?ms" and z: "address (?ms ! i) = a"
      using find_loop_Some [of ?ms a 0 i] by (auto simp: find_address_def)
    let ?m = "(?ms ! i)\<lparr>address := 0\<rparr>"
    have t: "?t = t\<lparr>memory := ?ms[i := ?m], total_freed_memory := total_freed_memory t + msize (?ms ! i)\<rparr>"
      and f: "fst (free_memory t a ln)"
      using i by (simp_all add: free_memory_def)
    note e = entries_update [OF lt]
    have old: "entries_of ?ms = entries_of (take i ?ms) @ (a, msize (?ms ! i), mline (?ms ! i)) # entries_of (drop (Suc i) ?ms)"
      using e(1) z i(2) by (simp add: entries_of_def)
    have new: "entries_of (memory ?t) = entries_of (take i ?ms) @ entries_of (drop (Suc i) ?ms)"
      using e(2) [of ?m] by (simp add: t entries_of_def)
    have d: "distinct (map fst (entries_of ?ms))" using inv by (simp add: tracker_inv_def)
    then have na: "a \<notin> fst ` set (entries_of (take i ?ms)) \<union> fst ` set (entries_of (drop (Suc i) ?ms))"
      unfolding old by auto
    have "sum_list (map live_size (memory ?t)) = sum_list (map live_size ?ms) - msize (?ms ! i)"
      using lt z i(2) by (simp add: t live_sizes_update live_size_def)
    moreover have "distinct (map fst (entries_of (memory ?t)))" using d unfolding new old by simp
    ultimately have "tracker_inv ?t" using inv unfolding tracker_inv_def by (simp add: t algebra_simps)
    moreover have "tracker_live ?t = (tracker_live t)(a := None)"
      using na unfolding live_entries new old by (intro map_of_remove_mid) blast+
    moreover have "tracker_live t a \<noteq> None" using i by (simp add: tracker_live_def)
    ultimately show ?thesis using f by simp
  qed
  then show "tracker_inv ?t" "tracker_live ?t = (tracker_live t)(a := None)"
    "fst (free_memory t a ln) \<longleftrightarrow> tracker_live t a \<noteq> None" by auto
qed

interpretation tracker: allocation_table MEMORY_TRACKER_SIZE tracker_inv tracker_live allocate_memory free_memory
  by unfold_locales (simp_all add: tracker_alloc tracker_free del: alloc_step.simps)

abbreviation tracker_run :: "tracker_call list \<Rightarrow> memory_tracker" where
  "tracker_run cs \<equiv> foldl (table_call allocate_memory free_memory) tracker_init cs"

abbreviation allocated_by :: "tracker_call list \<Rightarrow> allocations" where
  "allocated_by cs \<equiv> foldl (alloc_step MEMORY_TRACKER_SIZE) Map.empty cs"

lemma tracker_init_inv: "tracker_inv tracker_init" "tracker_live tracker_init = Map.empty"
proof -
  have "entries_of (replicate n \<lparr>address = 0, msize = 0, mline = 0\<rparr>) = []" for n
    by (simp add: entries_of_def)
  moreover have "sum_list (map live_size (replicate n \<lparr>address = 0, msize = 0, mline = 0\<rparr>)) = 0" for n
    by (induction n) (simp_all add: live_size_def)
  ultimately show "tracker_inv tracker_init" "tracker_live tracker_init = Map.empty"
    by (simp_all add: tracker_inv_def live_entries tracker_init_def del: map_replicate)
qed

lemma tracker_run_inv:
  "fresh_calls MEMORY_TRACKER_SIZE Map.empty cs \<Longrightarrow> tracker_inv (tracker_run cs) \<and> tracker_live (tracker_run cs) = allocated_by cs"
  using tracker.calls_refine [OF tracker_init_inv(1), of cs] unfolding tracker_init_inv(2) .

section \<open>The leaked bytes\<close>

lemma live_sizes_entries: "sum_list (map live_size ms) = sum_list (map (\<lambda>e. fst (snd e)) (entries_of ms))"
  by (induction ms) (simp_all add: live_size_def entries_of_def)

lemma unat_sum_list:
  "sum_list (map unat xs) < 2 ^ 64 \<Longrightarrow> unat (sum_list xs) = sum_list (map unat xs)" for xs :: "u64 list"
proof (induction xs)
  case (Cons x xs)
  then have "unat (sum_list xs) = sum_list (map unat xs)" by simp
  with Cons.prems show ?case by (simp add: unat_word_ariths)
qed simp

lemma sum_dom_map_of:
  assumes "distinct (map fst es)"
  shows "(\<Sum>a \<in> dom (map_of es). g (the (map_of es a))) = sum_list (map (\<lambda>e. g (snd e)) es)"
proof -
  have "sum_list (map (\<lambda>e. g (snd e)) es) = sum_list (map (\<lambda>a. g (the (map_of es a))) (map fst es))"
    unfolding map_map using assms by (intro arg_cong [where f = sum_list] map_cong) auto
  also have "\<dots> = (\<Sum>a \<in> set (map fst es). g (the (map_of es a)))"
    using assms by (rule sum_list_distinct_conv_sum_set)
  finally show ?thesis by (simp add: dom_map_of_conv_image_fst)
qed

text \<open>The bytes that are allocated, not reduced modulo the word size.\<close>

definition live_bytes :: "allocations \<Rightarrow> nat" where
  "live_bytes m = (\<Sum>a \<in> dom m. unat (fst (the (m a))))"

lemma leaked_bytes:
  assumes inv: "tracker_inv t" and small: "live_bytes (tracker_live t) < 2 ^ 64"
  shows "unat (total_allocated_memory t - total_freed_memory t) = live_bytes (tracker_live t)"
proof -
  let ?es = "entries_of (memory t)"
  have d: "distinct (map fst ?es)" using inv by (simp add: tracker_inv_def)
  have lb: "live_bytes (tracker_live t) = sum_list (map unat (map (\<lambda>e. fst (snd e)) ?es))"
    using sum_dom_map_of [OF d, of "\<lambda>e. unat (fst e)"] by (simp add: live_bytes_def live_entries comp_def)
  have "total_allocated_memory t - total_freed_memory t = sum_list (map (\<lambda>e. fst (snd e)) ?es)"
    using inv by (simp add: tracker_inv_def live_sizes_entries)
  with small show ?thesis unfolding lb by (simp only: unat_sum_list)
qed

section \<open>Properties\<close>

text \<open>C20: For every sequence of allocations and frees in which \<^verbatim>\<open>malloc\<close> returns no address that
  is still allocated, looking an address up in the tracker gives what the abstract finite map
  gives, up to the 100 slots it has; in particular a slot that is freed is reused and nothing
  else is disturbed.\<close>

theorem tracker_refines_map:
  assumes "fresh_calls MEMORY_TRACKER_SIZE Map.empty cs"
  shows "tracker_live (tracker_run cs) = allocated_by cs
    \<and> (fst (free_memory (tracker_run cs) a ln) \<longleftrightarrow> allocated_by cs a \<noteq> None)"
  using tracker_run_inv [OF assms] tracker.dealloc_result by metis

definition tracker_example :: "tracker_call list" where
  "tracker_example = [Alloc 0x1000 16 7, Alloc 0x2000 8 9, Free 0x1000 11, Alloc 0x3000 4 12]"

lemma tracker_example_fresh: "fresh_calls MEMORY_TRACKER_SIZE Map.empty tracker_example"
  by (simp add: tracker_example_def MEMORY_TRACKER_SIZE_def)

theorem tracker_refines_map_witness:
  "tracker_live (tracker_run tracker_example) 0x3000 = Some (4, 12)
   \<and> tracker_live (tracker_run tracker_example) 0x1000 = None"
  unfolding conjunct1 [OF tracker_refines_map [OF tracker_example_fresh]]
  by (simp add: tracker_example_def MEMORY_TRACKER_SIZE_def)

text \<open>The memory summary is right as long as the live blocks have less than 2^64 bytes: the
  leaked bytes are the sizes of the blocks still allocated, and a leak is reported exactly when
  a block of a size other than 0 is still allocated.\<close>

theorem tracker_leak_report:
  assumes "fresh_calls MEMORY_TRACKER_SIZE Map.empty cs" "live_bytes (allocated_by cs) < 2 ^ 64"
  shows "(case print_memory_tracker (tracker_run cs) of (allocated, freed, leaked, blocks) \<Rightarrow>
      unat leaked = live_bytes (allocated_by cs))
    \<and> (is_memory_leaked (tracker_run cs) \<longleftrightarrow> (\<exists>a z l. allocated_by cs a = Some (z, l) \<and> z \<noteq> 0))"
proof -
  let ?t = "tracker_run cs"
  note inv = tracker_run_inv [OF assms(1)]
  have u: "unat (total_allocated_memory ?t - total_freed_memory ?t) = live_bytes (allocated_by cs)"
    using leaked_bytes [of ?t] inv assms(2) by simp
  have "is_memory_leaked ?t \<longleftrightarrow> unat (total_allocated_memory ?t - total_freed_memory ?t) \<noteq> 0"
    by (simp add: is_memory_leaked_def unat_eq_0)
  also have "\<dots> \<longleftrightarrow> (\<exists>a \<in> dom (allocated_by cs). unat (fst (the (allocated_by cs a))) \<noteq> 0)"
  proof -
    have "finite (dom (allocated_by cs))"
      using inv unfolding live_entries by (metis finite_dom_map_of)
    then show ?thesis unfolding u live_bytes_def by (simp add: sum_eq_0_iff)
  qed
  finally show ?thesis using u by (force simp: print_memory_tracker_def Let_def unat_eq_0)
qed

theorem tracker_leak_report_witness:
  "is_memory_leaked (tracker_run tracker_example)"
proof -
  have m: "allocated_by tracker_example = [0x2000 \<mapsto> (8, 9), 0x3000 \<mapsto> (4, 12)]"
    by (simp add: tracker_example_def MEMORY_TRACKER_SIZE_def fun_upd_twist fun_eq_iff)
  have "live_bytes (allocated_by tracker_example) < 2 ^ 64" unfolding m live_bytes_def by simp
  from tracker_leak_report [OF tracker_example_fresh this] show ?thesis
    unfolding m by (auto intro!: exI [of _ "0x3000"])
qed

text \<open>Freeing a null pointer leaves no trace, since its error bit is 0, and the flags of a
  failed allocation are those of a double free together with a full table.\<close>

theorem null_free_unnoticed:
  "my_free t 0 line = (False, t)
   \<and> (check_clean_memory_handling (snd (my_free t 0 line)) \<longleftrightarrow> check_clean_memory_handling t)
   \<and> my_malloc t 0 sz line = t\<lparr>error := error t OR (DOUBLE_FREE OR MAX_ALLOC)\<rparr>"
  by (simp add: my_free_def free_memory_def my_malloc_def allocate_memory_def error_bits)

end
