(* ===== verification/AddressBook.thy ===== *)
theory AddressBook
  imports MemoryTracker CString "HOL-Library.Monad_Syntax"
begin

text \<open>
  \<^verbatim>\<open>exercise01/task1\<close>: the address book of \<^verbatim>\<open>addressbook.c\<close>, a singly linked list of pointers
  to contacts, on a heap whose allocations go through the memory tracker, and the test program
  of \<^verbatim>\<open>main.c\<close>. Undefined behaviour (a null or dangling pointer that is dereferenced, a string
  that does not fit) is \<open>None\<close>.
\<close>

section \<open>The heap\<close>

type_synonym addr = u64

record contact =
  first_name :: cstring
  last_name :: cstring
  age :: int
  email :: cstring

record node_t =
  data :: addr
  nxt :: addr

text \<open>
  One map per type of object: an address book is its \<open>head\<close>. \<open>mallocs\<close> holds the results of the
  coming calls of \<^verbatim>\<open>malloc\<close>, 0 when there is no memory.
\<close>

record heap =
  books :: "addr \<Rightarrow> addr option"
  nodes :: "addr \<Rightarrow> node_t option"
  contacts :: "addr \<Rightarrow> contact option"
  mallocs :: "addr list"
  tracker :: memory_tracker

definition malloc :: "u64 \<Rightarrow> u32 \<Rightarrow> heap \<Rightarrow> addr \<times> heap" where
  "malloc sz line h =
     (let p = (case mallocs h of [] \<Rightarrow> 0 | p # ps \<Rightarrow> p)
      in (p, h\<lparr>mallocs := tl (mallocs h), tracker := my_malloc (tracker h) p sz line\<rparr>))"

definition free :: "addr \<Rightarrow> u32 \<Rightarrow> heap \<Rightarrow> heap" where
  "free p line h =
     (case my_free (tracker h) p line of
        (False, t) \<Rightarrow> h\<lparr>tracker := t\<rparr>
      | (True, t) \<Rightarrow> h\<lparr>tracker := t, books := (books h)(p := None), nodes := (nodes h)(p := None),
                      contacts := (contacts h)(p := None)\<rparr>)"

text \<open>The sizes of the structures on x86-64.\<close>

definition sizeof_book :: u64 where "sizeof_book = 8"
definition sizeof_node :: u64 where "sizeof_node = 16"
definition sizeof_contact :: u64 where "sizeof_contact = 156"

section \<open>The operations\<close>

definition create_address_book :: "heap \<Rightarrow> (addr \<times> heap) option" where
  "create_address_book h =
     (case malloc sizeof_book 4 h of
        (p, h) \<Rightarrow> if p = 0 then None else Some (p, h\<lparr>books := (books h)(p \<mapsto> 0)\<rparr>))"

text \<open>\<^verbatim>\<open>strcpy\<close> into a field of 50 bytes.\<close>

definition fits :: "cstring \<Rightarrow> bool" where
  "fits s \<longleftrightarrow> length s < 50"

definition create_contact :: "cstring \<Rightarrow> cstring \<Rightarrow> int \<Rightarrow> cstring \<Rightarrow> heap \<Rightarrow> (addr \<times> heap) option" where
  "create_contact fname lname years mail h =
     (case malloc sizeof_contact 10 h of
        (p, h) \<Rightarrow>
          if p = 0 \<or> \<not> (fits fname \<and> fits lname \<and> fits mail) then None
          else Some (p, h\<lparr>contacts := (contacts h)(p \<mapsto>
                 \<lparr>first_name = fname, last_name = lname, age = years, email = mail\<rparr>)\<rparr>))"

text \<open>The loop \<^verbatim>\<open>while (tmp->next != NULL) tmp = tmp->next;\<close>, which need not end.\<close>

partial_function (option) find_last :: "(addr \<Rightarrow> node_t option) \<Rightarrow> addr \<Rightarrow> addr option" where
  "find_last nd tmp =
     do { n \<leftarrow> nd tmp;
          if nxt n \<noteq> 0 then find_last nd (nxt n) else Some tmp }"

definition add_contact :: "addr \<Rightarrow> addr \<Rightarrow> heap \<Rightarrow> heap option" where
  "add_contact book contact h =
     (case malloc sizeof_node 25 h of
        (p, h) \<Rightarrow>
          if p = 0 then None
          else let h = h\<lparr>nodes := (nodes h)(p \<mapsto> \<lparr>data = contact, nxt = 0\<rparr>)\<rparr>
               in do { head \<leftarrow> books h book;
                       if head = 0 then Some (h\<lparr>books := (books h)(book \<mapsto> p)\<rparr>)
                       else do { tmp \<leftarrow> find_last (nodes h) head;
                                 n \<leftarrow> nodes h tmp;
                                 Some (h\<lparr>nodes := (nodes h)(tmp \<mapsto> n\<lparr>nxt := p\<rparr>)\<rparr>) } })"

text \<open>\<^verbatim>\<open>find_contact\<close>, \<^verbatim>\<open>filter_address_book\<close> and \<^verbatim>\<open>sort_address_book\<close> are not implemented.\<close>

definition find_contact :: "addr \<Rightarrow> cstring \<Rightarrow> cstring \<Rightarrow> heap \<Rightarrow> addr" where
  "find_contact book fname lname h = 0"

definition filter_address_book :: "addr \<Rightarrow> heap \<Rightarrow> addr \<times> heap" where
  "filter_address_book book h = (0, h)"

definition sort_address_book :: "addr \<Rightarrow> heap \<Rightarrow> heap" where
  "sort_address_book book h = h"

text \<open>
  \<^verbatim>\<open>remove_contact\<close>. The search starts at the second node; \<open>remove_loop\<close> gives the node before
  the one found and the one found, or nothing when the end is reached.
\<close>

partial_function (option) remove_loop :: "(addr \<Rightarrow> node_t option) \<Rightarrow> addr \<Rightarrow> addr \<Rightarrow> addr
    \<Rightarrow> (addr \<times> addr) option option" where
  "remove_loop nd contact previous current =
     do { n \<leftarrow> nd current;
          if data n = contact then Some (Some (previous, current))
          else if nxt n = 0 then Some None
          else remove_loop nd contact current (nxt n) }"

definition remove_contact :: "addr \<Rightarrow> addr \<Rightarrow> heap \<Rightarrow> heap option" where
  "remove_contact book contact h =
     do { head \<leftarrow> books h book;
          if head = 0 then Some h
          else do {
            first \<leftarrow> nodes h head;
            current \<leftarrow> nodes h (nxt first);
            if data current = contact then Some (h\<lparr>books := (books h)(book \<mapsto> nxt current)\<rparr>)
            else do {
              found \<leftarrow> remove_loop (nodes h) contact 0 (nxt first);
              case found of
                None \<Rightarrow> Some h
              | Some (previous, cur) \<Rightarrow>
                  do { pn \<leftarrow> nodes h previous;
                       cn \<leftarrow> nodes h cur;
                       let h = h\<lparr>nodes := (nodes h)(previous \<mapsto> pn\<lparr>nxt := nxt cn\<rparr>)\<rparr>;
                       Some (free cur 74 (free (data cn) 73 h)) } } } }"

partial_function (option) print_address_book_loop :: "heap \<Rightarrow> addr \<Rightarrow> contact list option" where
  "print_address_book_loop h current =
     (if current = 0 then Some []
      else do { n \<leftarrow> nodes h current;
                c \<leftarrow> contacts h (data n);
                rest \<leftarrow> print_address_book_loop h (nxt n);
                Some (c # rest) })"

definition print_address_book :: "addr \<Rightarrow> heap \<Rightarrow> contact list option" where
  "print_address_book book h = do { head \<leftarrow> books h book; print_address_book_loop h head }"

definition duplicate_contact :: "addr \<Rightarrow> heap \<Rightarrow> (addr \<times> heap) option" where
  "duplicate_contact contact h =
     (if contact = 0 then Some (0, h)
      else do { c \<leftarrow> contacts h contact;
                create_contact (first_name c) (last_name c) (age c) (email c) h })"

definition compare_by_name :: "addr \<Rightarrow> addr \<Rightarrow> heap \<Rightarrow> bool option" where
  "compare_by_name contact1 contact2 h =
     do { c1 \<leftarrow> contacts h contact1;
          c2 \<leftarrow> contacts h contact2;
          Some (if first_name c1 \<noteq> first_name c2 then False
                else if last_name c1 \<noteq> last_name c2 then False
                else if age c1 \<noteq> age c2 then False
                else if email c1 \<noteq> email c2 then False
                else True) }"

definition is_adult :: "addr \<Rightarrow> heap \<Rightarrow> bool option" where
  "is_adult contact h = do { c \<leftarrow> contacts h contact; Some (age c > 17) }"

partial_function (option) count_loop :: "(addr \<Rightarrow> node_t option) \<Rightarrow> addr \<Rightarrow> u64 \<Rightarrow> u64 option" where
  "count_loop nd current count =
     do { n \<leftarrow> nd current;
          if nxt n \<noteq> 0 then count_loop nd (nxt n) (count + 1) else Some count }"

definition count_contacts :: "addr \<Rightarrow> heap \<Rightarrow> u64 option" where
  "count_contacts book h =
     (if book = 0 then Some 0
      else do { head \<leftarrow> books h book;
                if head = 0 then Some 0 else count_loop (nodes h) head 1 })"

partial_function (option) walk :: "(addr \<Rightarrow> node_t option) \<Rightarrow> addr \<Rightarrow> addr option" where
  "walk nd current =
     (if current = 0 then Some current else do { n \<leftarrow> nd current; walk nd (nxt n) })"

definition free_address_book :: "addr \<Rightarrow> heap \<Rightarrow> heap option" where
  "free_address_book book h =
     (if book = 0 then Some h
      else do { head \<leftarrow> books h book;
                _ \<leftarrow> walk (nodes h) head;
                Some (free book 136 h) })"

section \<open>The list a book stands for\<close>

text \<open>\<open>chain nd p as\<close>: following \<open>nxt\<close> from \<open>p\<close> visits the nodes \<open>as\<close> and ends at the null pointer.\<close>

fun chain :: "(addr \<Rightarrow> node_t option) \<Rightarrow> addr \<Rightarrow> addr list \<Rightarrow> bool" where
  "chain nd p [] \<longleftrightarrow> p = 0"
| "chain nd p (a # as) \<longleftrightarrow> p = a \<and> a \<noteq> 0 \<and> (case nd a of None \<Rightarrow> False | Some n \<Rightarrow> chain nd (nxt n) as)"

definition contacts_of :: "(addr \<Rightarrow> node_t option) \<Rightarrow> addr list \<Rightarrow> addr list" where
  "contacts_of nd as = map (\<lambda>a. data (the (nd a))) as"

definition represents :: "heap \<Rightarrow> addr \<Rightarrow> addr list \<Rightarrow> addr list \<Rightarrow> bool" where
  "represents h book as cs \<longleftrightarrow> book \<noteq> 0 \<and>
     (case books h book of None \<Rightarrow> False | Some head \<Rightarrow> chain (nodes h) head as) \<and> cs = contacts_of (nodes h) as"

text \<open>Objects of different types have different addresses, none of them null.\<close>

definition heap_ok :: "heap \<Rightarrow> bool" where
  "heap_ok h \<longleftrightarrow> books h 0 = None \<and> nodes h 0 = None \<and> contacts h 0 = None
     \<and> dom (books h) \<inter> dom (nodes h) = {} \<and> dom (books h) \<inter> dom (contacts h) = {}
     \<and> dom (nodes h) \<inter> dom (contacts h) = {}"

lemma chain_cong: "(\<And>a. a \<in> set as \<Longrightarrow> nd' a = nd a) \<Longrightarrow> chain nd' p as = chain nd p as"
  by (induction as arbitrary: p) (auto split: option.splits)

lemma chain_update: "u \<notin> set as \<Longrightarrow> chain (nd(u := v)) p as = chain nd p as"
  by (rule chain_cong) auto

lemma contacts_of_cong: "(\<And>a. a \<in> set as \<Longrightarrow> data (the (nd' a)) = data (the (nd a))) \<Longrightarrow> contacts_of nd' as = contacts_of nd as"
  by (simp add: contacts_of_def)

lemma contacts_of_append: "contacts_of nd (as @ bs) = contacts_of nd as @ contacts_of nd bs"
  by (simp add: contacts_of_def)

lemma chain_dom: "chain nd p as \<Longrightarrow> a \<in> set as \<Longrightarrow> a \<noteq> 0 \<and> nd a \<noteq> None"
  by (induction as arbitrary: p) (auto split: option.splits)

lemma chain_unique: "chain nd p as \<Longrightarrow> chain nd p bs \<Longrightarrow> as = bs"
proof (induction as arbitrary: p bs)
  case Nil
  then show ?case by (cases bs) auto
next
  case (Cons a as)
  then show ?case by (cases bs) (auto split: option.splits)
qed

lemma chain_append:
  "chain nd p (as @ a # bs) \<Longrightarrow> chain nd a (a # bs)"
proof (induction as arbitrary: p)
  case (Cons x xs)
  from Cons.prems have "\<exists>q. chain nd q (xs @ a # bs)" by (auto split: option.splits)
  with Cons.IH show ?case by blast
qed simp

lemma chain_distinct: "chain nd p as \<Longrightarrow> distinct as"
proof (induction as arbitrary: p)
  case (Cons a as)
  then have "distinct as" by (auto split: option.splits)
  moreover have "a \<notin> set as"
  proof
    assume "a \<in> set as"
    then obtain xs ys where "as = xs @ a # ys" by (auto simp: in_set_conv_decomp)
    with Cons.prems chain_append [of nd p "a # xs" a ys] have "chain nd a (a # ys)" "chain nd a (a # xs @ a # ys)"
      by simp_all
    from chain_unique [OF this] show False by simp
  qed
  ultimately show ?case by simp
qed simp

section \<open>The loops\<close>

lemma find_last_chain: "chain nd p as \<Longrightarrow> as \<noteq> [] \<Longrightarrow> find_last nd p = Some (last as)"
proof (induction as arbitrary: p)
  case (Cons a as)
  then obtain n where n: "p = a" "a \<noteq> 0" "nd a = Some n" "chain nd (nxt n) as" by (auto split: option.splits)
  show ?case
  proof (cases as)
    case Nil
    with n show ?thesis by (subst find_last.simps) simp
  next
    case (Cons b bs)
    with n have "nxt n \<noteq> 0" by auto
    with n Cons Cons.IH [of "nxt n"] show ?thesis by (subst find_last.simps) simp
  qed
qed simp

lemma count_loop_chain: "chain nd p as \<Longrightarrow> as \<noteq> [] \<Longrightarrow> count_loop nd p k = Some (k + of_nat (length as) - 1)"
proof (induction as arbitrary: p k)
  case (Cons a as)
  then obtain n where n: "p = a" "a \<noteq> 0" "nd a = Some n" "chain nd (nxt n) as" by (auto split: option.splits)
  show ?case
  proof (cases as)
    case Nil
    with n show ?thesis by (subst count_loop.simps) simp
  next
    case (Cons b bs)
    with n have "nxt n \<noteq> 0" by auto
    with n Cons Cons.IH [of "nxt n" "k + 1"] show ?thesis by (subst count_loop.simps) (simp add: algebra_simps)
  qed
qed simp

lemma walk_chain: "chain nd p as \<Longrightarrow> walk nd p = Some 0"
  by (induction as arbitrary: p) (subst walk.simps; auto split: option.splits)+

text \<open>The first node with a property, and the node before it.\<close>

fun search :: "(addr \<Rightarrow> bool) \<Rightarrow> addr \<Rightarrow> addr list \<Rightarrow> (addr \<times> addr) option" where
  "search P prev [] = None"
| "search P prev (a # as) = (if P a then Some (prev, a) else search P a as)"

lemma search_None: "search P prev as = None \<longleftrightarrow> (\<forall>a \<in> set as. \<not> P a)"
  by (induction as arbitrary: prev) auto

lemma search_Some:
  "search P prev as = Some (u, a) \<Longrightarrow> \<exists>xs ys. as = xs @ a # ys \<and> P a \<and> (\<forall>x \<in> set xs. \<not> P x) \<and> u = last (prev # xs)"
proof (induction as arbitrary: prev)
  case (Cons b bs)
  show ?case
  proof (cases "P b")
    case True
    with Cons.prems have "b # bs = [] @ a # bs \<and> P a \<and> (\<forall>x \<in> set []. \<not> P x) \<and> u = last (prev # [])" by simp
    then show ?thesis by blast
  next
    case False
    with Cons obtain xs ys where "bs = xs @ a # ys" "P a" "\<forall>x \<in> set xs. \<not> P x" "u = last (b # xs)"
      by (auto split: if_splits; blast)
    with False have "b # bs = (b # xs) @ a # ys \<and> P a \<and> (\<forall>x \<in> set (b # xs). \<not> P x) \<and> u = last (prev # b # xs)"
      by simp
    then show ?thesis by blast
  qed
qed simp

lemma remove_loop_chain:
  "chain nd p as \<Longrightarrow> as \<noteq> [] \<Longrightarrow> remove_loop nd c prev p = Some (search (\<lambda>a. data (the (nd a)) = c) prev as)"
proof (induction as arbitrary: p prev)
  case (Cons a as)
  then obtain n where n: "p = a" "a \<noteq> 0" "nd a = Some n" "chain nd (nxt n) as" by (auto split: option.splits)
  show ?case
  proof (cases "data n = c \<or> as = []")
    case True
    with n show ?thesis by (subst remove_loop.simps) auto
  next
    case False
    with n have "nxt n \<noteq> 0" by (cases as) auto
    with n False Cons.IH [of "nxt n" a] show ?thesis by (subst remove_loop.simps) simp
  qed
qed simp

lemma chain_snoc:
  assumes "chain nd p (xs @ [a])" "nd a = Some n" "q \<notin> set (xs @ [a])" "q \<noteq> 0" "nd q = Some m" "nxt m = 0"
  shows "chain (nd(a \<mapsto> n\<lparr>nxt := q\<rparr>)) p (xs @ [a, q])"
proof -
  have "a \<notin> set xs" using chain_distinct [OF assms(1)] by simp
  with assms show ?thesis by (induction xs arbitrary: p) (auto split: option.splits)
qed

lemma chain_unlink:
  assumes "chain nd p (xs @ u # a # ys)" "nd u = Some n" "nd a = Some m"
  shows "chain (nd(u \<mapsto> n\<lparr>nxt := nxt m\<rparr>)) p (xs @ u # ys)"
proof -
  have "u \<notin> set xs \<union> set ys" using chain_distinct [OF assms(1)] by simp
  with assms show ?thesis
    by (induction xs arbitrary: p) (auto split: option.splits simp: chain_update fun_upd_def [symmetric])
qed

lemma add_contact_list:
  assumes "represents h book as cs" "heap_ok h" "mallocs h = p # ps" "p \<noteq> 0"
    and "nodes h p = None" "books h p = None" "contacts h p = None"
  shows "\<exists>h'. add_contact book c h = Some h' \<and> represents h' book (as @ [p]) (cs @ [c]) \<and> heap_ok h'"
proof -
  obtain head where head: "books h book = Some head" "chain (nodes h) head as"
    and cs: "cs = contacts_of (nodes h) as" and b0: "book \<noteq> 0"
    using assms(1) by (auto simp: represents_def split: option.splits)
  have pn: "p \<notin> set as" using chain_dom [OF head(2), of p] assms(5) by auto
  have bp: "book \<noteq> p" using head assms(6) by auto
  let ?nd = "(nodes h)(p \<mapsto> \<lparr>data = c, nxt = 0\<rparr>)"
  have ch: "chain ?nd head as" using head(2) pn by (simp add: chain_update)
  have cs': "contacts_of ?nd as = cs" unfolding cs by (rule contacts_of_cong) (use pn in auto)
  show ?thesis
  proof (cases as rule: rev_cases)
    case Nil
    with head have "head = 0" by simp
    with assms head bp b0 Nil cs show ?thesis
      by (auto simp: add_contact_def malloc_def Let_def represents_def contacts_of_def heap_ok_def split: if_splits)
  next
    case (snoc xs a)
    then have h0: "head \<noteq> 0" using head(2) by (cases xs) auto
    obtain n where n: "nodes h a = Some n" "a \<noteq> p"
      using chain_dom [OF head(2), of a] snoc pn by auto
    have "find_last ?nd head = Some a" using find_last_chain [OF ch] snoc by simp
    moreover have "chain (?nd(a \<mapsto> n\<lparr>nxt := p\<rparr>)) head (as @ [p])"
      using chain_snoc [of ?nd head xs a n p] ch n pn assms(4) snoc by simp
    moreover have "contacts_of (?nd(a \<mapsto> n\<lparr>nxt := p\<rparr>)) (as @ [p]) = cs @ [c]"
    proof -
      have "contacts_of (?nd(a \<mapsto> n\<lparr>nxt := p\<rparr>)) as = contacts_of ?nd as"
        by (rule contacts_of_cong) (use n in auto)
      moreover have "contacts_of (?nd(a \<mapsto> n\<lparr>nxt := p\<rparr>)) [p] = [c]" using n by (simp add: contacts_of_def)
      ultimately show ?thesis using cs' by (simp add: contacts_of_append)
    qed
    ultimately show ?thesis
      using assms head bp b0 n h0
      by (auto simp: add_contact_def malloc_def Let_def represents_def heap_ok_def split: if_splits)
  qed
qed

text \<open>What \<^verbatim>\<open>add_contact\<close> leaves alone.\<close>

lemma add_contact_frame:
  assumes "add_contact book c h = Some h'" "mallocs h = p # ps"
  shows "contacts h' = contacts h" "dom (books h') = dom (books h)" "dom (nodes h') = insert p (dom (nodes h))"
    "mallocs h' = ps" "tracker h' = my_malloc (tracker h) p sizeof_node 25" "q \<noteq> book \<Longrightarrow> books h' q = books h q"
  using assms
  by (auto simp: add_contact_def malloc_def Let_def insert_absorb split: if_splits Option.bind_splits)

section \<open>Properties\<close>

text \<open>Adding a contact appends it at the end of the list, whatever its length, provided
  \<^verbatim>\<open>malloc\<close> gives a new address.\<close>

theorem add_contact_appends:
  assumes "represents h book as cs" "heap_ok h" "mallocs h = p # ps" "p \<noteq> 0"
    and "nodes h p = None" "books h p = None" "contacts h p = None"
  shows "\<exists>h'. add_contact book c h = Some h' \<and> represents h' book (as @ [p]) (cs @ [c]) \<and> heap_ok h'"
  by (rule add_contact_list [OF assms])

text \<open>Counting gives the length of the list.\<close>

theorem count_contacts_length:
  assumes "represents h book as cs"
  shows "count_contacts book h = Some (of_nat (length cs))"
proof -
  obtain head where head: "books h book = Some head" "chain (nodes h) head as" "cs = contacts_of (nodes h) as" "book \<noteq> 0"
    using assms by (auto simp: represents_def split: option.splits)
  show ?thesis
  proof (cases "as = []")
    case True
    with head show ?thesis by (simp add: count_contacts_def contacts_of_def)
  next
    case False
    with head have "head \<noteq> 0" by (cases as) auto
    with head False count_loop_chain [OF head(2) False, of 1] show ?thesis
      by (simp add: count_contacts_def contacts_of_def)
  qed
qed

text \<open>
  What \<^verbatim>\<open>remove_contact\<close> does to the list of contacts: it never looks at the first one, crashes
  on a list of one, and drops the first one too when the second one is to be removed.
\<close>

fun remove_spec :: "addr list \<Rightarrow> addr \<Rightarrow> addr list option" where
  "remove_spec [] c = Some []"
| "remove_spec [x] c = None"
| "remove_spec (x # y # ys) c = Some (if y = c then ys else x # y # remove1 c ys)"

lemma free_other:
  "books h q \<noteq> None \<Longrightarrow> q \<noteq> p \<Longrightarrow> books (free p line h) q = books h q"
  "nodes (free p line h) = nodes h \<or> nodes (free p line h) = (nodes h)(p := None)"
  by (auto simp: free_def split: prod.splits bool.splits)

lemma free_books: "q \<noteq> p \<Longrightarrow> books (free p line h) q = books h q"
  by (auto simp: free_def split: prod.splits bool.splits)

lemma free_nodes: "q \<noteq> p \<Longrightarrow> nodes (free p line h) q = nodes h q"
  by (auto simp: free_def split: prod.splits bool.splits)

lemma remove1_mid: "a \<notin> set xs \<Longrightarrow> remove1 a (xs @ a # ys) = xs @ ys"
  by (induction xs) auto

text \<open>Unlinking and freeing a node other than the first.\<close>

lemma unlink_represents:
  assumes "represents h book as cs" "heap_ok h" "nodes h c = None" "c \<noteq> book"
    and as: "as = xs @ u # a # ys" and u: "nodes h u = Some nu" and a: "nodes h a = Some na"
    and h': "h' = free a l1 (free c l2 (h\<lparr>nodes := (nodes h)(u \<mapsto> nu\<lparr>nxt := nxt na\<rparr>)\<rparr>))"
  shows "represents h' book (xs @ u # ys) (contacts_of (nodes h) (xs @ u # ys))"
proof -
  let ?h1 = "h\<lparr>nodes := (nodes h)(u \<mapsto> nu\<lparr>nxt := nxt na\<rparr>)\<rparr>"
  obtain head where head: "books h book = Some head" "chain (nodes h) head as" and b0: "book \<noteq> 0"
    using assms(1) by (auto simp: represents_def split: option.splits)
  have ab: "a \<noteq> book" using a head(1) assms(2) by (auto simp: heap_ok_def)
  have keep: "nodes h' z = nodes ?h1 z" if "z \<in> set (xs @ u # ys)" for z
  proof -
    have za: "z \<noteq> a" using that chain_distinct [OF head(2)] as by auto
    have "z \<in> set as" using that as by auto
    then have zc: "z \<noteq> c" using chain_dom [OF head(2), of z] assms(3) by auto
    show ?thesis unfolding h' free_nodes [OF za] free_nodes [OF zc] ..
  qed
  have "chain (nodes ?h1) head (xs @ u # ys)"
    using chain_unlink [of "nodes h" head xs u a ys nu na] head(2) as u a by simp
  then have "chain (nodes h') head (xs @ u # ys)" by (simp only: chain_cong [OF keep])
  moreover have "books h' book = Some head" using head(1) ab assms(4) by (simp add: h' free_books)
  moreover have "contacts_of (nodes h') (xs @ u # ys) = contacts_of (nodes ?h1) (xs @ u # ys)"
    by (rule contacts_of_cong) (simp only: keep)
  moreover have "contacts_of (nodes ?h1) (xs @ u # ys) = contacts_of (nodes h) (xs @ u # ys)"
    by (rule contacts_of_cong) (simp add: u)
  ultimately show ?thesis using b0 by (simp add: represents_def)
qed

text \<open>The search beyond the second node.\<close>

lemma remove_found:
  assumes rep: "represents h book (x # y # ys) cs" and ok: "heap_ok h" "nodes h c = None" "c \<noteq> book"
    and x: "nodes h x = Some nx" and y: "nodes h y = Some ny" "data ny \<noteq> c"
    and found: "c \<in> set (contacts_of (nodes h) ys)"
  shows "\<exists>u a nu na h' as'. nodes h u = Some nu \<and> nodes h a = Some na \<and> data na = c \<and> a \<in> set ys
    \<and> h' = free a 74 (free c 73 (h\<lparr>nodes := (nodes h)(u \<mapsto> nu\<lparr>nxt := nxt na\<rparr>)\<rparr>))
    \<and> remove_contact book c h = Some h' \<and> set as' \<subseteq> set (x # y # ys) - {a}
    \<and> represents h' book as' (data nx # data ny # remove1 c (contacts_of (nodes h) ys))"
proof -
  let ?P = "\<lambda>a. data (the (nodes h a)) = c"
  have head: "books h book = Some x" "x \<noteq> 0" "nxt nx = y" "chain (nodes h) y (y # ys)"
    and cs: "cs = data nx # data ny # contacts_of (nodes h) ys"
    using rep x y by (auto simp: represents_def contacts_of_def split: option.splits)
  have loop: "remove_loop (nodes h) c 0 y = Some (search ?P 0 (y # ys))"
    by (rule remove_loop_chain [OF head(4)]) simp
  have "search ?P 0 (y # ys) \<noteq> None"
    unfolding search_None using found by (auto simp: contacts_of_def)
  then obtain u a where Some: "search ?P 0 (y # ys) = Some (u, a)" by auto
  obtain ls rs where l: "y # ys = ls @ a # rs" "?P a" "\<forall>z \<in> set ls. \<not> ?P z" "u = last (0 # ls)"
    using search_Some [OF Some] by blast
  have "ls \<noteq> []" using l(1,2) y by (cases ls) auto
  then obtain ks where ks: "ls = ks @ [u]" using l(4) by (metis append_butlast_last_id last_ConsR)
  have as: "x # y # ys = (x # ks) @ u # a # rs" using l(1) ks by simp
  obtain nu na where n: "nodes h u = Some nu" "nodes h a = Some na"
    using chain_dom [OF head(4), of u] chain_dom [OF head(4), of a] l(1) ks by auto
  then have da: "data na = c" using l(2) by simp
  have ays: "a \<in> set ys" using l(1) \<open>ls \<noteq> []\<close> by (cases ls) auto
  have "chain (nodes h) x (x # y # ys)" using rep head(1) by (simp add: represents_def)
  then have "distinct ((x # ks) @ u # a # rs)" unfolding as by (rule chain_distinct)
  then have sub: "set (x # ks @ u # rs) \<subseteq> set (x # y # ys) - {a}" unfolding as by auto
  let ?h' = "free a 74 (free c 73 (h\<lparr>nodes := (nodes h)(u \<mapsto> nu\<lparr>nxt := nxt na\<rparr>)\<rparr>))"
  have rem: "remove_contact book c h = Some ?h'"
    using x y head loop Some n da by (simp add: remove_contact_def)
  have "c \<notin> set (contacts_of (nodes h) ls)" using l(3) by (auto simp: contacts_of_def)
  then have "remove1 c (contacts_of (nodes h) (y # ys)) = contacts_of (nodes h) (ls @ rs)"
    unfolding l(1) contacts_of_append using n da
    by (simp add: contacts_of_append contacts_of_def remove1_append)
  moreover have "remove1 c (contacts_of (nodes h) (y # ys)) = data ny # remove1 c (contacts_of (nodes h) ys)"
    using y by (simp add: contacts_of_def)
  ultimately have "contacts_of (nodes h) ((x # ks) @ u # rs) = data nx # data ny # remove1 c (contacts_of (nodes h) ys)"
    using x ks by (simp add: contacts_of_def)
  with unlink_represents [OF rep ok as n refl]
  have "represents ?h' book ((x # ks) @ u # rs) (data nx # data ny # remove1 c (contacts_of (nodes h) ys))" by simp
  with rem n da ays sub show ?thesis
    by (intro exI [of _ u] exI [of _ a] exI [of _ nu] exI [of _ na] exI [of _ ?h'] exI [of _ "(x # ks) @ u # rs"])
      simp
qed

lemma remove_later:
  assumes rep: "represents h book (x # y # ys) cs" and ok: "heap_ok h" "nodes h c = None" "c \<noteq> book"
    and x: "nodes h x = Some nx" and y: "nodes h y = Some ny" "data ny \<noteq> c"
  shows "\<exists>h' as'. remove_contact book c h = Some h'
    \<and> represents h' book as' (data nx # data ny # remove1 c (contacts_of (nodes h) ys))"
proof (cases "c \<in> set (contacts_of (nodes h) ys)")
  case True
  with remove_found [OF assms] show ?thesis by blast
next
  case False
  have head: "books h book = Some x" "x \<noteq> 0" "nxt nx = y" "chain (nodes h) y (y # ys)"
    and cs: "cs = data nx # data ny # contacts_of (nodes h) ys"
    using rep x y by (auto simp: represents_def contacts_of_def split: option.splits)
  have "remove_loop (nodes h) c 0 y = Some None"
    using remove_loop_chain [OF head(4), of c 0] False y
    by (auto simp: contacts_of_def search_None)
  then have "remove_contact book c h = Some h" using x y head by (simp add: remove_contact_def)
  with False rep show ?thesis by (auto simp: remove1_idem simp flip: cs)
qed

text \<open>C39: Exactly this, on every well-formed heap: the contact at the head is never found, a book
  with a single contact makes the function dereference a null pointer, removing the second
  contact also loses the first, and any later contact is removed as it should be.\<close>

theorem remove_contact_behaviour:
  assumes "represents h book as cs" "heap_ok h" "nodes h c = None" "c \<noteq> book"
  shows "case remove_spec cs c of
           None \<Rightarrow> remove_contact book c h = None
         | Some cs' \<Rightarrow> (\<exists>h' as'. remove_contact book c h = Some h' \<and> represents h' book as' cs')"
proof -
  obtain head where head: "books h book = Some head" "chain (nodes h) head as"
    and cs: "cs = contacts_of (nodes h) as" and b0: "book \<noteq> 0"
    using assms(1) by (auto simp: represents_def split: option.splits)
  have n0: "nodes h 0 = None" using assms(2) by (simp add: heap_ok_def)
  consider "as = []" | x where "as = [x]" | x y ys where "as = x # y # ys" by (cases as; cases "tl as") auto
  then show ?thesis
  proof cases
    case 1
    with head cs assms(1) show ?thesis by (auto simp: remove_contact_def contacts_of_def)
  next
    case 2
    with head cs n0 show ?thesis by (auto simp: remove_contact_def contacts_of_def split: option.splits)
  next
    case 3
    with head(2) obtain nx ny where n: "head = x" "nodes h x = Some nx" "nxt nx = y" "y \<noteq> 0" "x \<noteq> 0"
      "nodes h y = Some ny" "chain (nodes h) (nxt ny) ys"
      by (auto split: option.splits)
    have cs': "cs = data nx # data ny # contacts_of (nodes h) ys" using cs 3 n by (simp add: contacts_of_def)
    show ?thesis
    proof (cases "data ny = c")
      case True
      with n head have "remove_contact book c h = Some (h\<lparr>books := (books h)(book \<mapsto> nxt ny)\<rparr>)"
        by (simp add: remove_contact_def)
      moreover have "represents (h\<lparr>books := (books h)(book \<mapsto> nxt ny)\<rparr>) book ys (contacts_of (nodes h) ys)"
        using n b0 by (simp add: represents_def)
      ultimately show ?thesis using True cs' by auto
    next
      case False
      with remove_later [OF assms(1) [unfolded 3] assms(2-4) n(2,6)] cs' show ?thesis by simp
    qed
  qed
qed

text \<open>\<^verbatim>\<open>free_address_book\<close> frees the book only: the list it walks over, its nodes and
  contacts, stay as they are, and the tracker still counts them as allocated.\<close>

theorem free_address_book_leaks:
  assumes "represents h book as cs" "heap_ok h" "tracker_inv (tracker h)"
  shows "\<exists>h'. free_address_book book h = Some h' \<and> nodes h' = nodes h \<and> contacts h' = contacts h
    \<and> tracker_live (tracker h') = (tracker_live (tracker h))(book := None)"
proof -
  obtain head where head: "books h book = Some head" "chain (nodes h) head as" and b0: "book \<noteq> 0"
    using assms(1) by (auto simp: represents_def split: option.splits)
  then have "nodes h book = None" "contacts h book = None"
    using assms(2) by (auto simp: heap_ok_def)
  then have "nodes (free book 136 h) = nodes h" "contacts (free book 136 h) = contacts h"
    by (auto simp: free_def fun_upd_idem split: prod.splits bool.splits)
  moreover have "tracker_live (tracker (free book 136 h)) = (tracker_live (tracker h))(book := None)"
    using tracker_free(2) [OF assms(3), of book "ucast (136 :: u32)"]
    by (auto simp: free_def my_free_def split: prod.splits bool.splits)
  moreover have "free_address_book book h = Some (free book 136 h)"
    using b0 head walk_chain [OF head(2)] by (simp add: free_address_book_def)
  ultimately show ?thesis by auto
qed

text \<open>A small book: at 1 with the contacts 20 and 30 in the nodes 2 and 3.\<close>

definition small_heap :: heap where
  "small_heap = \<lparr>books = [1 \<mapsto> 2], nodes = [2 \<mapsto> \<lparr>data = 20, nxt = 3\<rparr>, 3 \<mapsto> \<lparr>data = 30, nxt = 0\<rparr>],
     contacts = Map.empty, mallocs = [4, 5], tracker = tracker_init\<rparr>"

lemma small_heap_book:
  "represents small_heap 1 [2, 3] [20, 30]" "heap_ok small_heap"
  by (auto simp: represents_def contacts_of_def small_heap_def heap_ok_def)

theorem add_contact_appends_witness:
  "\<exists>h'. add_contact 1 40 small_heap = Some h' \<and> represents h' 1 [2, 3, 4] [20, 30, 40]"
  using add_contact_appends [OF small_heap_book, of 4 "[5]" 40] by (auto simp: small_heap_def)

theorem count_contacts_length_witness: "count_contacts 1 small_heap = Some 2"
  using count_contacts_length [OF small_heap_book(1)] by simp

theorem remove_contact_behaviour_witness:
  "\<exists>h' as'. remove_contact 1 30 small_heap = Some h' \<and> represents h' 1 as' []"
  using remove_contact_behaviour [OF small_heap_book, of 30] by (simp add: small_heap_def)

theorem free_address_book_leaks_witness:
  "\<exists>h'. free_address_book 1 small_heap = Some h' \<and> nodes h' 2 = Some \<lparr>data = 20, nxt = 3\<rparr>"
  using free_address_book_leaks [OF small_heap_book] tracker_init_inv(1) by (auto simp: small_heap_def)

text \<open>The comparison meant for sorting by name is an equality test, so it orders nothing.\<close>

lemma compare_by_name_equality:
  "contacts h a = Some c1 \<Longrightarrow> contacts h b = Some c2 \<Longrightarrow> compare_by_name a b h = Some (c1 = c2)"
  by (cases c1; cases c2) (auto simp: compare_by_name_def)

text \<open>A duplicate has the data of the original, at a new address.\<close>

lemma duplicate_contact_data:
  assumes "contacts h a = Some c" "a \<noteq> 0" "mallocs h = p # ps" "p \<noteq> 0" "fits (first_name c)" "fits (last_name c)" "fits (email c)"
  shows "\<exists>h'. duplicate_contact a h = Some (p, h') \<and> contacts h' p = Some c"
  using assms by (cases c) (auto simp: duplicate_contact_def create_contact_def malloc_def)

end
