(* ===== verification/AddressBookTests.thy ===== *)
theory AddressBookTests
  imports AddressBook
begin

text \<open>
  The tests of the address book, \<^verbatim>\<open>exercise01/task1/main.c\<close>, and the test framework of
  \<^verbatim>\<open>includes/testing.h\<close>. The tests run one after the other on one heap and one memory tracker.
\<close>

section \<open>The framework\<close>

text \<open>
  A test says whether it has passed; an assertion that fails returns from the function it stands
  in, without running the rest. \<open>None\<close> is a crash.
\<close>

type_synonym test = "heap \<Rightarrow> (bool \<times> heap) option"

definition ASSERT :: "bool \<Rightarrow> test \<Rightarrow> test" where
  "ASSERT condition rest h = (if \<not> condition then Some (False, h) else rest h)"

definition pass :: test where "pass h = Some (True, h)"

definition ASSERT_CLEAN_MEMORY_HANDLING :: "test \<Rightarrow> test" where
  "ASSERT_CLEAN_MEMORY_HANDLING rest h = ASSERT (check_clean_memory_handling (tracker h)) rest h"

text \<open>\<^verbatim>\<open>__tt__test_count__\<close> and \<^verbatim>\<open>__tt__test_failed__\<close> with the heap.\<close>

record tests =
  test_count :: int
  test_failed :: int
  test_heap :: heap

definition failed :: "bool \<Rightarrow> heap \<Rightarrow> tests \<Rightarrow> tests" where
  "failed ok h s = s\<lparr>test_failed := (if ok then test_failed s else test_failed s + 1), test_heap := h\<rparr>"

definition RUN_TEST :: "test \<Rightarrow> tests \<Rightarrow> tests option" where
  "RUN_TEST test s =
     do { let s = s\<lparr>test_count := test_count s + 1\<rparr>;
          (ok, h) \<leftarrow> test (test_heap s);
          Some (failed ok h s) }"

definition RUN_TEST_WITH_SETUP_CLEANUP :: "('b \<Rightarrow> test) \<Rightarrow> (heap \<Rightarrow> ('b \<times> heap) option) \<Rightarrow> ('b \<Rightarrow> test)
    \<Rightarrow> tests \<Rightarrow> tests option" where
  "RUN_TEST_WITH_SETUP_CLEANUP test setup cleanup s =
     do { let s = s\<lparr>test_count := test_count s + 1\<rparr>;
          (var, h) \<leftarrow> setup (test_heap s);
          (ok, h) \<leftarrow> test var h;
          let s = failed ok h s;
          (ok, h) \<leftarrow> cleanup var h;
          Some (failed ok h s) }"

text \<open>The summary: tests run, passed and failed.\<close>

definition PRINT_TEST_RESULTS :: "tests \<Rightarrow> int \<times> int \<times> int" where
  "PRINT_TEST_RESULTS s = (test_count s, test_count s - test_failed s, test_failed s)"

section \<open>The tests\<close>

definition add_new :: "addr \<Rightarrow> string \<Rightarrow> string \<Rightarrow> int \<Rightarrow> string \<Rightarrow> heap \<Rightarrow> heap option" where
  "add_new book fname lname years mail h =
     do { (c, h) \<leftarrow> create_contact (bytes fname) (bytes lname) years (bytes mail) h;
          add_contact book c h }"

text \<open>The bundle is the book and the contact Max Mustermann.\<close>

definition setup_book :: "heap \<Rightarrow> ((addr \<times> addr) \<times> heap) option" where
  "setup_book h =
     do { (book, h) \<leftarrow> create_address_book h;
          h \<leftarrow> add_new book ''John'' ''Doe'' 30 ''jon@doe.at'' h;
          h \<leftarrow> add_new book ''Jane'' ''Doe'' 28 ''jane@doe.at'' h;
          (contact, h) \<leftarrow> create_contact (bytes ''Max'') (bytes ''Mustermann'') 15 (bytes ''max@mustermann.at'') h;
          h \<leftarrow> add_contact book contact h;
          h \<leftarrow> add_new book ''Erika'' ''Musterfrau'' 23 ''erika@musterfrau.at'' h;
          h \<leftarrow> add_new book ''Hans'' ''Huber'' 12 ''hans@huber.de'' h;
          h \<leftarrow> add_new book ''Anna'' ''Huber'' 7 ''anna@huber.de'' h;
          Some ((book, contact), h) }"

definition cleanup_book :: "addr \<times> addr \<Rightarrow> test" where
  "cleanup_book bundle h =
     do { h \<leftarrow> free_address_book (fst bundle) h;
          ASSERT_CLEAN_MEMORY_HANDLING pass h }"

definition test_init_free_address_book :: test where
  "test_init_free_address_book h =
     do { (book, h) \<leftarrow> create_address_book h;
          ASSERT (book \<noteq> 0) (\<lambda>h. do { h \<leftarrow> free_address_book book h; ASSERT_CLEAN_MEMORY_HANDLING pass h }) h }"

definition test_add_contact :: test where
  "test_add_contact h =
     do { (book, h) \<leftarrow> create_address_book h;
          (contact, h) \<leftarrow> create_contact (bytes ''John'') (bytes ''Doe'') 30 (bytes ''jon@doe.at'') h;
          ASSERT (contact \<noteq> 0) (\<lambda>h. do {
            h \<leftarrow> add_contact book contact h;
            n \<leftarrow> count_contacts book h;
            ASSERT (1 = n) (\<lambda>h. do {
              h \<leftarrow> add_new book ''Jane'' ''Doe'' 28 ''jane@doe.at'' h;
              h \<leftarrow> add_new book ''Max'' ''Mustermann'' 15 ''max@mustermann.at'' h;
              h \<leftarrow> add_new book ''Erika'' ''Musterfrau'' 23 ''erika@musterfrau.at'' h;
              h \<leftarrow> add_new book ''Hans'' ''Huber'' 12 ''hans@huber.de'' h;
              h \<leftarrow> add_new book ''Anna'' ''Huber'' 7 ''anna@huber.de'' h;
              n \<leftarrow> count_contacts book h;
              ASSERT (6 = n) (\<lambda>h. do {
                h \<leftarrow> free_address_book book h;
                ASSERT_CLEAN_MEMORY_HANDLING pass h }) h }) h }) h }"

definition test_find_existing_contact :: "addr \<times> addr \<Rightarrow> test" where
  "test_find_existing_contact bundle h =
     do { c \<leftarrow> contacts h (snd bundle);
          let contact = find_contact (fst bundle) (first_name c) (last_name c) h;
          ASSERT (contact \<noteq> 0)
            (ASSERT (snd bundle = contact) (\<lambda>h. do {
               d \<leftarrow> contacts h contact;
               ASSERT (bytes ''Max'' = first_name d)
                 (ASSERT (bytes ''Mustermann'' = last_name d)
                   (ASSERT (15 = age d)
                     (ASSERT (bytes ''max@mustermann.at'' = email d) pass))) h })) h }"

definition test_non_existing_contact :: "addr \<times> addr \<Rightarrow> test" where
  "test_non_existing_contact bundle h =
     ASSERT (find_contact (fst bundle) (bytes ''NOT'') (bytes ''INSIDE'') h = 0) pass h"

definition test_remove_contact :: "addr \<times> addr \<Rightarrow> test" where
  "test_remove_contact bundle h =
     do { n \<leftarrow> count_contacts (fst bundle) h;
          ASSERT (6 = n) (\<lambda>h. do {
            h \<leftarrow> remove_contact (fst bundle) (snd bundle) h;
            ASSERT (find_contact (fst bundle) (bytes ''Max'') (bytes ''Mustermann'') h = 0) (\<lambda>h. do {
              n \<leftarrow> count_contacts (fst bundle) h;
              ASSERT (5 = n) pass h }) h }) h }"

text \<open>The nodes from \<open>current\<close> on hold contacts with these first names.\<close>

fun assert_names :: "string list \<Rightarrow> addr \<Rightarrow> test \<Rightarrow> test" where
  "assert_names [] current rest h = rest h"
| "assert_names (name # names) current rest h =
     do { n \<leftarrow> nodes h current;
          c \<leftarrow> contacts h (data n);
          ASSERT (bytes name = first_name c) (assert_names names (nxt n) rest) h }"

definition test_sort_address_book :: "addr \<times> addr \<Rightarrow> test" where
  "test_sort_address_book bundle h =
     do { let h = sort_address_book (fst bundle) h;
          ASSERT (fst bundle \<noteq> 0) (\<lambda>h. do {
            current \<leftarrow> books h (fst bundle);
            ASSERT (current \<noteq> 0)
              (assert_names [''Anna'', ''Erika'', ''Hans'', ''Jane'', ''John'', ''Max''] current pass) h }) h }"

definition test_filter_address_book :: "addr \<times> addr \<Rightarrow> test" where
  "test_filter_address_book bundle h =
     do { let (book, h) = filter_address_book (fst bundle) h;
          n \<leftarrow> count_contacts book h;
          ASSERT (3 = n) (\<lambda>h. do {
            current \<leftarrow> books h book;
            ASSERT (current \<noteq> 0)
              (assert_names [''John'', ''Jane'', ''Erika''] current (\<lambda>h. do {
                 h \<leftarrow> free_address_book book h;
                 pass h })) h }) h }"

definition tests_init :: "addr list \<Rightarrow> tests" where
  "tests_init addresses = \<lparr>test_count = 0, test_failed = 0, test_heap =
     \<lparr>books = Map.empty, nodes = Map.empty, contacts = Map.empty, mallocs = addresses,
      tracker = tracker_init\<rparr>\<rparr>"

definition address_book_tests :: "addr list \<Rightarrow> tests option" where
  "address_book_tests addresses =
     do { let s = tests_init addresses;
          s \<leftarrow> RUN_TEST test_init_free_address_book s;
          s \<leftarrow> RUN_TEST test_add_contact s;
          s \<leftarrow> RUN_TEST_WITH_SETUP_CLEANUP test_find_existing_contact setup_book cleanup_book s;
          s \<leftarrow> RUN_TEST_WITH_SETUP_CLEANUP test_non_existing_contact setup_book cleanup_book s;
          s \<leftarrow> RUN_TEST_WITH_SETUP_CLEANUP test_remove_contact setup_book cleanup_book s;
          s \<leftarrow> RUN_TEST_WITH_SETUP_CLEANUP test_sort_address_book setup_book cleanup_book s;
          RUN_TEST_WITH_SETUP_CLEANUP test_filter_address_book setup_book cleanup_book s }"

section \<open>Heaps with memory left\<close>

text \<open>
  At least \<open>n\<close> more allocations succeed with fresh addresses and find a free slot of the tracker,
  which has counted \<open>A\<close> allocated and \<open>F\<close> freed bytes and no error.
\<close>

definition ready :: "nat \<Rightarrow> u64 \<Rightarrow> u64 \<Rightarrow> heap \<Rightarrow> bool" where
  "ready n A F h \<longleftrightarrow> heap_ok h \<and> tracker_inv (tracker h) \<and> error (tracker h) = 0
     \<and> total_allocated_memory (tracker h) = A \<and> total_freed_memory (tracker h) = F
     \<and> n \<le> length (mallocs h) \<and> distinct (mallocs h) \<and> 0 \<notin> set (mallocs h)
     \<and> card (dom (tracker_live (tracker h))) + n \<le> MEMORY_TRACKER_SIZE
     \<and> (\<forall>p \<in> set (mallocs h). books h p = None \<and> nodes h p = None \<and> contacts h p = None
          \<and> tracker_live (tracker h) p = None)"

lemma finite_live: "finite (dom (tracker_live t))"
  by (simp add: live_entries finite_dom_map_of)

lemma allocate_succeeds:
  assumes "tracker_inv t" "a \<noteq> 0" "tracker_live t a = None" "card (dom (tracker_live t)) < MEMORY_TRACKER_SIZE"
  shows "tracker_inv (allocate_memory t a sz ln)"
    "tracker_live (allocate_memory t a sz ln) = (tracker_live t)(a \<mapsto> (sz, ln))"
    "error (allocate_memory t a sz ln) = error t"
    "total_allocated_memory (allocate_memory t a sz ln) = total_allocated_memory t + sz"
    "total_freed_memory (allocate_memory t a sz ln) = total_freed_memory t"
    "card (dom (tracker_live (allocate_memory t a sz ln))) = Suc (card (dom (tracker_live t)))"
proof -
  show "tracker_inv (allocate_memory t a sz ln)" by (rule tracker_alloc(1) [OF assms(1,3)])
  show live: "tracker_live (allocate_memory t a sz ln) = (tracker_live t)(a \<mapsto> (sz, ln))"
    using tracker_alloc(2) [OF assms(1,3)] assms(2,4) by simp
  obtain i where "find_address t 0 = Some i" using dom_live [OF assms(1)] assms(4) by fastforce
  then show "error (allocate_memory t a sz ln) = error t"
    "total_allocated_memory (allocate_memory t a sz ln) = total_allocated_memory t + sz"
    "total_freed_memory (allocate_memory t a sz ln) = total_freed_memory t"
    using assms(2) by (simp_all add: allocate_memory_def)
  show "card (dom (tracker_live (allocate_memory t a sz ln))) = Suc (card (dom (tracker_live t)))"
    unfolding live using assms(3) finite_live by (simp add: domIff)
qed

lemma free_succeeds:
  assumes "tracker_inv t" "tracker_live t a = Some (sz, l)"
  obtains t' where "free_memory t a ln = (True, t')" "tracker_inv t'" "tracker_live t' = (tracker_live t)(a := None)"
    "error t' = error t" "total_allocated_memory t' = total_allocated_memory t"
    "total_freed_memory t' = total_freed_memory t + sz"
proof -
  have a: "a \<noteq> 0" using assms(2) by (auto simp: tracker_live_def)
  then obtain i where i: "find_address t a = Some i" "msize (memory t ! i) = sz"
    using assms(2) by (auto simp: tracker_live_def)
  then show thesis using that tracker_free(1,2) [OF assms(1), of a ln] a
    by (simp add: free_memory_def)
qed

lemma malloc_ready:
  assumes "ready (Suc n) A F h"
  obtains p h' where "malloc sz ln h = (p, h')" "p \<noteq> 0" "mallocs h = p # mallocs h'" "ready n (A + sz) F h'"
    "books h' = books h" "nodes h' = nodes h" "contacts h' = contacts h"
    "books h p = None" "nodes h p = None" "contacts h p = None" "p \<notin> set (mallocs h')"
    "tracker_live (tracker h) p = None" "tracker_live (tracker h') = (tracker_live (tracker h))(p \<mapsto> (sz, ucast ln))"
proof -
  obtain p ps where m: "mallocs h = p # ps" using assms by (cases "mallocs h") (auto simp: ready_def)
  define h' where "h' = h\<lparr>mallocs := ps, tracker := my_malloc (tracker h) p sz ln\<rparr>"
  have p: "p \<noteq> 0" "books h p = None" "nodes h p = None" "contacts h p = None" "p \<notin> set ps"
      "tracker_live (tracker h) p = None"
    using assms m by (auto simp: ready_def)
  have "card (dom (tracker_live (tracker h))) < MEMORY_TRACKER_SIZE" using assms by (simp add: ready_def)
  note a = allocate_succeeds [OF _ p(1,6) this, of sz "ucast ln"]
  have inv: "tracker_inv (tracker h)" using assms by (simp add: ready_def)
  have r: "ready n (A + sz) F h'"
    using assms p m a [OF inv] by (auto simp: ready_def h'_def my_malloc_def heap_ok_def)
  have h: "malloc sz ln h = (p, h')" "mallocs h = p # mallocs h'" by (simp_all add: malloc_def m h'_def)
  have l: "tracker_live (tracker h') = (tracker_live (tracker h))(p \<mapsto> (sz, ucast ln))"
    using a(2) [OF inv] by (simp add: h'_def my_malloc_def)
  show thesis by (rule that [OF h(1) p(1) h(2) r _ _ _ p(2-4) _ p(6) l]) (simp_all add: h'_def p(5))
qed

text \<open>Giving back an object.\<close>

lemma free_ready:
  assumes "ready n A F h" "tracker_live (tracker h) p = Some (sz, l)"
  shows "ready n A (F + sz) (free p ln h)"
    "tracker_live (tracker (free p ln h)) = (tracker_live (tracker h))(p := None)"
    "books (free p ln h) = (books h)(p := None)" "nodes (free p ln h) = (nodes h)(p := None)"
    "contacts (free p ln h) = (contacts h)(p := None)"
proof -
  have inv: "tracker_inv (tracker h)" using assms(1) by (simp add: ready_def)
  obtain t' where t: "free_memory (tracker h) p (ucast ln) = (True, t')" "tracker_inv t'"
      "tracker_live t' = (tracker_live (tracker h))(p := None)" "error t' = error (tracker h)"
      "total_allocated_memory t' = total_allocated_memory (tracker h)"
      "total_freed_memory t' = total_freed_memory (tracker h) + sz"
    by (rule free_succeeds [OF inv assms(2)])
  have f: "free p ln h = h\<lparr>tracker := t', books := (books h)(p := None), nodes := (nodes h)(p := None),
      contacts := (contacts h)(p := None)\<rparr>" by (simp add: free_def my_free_def t(1))
  show "tracker_live (tracker (free p ln h)) = (tracker_live (tracker h))(p := None)"
    "books (free p ln h) = (books h)(p := None)" "nodes (free p ln h) = (nodes h)(p := None)"
    "contacts (free p ln h) = (contacts h)(p := None)" by (simp_all add: f t(3))
  have "card (dom (tracker_live t')) \<le> card (dom (tracker_live (tracker h)))"
    unfolding t(3) by (simp add: card_mono finite_live)
  then show "ready n A (F + sz) (free p ln h)" using assms(1) t
    by (auto simp: ready_def f heap_ok_def)
qed

text \<open>
  \<open>holds_book n A F h book as cs ns\<close>: a ready heap with the book whose list has the nodes \<open>as\<close>, the
  contacts \<open>cs\<close> and the first names \<open>ns\<close>, all of which the tracker knows.
\<close>

definition holds_book :: "nat \<Rightarrow> u64 \<Rightarrow> u64 \<Rightarrow> heap \<Rightarrow> addr \<Rightarrow> addr list \<Rightarrow> addr list \<Rightarrow> string list \<Rightarrow> bool" where
  "holds_book n A F h book as cs ns \<longleftrightarrow> ready n A F h \<and> represents h book as cs \<and> distinct cs
     \<and> map_option fst (tracker_live (tracker h) book) = Some 8
     \<and> (\<forall>a \<in> set as. map_option fst (tracker_live (tracker h) a) = Some 16)
     \<and> (\<forall>c \<in> set cs. map_option fst (tracker_live (tracker h) c) = Some 156)
     \<and> map (\<lambda>c. map_option first_name (contacts h c)) cs = map (\<lambda>n. Some (bytes n)) ns"

lemma holds_live:
  assumes "holds_book n A F h book as cs ns" "tracker_live (tracker h) p = None"
  shows "p \<notin> set cs" "p \<notin> set as" "p \<noteq> book"
  using assms by (fastforce simp: holds_book_def)+

lemma create_book_holds:
  assumes "ready (Suc n) A F h"
  obtains book h' where "create_address_book h = Some (book, h')" "holds_book n (A + 8) F h' book [] [] []"
proof -
  obtain p h1 where p: "malloc sizeof_book 4 h = (p, h1)" "p \<noteq> 0" "mallocs h = p # mallocs h1"
      "ready n (A + sizeof_book) F h1" "books h1 = books h" "nodes h1 = nodes h" "contacts h1 = contacts h"
      "books h p = None" "nodes h p = None" "contacts h p = None" "p \<notin> set (mallocs h1)"
      "tracker_live (tracker h) p = None" "tracker_live (tracker h1) = (tracker_live (tracker h))(p \<mapsto> (sizeof_book, ucast (4 :: u32)))"
    by (rule malloc_ready [OF assms, where sz = sizeof_book and ln = 4])
  let ?h = "h1\<lparr>books := (books h1)(p \<mapsto> 0)\<rparr>"
  have "ready n (A + 8) F ?h" using p by (auto simp: ready_def heap_ok_def sizeof_book_def)
  moreover have "represents ?h p [] []" using p(2) by (simp add: represents_def contacts_of_def)
  ultimately have "holds_book n (A + 8) F ?h p [] [] []"
    using p(13) by (simp add: holds_book_def sizeof_book_def)
  moreover have "create_address_book h = Some (p, ?h)" using p by (simp add: create_address_book_def)
  ultimately show thesis by (rule that [rotated])
qed

lemma create_contact_holds:
  assumes "holds_book (Suc n) A F h book as cs ns" "fits fname" "fits lname" "fits mail"
  shows "\<exists>c h'. create_contact fname lname years mail h = Some (c, h')
    \<and> holds_book n (A + 156) F h' book as cs ns \<and> c \<notin> set cs
    \<and> contacts h' c = Some \<lparr>first_name = fname, last_name = lname, age = years, email = mail\<rparr>
    \<and> map_option fst (tracker_live (tracker h') c) = Some 156"
proof -
  have r: "ready (Suc n) A F h" using assms(1) by (simp add: holds_book_def)
  obtain p h1 where p: "malloc sizeof_contact 10 h = (p, h1)" "p \<noteq> 0" "mallocs h = p # mallocs h1"
      "ready n (A + sizeof_contact) F h1" "books h1 = books h" "nodes h1 = nodes h" "contacts h1 = contacts h"
      "books h p = None" "nodes h p = None" "contacts h p = None" "p \<notin> set (mallocs h1)"
      "tracker_live (tracker h) p = None" "tracker_live (tracker h1) = (tracker_live (tracker h))(p \<mapsto> (sizeof_contact, ucast (10 :: u32)))"
    by (rule malloc_ready [OF r, where sz = sizeof_contact and ln = 10])
  let ?h = "h1\<lparr>contacts := (contacts h1)(p \<mapsto> \<lparr>first_name = fname, last_name = lname, age = years, email = mail\<rparr>)\<rparr>"
  note new = holds_live [OF assms(1) p(12)]
  have "ready n (A + 156) F ?h" using p by (auto simp: ready_def heap_ok_def sizeof_contact_def)
  moreover have "represents ?h book as cs" using assms(1) p by (auto simp: holds_book_def represents_def split: option.splits)
  moreover have "map (\<lambda>c. map_option first_name (contacts ?h c)) cs = map (\<lambda>c. map_option first_name (contacts h c)) cs"
    using new p(7) by (intro map_cong) auto
  then have "map (\<lambda>c. map_option first_name (contacts ?h c)) cs = map (\<lambda>n. Some (bytes n)) ns"
    using assms(1) by (simp only: holds_book_def)
  ultimately have "holds_book n (A + 156) F ?h book as cs ns"
    using assms(1) p(13) new unfolding holds_book_def by auto
  moreover have "create_contact fname lname years mail h = Some (p, ?h)"
    using p assms(2-4) by (simp add: create_contact_def)
  ultimately show ?thesis using p(13) new by (auto simp: sizeof_contact_def)
qed

lemma add_contact_holds:
  assumes "holds_book (Suc n) A F h book as cs ns" "c \<notin> set cs" "contacts h c = Some r"
    "first_name r = bytes name" "map_option fst (tracker_live (tracker h) c) = Some 156"
  shows "\<exists>a h'. add_contact book c h = Some h' \<and> holds_book n (A + 16) F h' book (as @ [a]) (cs @ [c]) (ns @ [name])"
proof -
  have r: "ready (Suc n) A F h" and rep: "represents h book as cs" using assms(1) by (simp_all add: holds_book_def)
  obtain p h1 where p: "malloc sizeof_node 25 h = (p, h1)" "p \<noteq> 0" "mallocs h = p # mallocs h1"
      "ready n (A + sizeof_node) F h1" "books h1 = books h" "nodes h1 = nodes h" "contacts h1 = contacts h"
      "books h p = None" "nodes h p = None" "contacts h p = None" "p \<notin> set (mallocs h1)"
      "tracker_live (tracker h) p = None" "tracker_live (tracker h1) = (tracker_live (tracker h))(p \<mapsto> (sizeof_node, ucast (25 :: u32)))"
    by (rule malloc_ready [OF r, where sz = sizeof_node and ln = 25])
  have ok: "heap_ok h" using r by (simp add: ready_def)
  obtain h' where h': "add_contact book c h = Some h'" "represents h' book (as @ [p]) (cs @ [c])" "heap_ok h'"
    using add_contact_list [OF rep ok p(3,2,9,8,10)] by blast
  note f = add_contact_frame [OF h'(1) p(3)]
  have "tracker h1 = tracker (snd (malloc sizeof_node 25 h))" using p(1) by simp
  then have t: "tracker h1 = tracker h'" "mallocs h1 = mallocs h'"
    using p(3) f by (simp_all add: malloc_def)
  have free: "books h' q = None \<and> nodes h' q = None" if "q \<in> set (mallocs h1)" for q
  proof -
    have "books h q = None" "nodes h q = None" "q \<noteq> p" using that p(3,4,5,6,11) by (auto simp: ready_def)
    with f(2,3) show ?thesis by (metis domIff insert_iff)
  qed
  have "ready n (A + 16) F h'"
    using p(4,7) t h'(3) free f(1) by (simp add: ready_def sizeof_node_def)
  moreover note holds_live [OF assms(1) p(12)]
  ultimately have "holds_book n (A + 16) F h' book (as @ [p]) (cs @ [c]) (ns @ [name])"
    using assms h'(2) f(1) p(12,13) t by (auto simp: holds_book_def sizeof_node_def)
  then show ?thesis using h'(1) by blast
qed

section \<open>The parts of the tests\<close>

lemma add_new_holds:
  assumes "holds_book (Suc (Suc n)) A F h book as cs ns" "fits (bytes fname)" "fits (bytes lname)" "fits (bytes mail)"
  shows "\<exists>a c h'. add_new book fname lname years mail h = Some h'
    \<and> holds_book n (A + 172) F h' book (as @ [a]) (cs @ [c]) (ns @ [fname])"
proof -
  obtain c h1 where c: "create_contact (bytes fname) (bytes lname) years (bytes mail) h = Some (c, h1)"
      "holds_book (Suc n) (A + 156) F h1 book as cs ns" "c \<notin> set cs"
      "contacts h1 c = Some \<lparr>first_name = bytes fname, last_name = bytes lname, age = years, email = bytes mail\<rparr>"
      "map_option fst (tracker_live (tracker h1) c) = Some 156"
    using create_contact_holds [OF assms(1-4), of years] by blast
  obtain a h' where "add_contact book c h1 = Some h'"
      "holds_book n (A + 156 + 16) F h' book (as @ [a]) (cs @ [c]) (ns @ [fname])"
    using add_contact_holds [OF c(2-4) _ c(5), of fname] by auto
  then have "holds_book n (A + 172) F h' book (as @ [a]) (cs @ [c]) (ns @ [fname])" by (simp add: add.commute)
  moreover have "add_new book fname lname years mail h = Some h'"
    using c(1) \<open>add_contact book c h1 = Some h'\<close> by (simp add: add_new_def)
  ultimately show ?thesis by blast
qed

definition first_names :: "string list" where
  "first_names = [''John'', ''Jane'', ''Max'', ''Erika'', ''Hans'', ''Anna'']"

lemma fits_short: "length s < 50 \<Longrightarrow> fits (bytes s)"
  by (simp add: fits_def bytes_def)

lemma setup_holds:
  assumes "ready (n + 13) A F h"
  obtains book contact as cs h' where "setup_book h = Some ((book, contact), h')"
    "holds_book n (A + 1040) F h' book as cs first_names" "cs ! 2 = contact"
proof -
  have "ready (Suc (n + 12)) A F h" using assms by (simp add: eval_nat_numeral)
  then obtain book h0 where b: "create_address_book h = Some (book, h0)" "holds_book (n + 12) (A + 8) F h0 book [] [] []"
    by (rule create_book_holds)
  from b(2) have "holds_book (Suc (Suc (n + 10))) (A + 8) F h0 book [] [] []" by (simp add: eval_nat_numeral)
  from add_new_holds [OF this, of "''John''" "''Doe''" "''jon@doe.at''" 30]
  obtain a1 c1 h1 where 1: "add_new book ''John'' ''Doe'' 30 ''jon@doe.at'' h0 = Some h1"
      "holds_book (n + 10) (A + 8 + 172) F h1 book [a1] [c1] [''John'']" by (auto simp: fits_short)
  from 1(2) have "holds_book (Suc (Suc (n + 8))) (A + 8 + 172) F h1 book [a1] [c1] [''John'']"
    by (simp add: eval_nat_numeral)
  from add_new_holds [OF this, of "''Jane''" "''Doe''" "''jane@doe.at''" 28]
  obtain a2 c2 h2 where 2: "add_new book ''Jane'' ''Doe'' 28 ''jane@doe.at'' h1 = Some h2"
      "holds_book (n + 8) (A + 8 + 172 + 172) F h2 book [a1, a2] [c1, c2] [''John'', ''Jane'']"
    by (auto simp: fits_short)
  from 2(2) have "holds_book (Suc (n + 7)) (A + 8 + 172 + 172) F h2 book [a1, a2] [c1, c2] [''John'', ''Jane'']"
    by (simp add: eval_nat_numeral)
  from create_contact_holds [OF this, of "bytes ''Max''" "bytes ''Mustermann''" "bytes ''max@mustermann.at''" 15]
  obtain c h3 where 3: "create_contact (bytes ''Max'') (bytes ''Mustermann'') 15 (bytes ''max@mustermann.at'') h2 = Some (c, h3)"
      "holds_book (n + 7) (A + 8 + 172 + 172 + 156) F h3 book [a1, a2] [c1, c2] [''John'', ''Jane'']" "c \<notin> set [c1, c2]"
      "contacts h3 c = Some \<lparr>first_name = bytes ''Max'', last_name = bytes ''Mustermann'', age = 15, email = bytes ''max@mustermann.at''\<rparr>"
      "map_option fst (tracker_live (tracker h3) c) = Some 156" by (auto simp: fits_short)
  from 3(2) have "holds_book (Suc (n + 6)) (A + 8 + 172 + 172 + 156) F h3 book [a1, a2] [c1, c2] [''John'', ''Jane'']"
    by (simp add: eval_nat_numeral)
  from add_contact_holds [OF this 3(3,4) _ 3(5), of "''Max''"]
  obtain a3 h4 where 4: "add_contact book c h3 = Some h4"
      "holds_book (n + 6) (A + 8 + 172 + 172 + 156 + 16) F h4 book [a1, a2, a3] [c1, c2, c] [''John'', ''Jane'', ''Max'']"
    by auto
  from 4(2) have "holds_book (Suc (Suc (n + 4))) (A + 8 + 172 + 172 + 156 + 16) F h4 book [a1, a2, a3] [c1, c2, c] [''John'', ''Jane'', ''Max'']"
    by (simp add: eval_nat_numeral)
  from add_new_holds [OF this, of "''Erika''" "''Musterfrau''" "''erika@musterfrau.at''" 23]
  obtain a4 c4 h5 where 5: "add_new book ''Erika'' ''Musterfrau'' 23 ''erika@musterfrau.at'' h4 = Some h5"
      "holds_book (n + 4) (A + 8 + 172 + 172 + 156 + 16 + 172) F h5 book [a1, a2, a3, a4] [c1, c2, c, c4]
         [''John'', ''Jane'', ''Max'', ''Erika'']" by (auto simp: fits_short)
  from 5(2) have "holds_book (Suc (Suc (n + 2))) (A + 8 + 172 + 172 + 156 + 16 + 172) F h5 book [a1, a2, a3, a4]
      [c1, c2, c, c4] [''John'', ''Jane'', ''Max'', ''Erika'']" by (simp add: eval_nat_numeral)
  from add_new_holds [OF this, of "''Hans''" "''Huber''" "''hans@huber.de''" 12]
  obtain a5 c5 h6 where 6: "add_new book ''Hans'' ''Huber'' 12 ''hans@huber.de'' h5 = Some h6"
      "holds_book (n + 2) (A + 8 + 172 + 172 + 156 + 16 + 172 + 172) F h6 book [a1, a2, a3, a4, a5] [c1, c2, c, c4, c5]
         [''John'', ''Jane'', ''Max'', ''Erika'', ''Hans'']" by (auto simp: fits_short)
  from 6(2) have "holds_book (Suc (Suc n)) (A + 8 + 172 + 172 + 156 + 16 + 172 + 172) F h6 book [a1, a2, a3, a4, a5]
      [c1, c2, c, c4, c5] [''John'', ''Jane'', ''Max'', ''Erika'', ''Hans'']" by (simp add: eval_nat_numeral)
  from add_new_holds [OF this, of "''Anna''" "''Huber''" "''anna@huber.de''" 7]
  obtain a6 c6 h7 where 7: "add_new book ''Anna'' ''Huber'' 7 ''anna@huber.de'' h6 = Some h7"
      "holds_book n (A + 8 + 172 + 172 + 156 + 16 + 172 + 172 + 172) F h7 book [a1, a2, a3, a4, a5, a6]
         [c1, c2, c, c4, c5, c6] first_names" by (auto simp: fits_short first_names_def)
  have "setup_book h = Some ((book, c), h7)" using b 1 2 3 4 5 6 7 by (simp add: setup_book_def)
  with that 7(2) show thesis by (simp add: add.assoc)
qed

lemma count_holds: "holds_book n A F h book as cs ns \<Longrightarrow> count_contacts book h = Some (of_nat (length ns))"
  using count_contacts_length [of h book as cs] by (auto simp: holds_book_def dest: map_eq_imp_length_eq)

lemma free_book_ready:
  assumes "ready n A F h" "represents h book as cs" "map_option fst (tracker_live (tracker h) book) = Some 8"
  obtains h' where "free_address_book book h = Some h'" "ready n A (F + 8) h'"
proof -
  obtain head where head: "books h book = Some head" "chain (nodes h) head as" "book \<noteq> 0"
    using assms(2) by (auto simp: represents_def split: option.splits)
  obtain l where "tracker_live (tracker h) book = Some (8, l)" using assms(3) by auto
  with that head walk_chain [OF head(2)] free_ready(1) [OF assms(1)] show thesis
    by (simp add: free_address_book_def)
qed

lemma not_clean: "ready n A F h \<Longrightarrow> A \<noteq> F \<Longrightarrow> ASSERT_CLEAN_MEMORY_HANDLING rest h = Some (False, h)"
  by (auto simp: ready_def ASSERT_CLEAN_MEMORY_HANDLING_def ASSERT_def check_clean_memory_handling_def is_memory_leaked_def)

text \<open>A test between \<^verbatim>\<open>setup\<close> and \<^verbatim>\<open>cleanup\<close>: the clean-up always fails.\<close>

lemma run_bundle:
  assumes ready: "ready (n + 13) A F (test_heap s)" and leak: "A + 1040 \<noteq> F' + 8"
    and body: "\<And>book contact as cs h. holds_book n (A + 1040) F h book as cs first_names \<Longrightarrow> cs ! 2 = contact
      \<Longrightarrow> \<exists>h' as' cs'. test (book, contact) h = Some (ok, h') \<and> ready n (A + 1040) F' h'
            \<and> represents h' book as' cs' \<and> map_option fst (tracker_live (tracker h') book) = Some 8"
  obtains s' where "RUN_TEST_WITH_SETUP_CLEANUP test setup_book cleanup_book s = Some s'"
    "test_count s' = test_count s + 1" "test_failed s' = test_failed s + (if ok then 1 else 2)"
    "ready n (A + 1040) (F' + 8) (test_heap s')"
proof -
  obtain book contact as cs h where h: "setup_book (test_heap s) = Some ((book, contact), h)"
      "holds_book n (A + 1040) F h book as cs first_names" "cs ! 2 = contact"
    by (rule setup_holds [OF ready])
  obtain h' as' cs' where h': "test (book, contact) h = Some (ok, h')" "ready n (A + 1040) F' h'"
      "represents h' book as' cs'" "map_option fst (tracker_live (tracker h') book) = Some 8"
    using body [OF h(2,3)] by blast
  obtain h'' where h'': "free_address_book book h' = Some h''" "ready n (A + 1040) (F' + 8) h''"
    by (rule free_book_ready [OF h'(2-4)])
  have "cleanup_book (book, contact) h' = Some (False, h'')"
    by (simp add: cleanup_book_def h''(1) not_clean [OF h''(2) leak])
  with h(1) h'(1) have "RUN_TEST_WITH_SETUP_CLEANUP test setup_book cleanup_book s =
      Some (failed False h'' (failed ok h' (s\<lparr>test_count := test_count s + 1\<rparr>)))"
    by (simp add: RUN_TEST_WITH_SETUP_CLEANUP_def Let_def failed_def)
  with that h''(2) show thesis by (simp add: failed_def)
qed

section \<open>The two tests without a set-up\<close>

lemma init_free_result:
  assumes "ready (Suc n) A A h"
  shows "\<exists>h'. test_init_free_address_book h = Some (True, h') \<and> ready n (A + 8) (A + 8) h'"
proof -
  obtain book h1 where b: "create_address_book h = Some (book, h1)" "holds_book n (A + 8) A h1 book [] [] []"
    by (rule create_book_holds [OF assms])
  from b(2) have r: "ready n (A + 8) A h1" "represents h1 book [] []" "map_option fst (tracker_live (tracker h1) book) = Some 8"
    by (simp_all add: holds_book_def)
  obtain h2 where f: "free_address_book book h1 = Some h2" "ready n (A + 8) (A + 8) h2"
    by (rule free_book_ready [OF r])
  have "book \<noteq> 0" using r(2) by (auto simp: represents_def split: option.splits)
  moreover have "ASSERT_CLEAN_MEMORY_HANDLING pass h2 = Some (True, h2)"
    using f(2) by (auto simp: ready_def ASSERT_CLEAN_MEMORY_HANDLING_def ASSERT_def pass_def
        check_clean_memory_handling_def is_memory_leaked_def)
  ultimately show ?thesis using b(1) f by (simp add: test_init_free_address_book_def ASSERT_def)
qed

lemma add_contact_result:
  assumes "ready (n + 13) A F h" "A + 1040 \<noteq> F + 8"
  shows "\<exists>h'. test_add_contact h = Some (False, h') \<and> ready n (A + 1040) (F + 8) h'"
proof -
  have "ready (Suc (n + 12)) A F h" using assms by (simp add: eval_nat_numeral)
  then obtain book h0 where b: "create_address_book h = Some (book, h0)" "holds_book (n + 12) (A + 8) F h0 book [] [] []"
    by (rule create_book_holds)
  from b(2) have "holds_book (Suc (n + 11)) (A + 8) F h0 book [] [] []" by (simp add: eval_nat_numeral)
  from create_contact_holds [OF this, of "bytes ''John''" "bytes ''Doe''" "bytes ''jon@doe.at''" 30]
  obtain c h1 where 1: "create_contact (bytes ''John'') (bytes ''Doe'') 30 (bytes ''jon@doe.at'') h0 = Some (c, h1)"
      "holds_book (n + 11) (A + 8 + 156) F h1 book [] [] []"
      "contacts h1 c = Some \<lparr>first_name = bytes ''John'', last_name = bytes ''Doe'', age = 30, email = bytes ''jon@doe.at''\<rparr>"
      "map_option fst (tracker_live (tracker h1) c) = Some 156" by (auto simp: fits_short)
  from 1(2) have r1: "holds_book (Suc (n + 10)) (A + 8 + 156) F h1 book [] [] []" by (simp add: eval_nat_numeral)
  have c: "c \<noteq> 0" using 1(2,3) by (auto simp: holds_book_def ready_def heap_ok_def)
  from add_contact_holds [OF r1 _ 1(3) _ 1(4), of "''John''"]
  obtain a1 h2 where 2: "add_contact book c h1 = Some h2"
      "holds_book (n + 10) (A + 8 + 156 + 16) F h2 book [a1] [c] [''John'']" by auto
  from 2(2) have "holds_book (Suc (Suc (n + 8))) (A + 8 + 156 + 16) F h2 book [a1] [c] [''John'']" by (simp add: eval_nat_numeral)
  from add_new_holds [OF this, of "''Jane''" "''Doe''" "''jane@doe.at''" 28]
  obtain a2 c2 h3 where 3: "add_new book ''Jane'' ''Doe'' 28 ''jane@doe.at'' h2 = Some h3"
      "holds_book (n + 8) (A + 8 + 156 + 16 + 172) F h3 book [a1, a2] [c, c2] [''John'', ''Jane'']"
    by (auto simp: fits_short)
  from 3(2) have "holds_book (Suc (Suc (n + 6))) (A + 8 + 156 + 16 + 172) F h3 book [a1, a2] [c, c2] [''John'', ''Jane'']"
    by (simp add: eval_nat_numeral)
  from add_new_holds [OF this, of "''Max''" "''Mustermann''" "''max@mustermann.at''" 15]
  obtain a3 c3 h4 where 4: "add_new book ''Max'' ''Mustermann'' 15 ''max@mustermann.at'' h3 = Some h4"
      "holds_book (n + 6) (A + 8 + 156 + 16 + 172 + 172) F h4 book [a1, a2, a3] [c, c2, c3] [''John'', ''Jane'', ''Max'']"
    by (auto simp: fits_short)
  from 4(2) have "holds_book (Suc (Suc (n + 4))) (A + 8 + 156 + 16 + 172 + 172) F h4 book [a1, a2, a3] [c, c2, c3]
      [''John'', ''Jane'', ''Max'']" by (simp add: eval_nat_numeral)
  from add_new_holds [OF this, of "''Erika''" "''Musterfrau''" "''erika@musterfrau.at''" 23]
  obtain a4 c4 h5 where 5: "add_new book ''Erika'' ''Musterfrau'' 23 ''erika@musterfrau.at'' h4 = Some h5"
      "holds_book (n + 4) (A + 8 + 156 + 16 + 172 + 172 + 172) F h5 book [a1, a2, a3, a4] [c, c2, c3, c4]
         [''John'', ''Jane'', ''Max'', ''Erika'']" by (auto simp: fits_short)
  from 5(2) have "holds_book (Suc (Suc (n + 2))) (A + 8 + 156 + 16 + 172 + 172 + 172) F h5 book [a1, a2, a3, a4]
      [c, c2, c3, c4] [''John'', ''Jane'', ''Max'', ''Erika'']" by (simp add: eval_nat_numeral)
  from add_new_holds [OF this, of "''Hans''" "''Huber''" "''hans@huber.de''" 12]
  obtain a5 c5 h6 where 6: "add_new book ''Hans'' ''Huber'' 12 ''hans@huber.de'' h5 = Some h6"
      "holds_book (n + 2) (A + 8 + 156 + 16 + 172 + 172 + 172 + 172) F h6 book [a1, a2, a3, a4, a5] [c, c2, c3, c4, c5]
         [''John'', ''Jane'', ''Max'', ''Erika'', ''Hans'']" by (auto simp: fits_short)
  from 6(2) have "holds_book (Suc (Suc n)) (A + 8 + 156 + 16 + 172 + 172 + 172 + 172) F h6 book [a1, a2, a3, a4, a5]
      [c, c2, c3, c4, c5] [''John'', ''Jane'', ''Max'', ''Erika'', ''Hans'']" by (simp add: eval_nat_numeral)
  from add_new_holds [OF this, of "''Anna''" "''Huber''" "''anna@huber.de''" 7]
  obtain a6 c6 h7 where 7: "add_new book ''Anna'' ''Huber'' 7 ''anna@huber.de'' h6 = Some h7"
      "holds_book n (A + 8 + 156 + 16 + 172 + 172 + 172 + 172 + 172) F h7 book [a1, a2, a3, a4, a5, a6]
         [c, c2, c3, c4, c5, c6] first_names" by (auto simp: fits_short first_names_def)
  then have r7: "ready n (A + 1040) F h7" "represents h7 book [a1, a2, a3, a4, a5, a6] [c, c2, c3, c4, c5, c6]"
      "map_option fst (tracker_live (tracker h7) book) = Some 8" by (simp_all add: holds_book_def add.assoc)
  obtain h8 where 8: "free_address_book book h7 = Some h8" "ready n (A + 1040) (F + 8) h8"
    by (rule free_book_ready [OF r7])
  have "count_contacts book h2 = Some 1" "count_contacts book h7 = Some 6"
    using count_holds [OF 2(2)] count_holds [OF 7(2)] by (simp_all add: first_names_def)
  then have "test_add_contact h = Some (False, h8)"
    using b(1) 1(1) c 2(1) 3(1) 4(1) 5(1) 6(1) 7(1) 8(1) not_clean [OF 8(2) assms(2)]
    by (simp add: test_add_contact_def ASSERT_def)
  with 8(2) show ?thesis by blast
qed

section \<open>The removal of the third contact\<close>

lemma remove_ready:
  assumes book: "holds_book n A F h book as cs ns" and third: "length cs = 6" "cs ! 2 = c"
  shows "\<exists>h' as' cs'. remove_contact book c h = Some h' \<and> ready n A (F + 172) h' \<and> represents h' book as' cs'
    \<and> length cs' = 5 \<and> map_option fst (tracker_live (tracker h') book) = Some 8"
proof -
  have r: "ready n A F h" and rep: "represents h book as cs" using book by (simp_all add: holds_book_def)
  have ok: "heap_ok h" using r by (simp add: ready_def)
  have cs: "cs = contacts_of (nodes h) as" using rep by (auto simp: represents_def split: option.splits)
  then have "length as = 6" using third(1) by (simp add: contacts_of_def)
  then obtain x y ys where as: "as = x # y # ys" by (cases as; cases "tl as") auto
  have ys: "length ys = 4" using \<open>length as = 6\<close> as by simp
  have "chain (nodes h) x as" using rep as by (auto simp: represents_def split: option.splits)
  from chain_dom [OF this, of x] chain_dom [OF this, of y] as
  obtain nx ny where n: "nodes h x = Some nx" "nodes h y = Some ny" by auto
  have c: "c \<in> set cs" using third by auto
  have csy: "cs = data nx # data ny # contacts_of (nodes h) ys" using cs as n by (simp add: contacts_of_def)
  then have "c = contacts_of (nodes h) ys ! 0" using third(2) by simp
  then have found: "c \<in> set (contacts_of (nodes h) ys)" using ys by (simp add: contacts_of_def)
  moreover have "distinct cs" using book by (simp add: holds_book_def)
  ultimately have ny: "data ny \<noteq> c" using csy by auto
  have sizes: "map_option fst (tracker_live (tracker h) c) = Some 156" "map_option fst (tracker_live (tracker h) book) = Some 8"
    using book c by (auto simp: holds_book_def)
  then have cb: "c \<noteq> book" by auto
  have "(\<lambda>c. map_option first_name (contacts h c)) ` set cs = (\<lambda>n. Some (bytes n)) ` set ns"
    using book by (metis holds_book_def list.set_map)
  then have "map_option first_name (contacts h c) \<noteq> None" using c by (metis imageE imageI option.distinct(1))
  then have nc: "nodes h c = None" using ok by (auto simp: heap_ok_def)
  obtain u a nu na h' as' where rem: "nodes h u = Some nu" "nodes h a = Some na" "a \<in> set ys"
      "h' = free a 74 (free c 73 (h\<lparr>nodes := (nodes h)(u \<mapsto> nu\<lparr>nxt := nxt na\<rparr>)\<rparr>))"
      "remove_contact book c h = Some h'"
      "represents h' book as' (data nx # data ny # remove1 c (contacts_of (nodes h) ys))"
    using remove_found [OF rep [unfolded as] ok nc cb n ny found] by blast
  define h1 where "h1 = h\<lparr>nodes := (nodes h)(u \<mapsto> nu\<lparr>nxt := nxt na\<rparr>)\<rparr>"
  have "ready n A F h1" using r rem(1) by (auto simp: h1_def ready_def heap_ok_def)
  moreover obtain l where l: "tracker_live (tracker h1) c = Some (156, l)" using sizes(1) by (auto simp: h1_def)
  ultimately have h2: "ready n A (F + 156) (free c 73 h1)"
      "tracker_live (tracker (free c 73 h1)) = (tracker_live (tracker h1))(c := None)"
    by (rule free_ready(1,2))+
  have "map_option fst (tracker_live (tracker h) a) = Some 16" using book rem(3) as by (simp add: holds_book_def)
  then have "a \<noteq> c" "a \<noteq> book" and "\<exists>l. tracker_live (tracker (free c 73 h1)) a = Some (16, l)"
    using sizes unfolding h2(2) by (auto simp: h1_def)
  then obtain k where "tracker_live (tracker (free c 73 h1)) a = Some (16, k)" by blast
  note h3 = free_ready(1,2) [OF h2(1) this, of 74]
  have h': "h' = free a 74 (free c 73 h1)" unfolding h1_def by (rule rem(4))
  have "ready n A (F + 172) h'" using h3(1) unfolding h' by (simp add: add.commute)
  moreover have "map_option fst (tracker_live (tracker h') book) = Some 8"
    unfolding h' h3(2) h2(2) using cb \<open>a \<noteq> book\<close> sizes(2) by (simp add: h1_def)
  moreover have "length (data nx # data ny # remove1 c (contacts_of (nodes h) ys)) = 5"
    using found ys n by (simp add: length_remove1 contacts_of_def)
  ultimately show ?thesis using rem(5,6) by blast
qed

section \<open>The result of the whole run\<close>

text \<open>The bodies of the five tests on the book of the set-up.\<close>

lemma bodies:
  assumes book: "holds_book n A F h book as cs first_names" "cs ! 2 = contact"
  shows find_body: "test_find_existing_contact (book, contact) h = Some (False, h)"
    and non_existing_body: "test_non_existing_contact (book, contact) h = Some (True, h)"
    and sort_body: "test_sort_address_book (book, contact) h = Some (False, h)"
    and filter_body: "test_filter_address_book (book, contact) h = Some (False, h)"
    and remove_body: "\<exists>h' as' cs'. test_remove_contact (book, contact) h = Some (True, h')
      \<and> ready n A (F + 172) h' \<and> represents h' book as' cs' \<and> map_option fst (tracker_live (tracker h') book) = Some 8"
proof -
  have rep: "represents h book as cs" and names: "map (\<lambda>c. map_option first_name (contacts h c)) cs
      = map (\<lambda>n. Some (bytes n)) first_names" using book(1) by (simp_all add: holds_book_def)
  have len: "length cs = 6" using arg_cong [OF names, of length] by (simp add: first_names_def)
  then obtain c0 cs0 where cs: "cs = c0 # cs0" by (cases cs) auto
  have "\<exists>r. contacts h (cs ! 2) = Some r" using arg_cong [OF names, of "\<lambda>xs. xs ! 2"] len by (auto simp: first_names_def)
  then show "test_find_existing_contact (book, contact) h = Some (False, h)"
    using book(2) by (auto simp: test_find_existing_contact_def find_contact_def ASSERT_def)
  show "test_non_existing_contact (book, contact) h = Some (True, h)"
    by (simp add: test_non_existing_contact_def find_contact_def ASSERT_def pass_def)
  show "test_filter_address_book (book, contact) h = Some (False, h)"
    by (simp add: test_filter_address_book_def filter_address_book_def count_contacts_def ASSERT_def)
  obtain head where head: "books h book = Some head" "chain (nodes h) head as" "book \<noteq> 0" "cs = contacts_of (nodes h) as"
    using rep by (auto simp: represents_def split: option.splits)
  then obtain a as0 m where a: "as = a # as0" "head = a" "a \<noteq> 0" "nodes h a = Some m" "data m = c0"
    using cs by (cases as) (auto simp: contacts_of_def split: option.splits)
  obtain r where "contacts h c0 = Some r" "first_name r = bytes ''John''"
    using names cs by (auto simp: first_names_def)
  with head(1,3) a show "test_sort_address_book (book, contact) h = Some (False, h)"
    by (simp add: test_sort_address_book_def sort_address_book_def ASSERT_def bytes_def)
  obtain h' as' cs' where h': "remove_contact book contact h = Some h'" "ready n A (F + 172) h'" "represents h' book as' cs'"
      "length cs' = 5" "map_option fst (tracker_live (tracker h') book) = Some 8"
    using remove_ready [OF book(1) len book(2)] by blast
  have "count_contacts book h = Some 6" using count_holds [OF book(1)] by (simp add: first_names_def)
  moreover have "count_contacts book h' = Some 5" using count_contacts_length [OF h'(3)] h'(4) by simp
  ultimately have "test_remove_contact (book, contact) h = Some (True, h')"
    using h'(1) by (simp add: test_remove_contact_def ASSERT_def find_contact_def pass_def)
  with h' show "\<exists>h' as' cs'. test_remove_contact (book, contact) h = Some (True, h')
      \<and> ready n A (F + 172) h' \<and> represents h' book as' cs' \<and> map_option fst (tracker_live (tracker h') book) = Some 8"
    by blast
qed

text \<open>A test whose body leaves the heap alone.\<close>

lemma run_bundle_same:
  assumes "ready (n + 13) A F (test_heap s)" "A + 1040 \<noteq> F + 8"
    and "\<And>book contact as cs h. holds_book n (A + 1040) F h book as cs first_names \<Longrightarrow> cs ! 2 = contact
      \<Longrightarrow> test (book, contact) h = Some (ok, h)"
  obtains s' where "RUN_TEST_WITH_SETUP_CLEANUP test setup_book cleanup_book s = Some s'"
    "test_count s' = test_count s + 1" "test_failed s' = test_failed s + (if ok then 1 else 2)"
    "ready n (A + 1040) (F + 8) (test_heap s')"
  by (rule run_bundle [OF assms(1,2), where test = test and ok = ok])
    (use assms(3) in \<open>fastforce simp: holds_book_def\<close>)+



end
