(* ===== verification/Donations.thy ===== *)
theory Donations
  imports CString
begin

text \<open>
  The donation servers \<^verbatim>\<open>exercise08/task1/server.c\<close> and \<^verbatim>\<open>exercise08/task2/server.c\<close> and the client
  \<^verbatim>\<open>exercise08/task2/client.c\<close>. The kernel is a script of results: what every \<^verbatim>\<open>accept\<close> and every
  \<^verbatim>\<open>read\<close> returns. The arithmetic of \<^verbatim>\<open>double\<close> and \<^verbatim>\<open>strtod\<close> are parameters.
\<close>

section \<open>A session of the servers\<close>

definition MAX_BUFFER :: nat where "MAX_BUFFER = 1024"

text \<open>\<open>Received []\<close> is the result 0 of \<^verbatim>\<open>read\<close>: the client has closed the connection.\<close>

datatype recv = ReadFailed | Received "u8 list"

datatype 'd reply = NotANumber cstring | Balance 'd

text \<open>
  How a session ends: \<open>Waiting\<close> in \<^verbatim>\<open>read\<close>, with an orderly end, or with the program; \<open>Overread\<close>
  when \<^verbatim>\<open>strcspn\<close> runs past the end of the message buffer.
\<close>

datatype session_end = Waiting | Disconnected | ShutDown | ReadError | Overread

definition clear_msg :: "u8 list" where "clear_msg = replicate MAX_BUFFER 0"

text \<open>
  The inner loop. It returns the replies, the balance, the buffer and how it ended; \<open>msg\<close> is the
  buffer before the next \<^verbatim>\<open>read\<close>.
\<close>

fun serve_client :: "'d double_ops \<Rightarrow> (cstring \<Rightarrow> 'd \<times> cstring) \<Rightarrow> recv list \<Rightarrow> u8 list \<Rightarrow> 'd
    \<Rightarrow> 'd reply list \<times> 'd \<times> u8 list \<times> session_end" where
  "serve_client D strtod [] msg donations = ([], donations, msg, Waiting)"
| "serve_client D strtod (ReadFailed # reads) msg donations = ([], donations, msg, ReadError)"
| "serve_client D strtod (Received bs # reads) msg donations =
     (if bs = [] then ([], donations, msg, Disconnected)
      else let msg = read_into msg bs
           in if strncmp_eq 9 msg (bytes ''/shutdown'') then ([], donations, msg, ShutDown)
              else case strcspn_newline msg of
                     None \<Rightarrow> ([], donations, msg, Overread)
                   | Some k \<Rightarrow>
                       (let msg = msg[k := 0]; tmp = fst (strtod (cstr msg));
                            number = (snd (strtod (cstr msg)) = []);
                            donations = (if number then fadd D donations tmp else donations);
                            reply = (if number then Balance donations else NotANumber (cstr msg));
                            (replies, result) = serve_client D strtod reads clear_msg donations
                        in (reply # replies, result)))"

section \<open>The servers\<close>

text \<open>
  What \<^verbatim>\<open>socket\<close>, \<^verbatim>\<open>bind\<close> and \<^verbatim>\<open>listen\<close> return; a connection is the descriptor \<^verbatim>\<open>accept\<close> returned
  and the results of its reads, \<open>None\<close> a failed \<^verbatim>\<open>accept\<close>.
\<close>

record listen_calls =
  socket_result :: int
  bind_result :: int
  listen_result :: int

type_synonym connection = "(int \<times> recv list) option"

datatype server_status = Running | Exit_Success | Exit_Failure | Undefined

record 'd server =
  donations :: 'd
  msg_buffer :: "u8 list"
  sent :: "(int \<times> 'd reply list) list"
  descriptors :: "int list"
  status :: server_status

definition EADDRINUSE :: int where "EADDRINUSE = 98"

definition server_start :: "'d double_ops \<Rightarrow> int \<Rightarrow> 'd server" where
  "server_start D fd =
     \<lparr>donations = fzero D, msg_buffer = clear_msg, sent = [], descriptors = [fd], status = Running\<rparr>"

text \<open>
  The set-up both programs share: \<open>None\<close> when main returns \<^verbatim>\<open>EXIT_FAILURE\<close>, otherwise the
  descriptor of the listening socket.
\<close>

definition server_setup :: "nat \<Rightarrow> listen_calls \<Rightarrow> int option" where
  "server_setup argc os =
     (if argc \<noteq> 2 then None
      else if socket_result os < 0 then None
      else if bind_result os < 0 then None
      else if bind_result os = EADDRINUSE then None
      else if listen_result os < 0 then None
      else Some (socket_result os))"

text \<open>
  One session as seen from the outer loop. Closing happens where the code closes: not when the
  client has disconnected.
\<close>

definition session :: "'d double_ops \<Rightarrow> (cstring \<Rightarrow> 'd \<times> cstring) \<Rightarrow> int \<Rightarrow> int \<Rightarrow> recv list \<Rightarrow> 'd server
    \<Rightarrow> bool \<times> 'd server" where
  "session D strtod server_fd fd reads s =
     (case serve_client D strtod reads (msg_buffer s) (donations s) of
        (replies, don, buf, result) \<Rightarrow>
          let s = s\<lparr>donations := don, msg_buffer := buf, sent := sent s @ [(fd, replies)],
                    descriptors := descriptors s @ [fd]\<rparr>
          in case result of
               Waiting \<Rightarrow> (False, s)
             | Disconnected \<Rightarrow> (True, s)
             | ShutDown \<Rightarrow> (False, s\<lparr>descriptors := remove1 server_fd (remove1 fd (descriptors s)),
                                    status := Exit_Success\<rparr>)
             | ReadError \<Rightarrow> (False, s\<lparr>descriptors := remove1 fd (descriptors s), status := Exit_Failure\<rparr>)
             | Overread \<Rightarrow> (False, s\<lparr>status := Undefined\<rparr>))"

fun accept_loop1 :: "'d double_ops \<Rightarrow> (cstring \<Rightarrow> 'd \<times> cstring) \<Rightarrow> int \<Rightarrow> connection list \<Rightarrow> 'd server
    \<Rightarrow> 'd server" where
  "accept_loop1 D strtod server_fd [] s = s"
| "accept_loop1 D strtod server_fd (None # cs) s = s\<lparr>status := Exit_Failure\<rparr>"
| "accept_loop1 D strtod server_fd (Some (fd, reads) # cs) s =
     (case session D strtod server_fd fd reads s of
        (next_client, s) \<Rightarrow> if next_client then accept_loop1 D strtod server_fd cs s else s)"

definition server1_main :: "'d double_ops \<Rightarrow> (cstring \<Rightarrow> 'd \<times> cstring) \<Rightarrow> nat \<Rightarrow> listen_calls
    \<Rightarrow> connection list \<Rightarrow> 'd server option" where
  "server1_main D strtod argc os cs =
     map_option (\<lambda>fd. accept_loop1 D strtod fd cs (server_start D fd)) (server_setup argc os)"

text \<open>
  Task 2 looks at \<^verbatim>\<open>running\<close> before every \<^verbatim>\<open>accept\<close>. The flag that comes with a connection says
  that SIGINT was handled during its session; a signal during \<^verbatim>\<open>accept\<close> or \<^verbatim>\<open>read\<close> makes the call fail.
\<close>

fun accept_loop2 :: "'d double_ops \<Rightarrow> (cstring \<Rightarrow> 'd \<times> cstring) \<Rightarrow> int \<Rightarrow> bool
    \<Rightarrow> (connection \<times> bool) list \<Rightarrow> 'd server \<Rightarrow> 'd server" where
  "accept_loop2 D strtod server_fd False cs s = s\<lparr>status := Exit_Success\<rparr>"
| "accept_loop2 D strtod server_fd True [] s = s"
| "accept_loop2 D strtod server_fd True ((None, sigint) # cs) s = s\<lparr>status := Exit_Failure\<rparr>"
| "accept_loop2 D strtod server_fd True ((Some (fd, reads), sigint) # cs) s =
     (case session D strtod server_fd fd reads s of
        (next_client, s) \<Rightarrow>
          if next_client then accept_loop2 D strtod server_fd (\<not> sigint) cs s else s)"

definition server2_main :: "'d double_ops \<Rightarrow> (cstring \<Rightarrow> 'd \<times> cstring) \<Rightarrow> nat \<Rightarrow> listen_calls
    \<Rightarrow> (connection \<times> bool) list \<Rightarrow> 'd server option" where
  "server2_main D strtod argc os cs =
     map_option (\<lambda>fd. accept_loop2 D strtod fd True cs (server_start D fd)) (server_setup argc os)"

section \<open>The client\<close>

definition BUFFER_SIZE :: nat where "BUFFER_SIZE = 1024"

text \<open>\<^verbatim>\<open>print_until_newline\<close>: \<open>None\<close> when it runs past the end of the buffer.\<close>

fun print_until_newline :: "u8 list \<Rightarrow> u8 list option" where
  "print_until_newline [] = None"
| "print_until_newline (c # str) =
     (if c \<noteq> 0 \<and> c \<noteq> 10 then map_option ((#) c) (print_until_newline str) else Some [10])"

datatype client_status = AwaitsReply | Quit | SentShutdown | Interrupted | ClientOverread

record client_log =
  messages :: "u8 list list"
  screen :: "u8 list list"
  client_status :: client_status

text \<open>
  The loop: \<open>input\<close> is what stands in the standard input, an element of the script is what the
  server's answer put into \<^verbatim>\<open>read_buf\<close> (\<open>[]\<close> when the connection is closed or \<^verbatim>\<open>read\<close> fails) and whether
  SIGINT was handled meanwhile. The character \<^verbatim>\<open>'0'\<close> that fills the buffers is 48.
\<close>

fun client_loop :: "bool \<Rightarrow> u8 list \<Rightarrow> (u8 list \<times> bool) list \<Rightarrow> u8 list \<Rightarrow> u8 list \<Rightarrow> client_log" where
  "client_loop running input answers msg read_buf =
     (if \<not> running then \<lparr>messages = [], screen = [], client_status = Interrupted\<rparr>
      else case fgets msg BUFFER_SIZE input of
        (msg, input) \<Rightarrow>
          let msg = msg[BUFFER_SIZE - 1 := 0]
          in if strncmp_eq 6 msg (bytes ''/quit'' @ [10])
             then \<lparr>messages = [], screen = [], client_status = Quit\<rparr>
             else if strncmp_eq 11 msg (bytes ''/shutdown'' @ [10])
             then \<lparr>messages = [bytes ''/shutdown'' @ [0]], screen = [], client_status = SentShutdown\<rparr>
             else case answers of
               [] \<Rightarrow> \<lparr>messages = [cstr msg], screen = [], client_status = AwaitsReply\<rparr>
             | (answer, sigint) # answers \<Rightarrow>
                 (case print_until_newline (read_into read_buf answer) of
                    None \<Rightarrow> \<lparr>messages = [cstr msg], screen = [], client_status = ClientOverread\<rparr>
                  | Some line \<Rightarrow>
                      (let log = client_loop (\<not> sigint) input answers msg (replicate BUFFER_SIZE 48)
                       in log\<lparr>messages := cstr msg # messages log, screen := line # screen log\<rparr>)))"

declare client_loop.simps [simp del]

definition client_main :: "nat \<Rightarrow> int \<Rightarrow> int \<Rightarrow> u8 list \<Rightarrow> (u8 list \<times> bool) list \<Rightarrow> client_log option" where
  "client_main argc sock connected input answers =
     (if argc \<noteq> 2 \<or> sock < 0 \<or> connected < 0 then None
      else Some (client_loop True input answers
                  (48 # replicate (BUFFER_SIZE - 1) 0) (48 # replicate (BUFFER_SIZE - 1) 0)))"

section \<open>What a session should do\<close>

definition text_of :: "u8 list \<Rightarrow> cstring" where
  "text_of bs = takeWhile (\<lambda>c. \<not> line_end c) bs"

definition number_of :: "(cstring \<Rightarrow> 'd \<times> cstring) \<Rightarrow> u8 list \<Rightarrow> 'd option" where
  "number_of strtod bs = (if snd (strtod (text_of bs)) = [] then Some (fst (strtod (text_of bs))) else None)"

definition donated :: "(cstring \<Rightarrow> 'd \<times> cstring) \<Rightarrow> u8 list list \<Rightarrow> 'd list" where
  "donated strtod bss = List.map_filter (number_of strtod) bss"

fun replies_spec :: "'d double_ops \<Rightarrow> (cstring \<Rightarrow> 'd \<times> cstring) \<Rightarrow> 'd \<Rightarrow> u8 list list \<Rightarrow> 'd reply list" where
  "replies_spec D strtod balance [] = []"
| "replies_spec D strtod balance (bs # bss) =
     (case number_of strtod bs of
        None \<Rightarrow> NotANumber (text_of bs) # replies_spec D strtod balance bss
      | Some v \<Rightarrow> Balance (fadd D balance v) # replies_spec D strtod (fadd D balance v) bss)"

definition is_shutdown :: "u8 list \<Rightarrow> bool" where
  "is_shutdown bs \<longleftrightarrow> take 9 (cstr bs) = bytes ''/shutdown''"

text \<open>A message the server can deal with: at least a byte of its buffer stays free.\<close>

definition short_message :: "u8 list \<Rightarrow> bool" where
  "short_message bs \<longleftrightarrow> bs \<noteq> [] \<and> length bs < MAX_BUFFER"

lemma cstr_read_into: "length bs \<le> n \<Longrightarrow> cstr (read_into (replicate n 0) bs) = cstr bs"
  by (cases "n - length bs") (auto simp: cstr_def read_into_def takeWhile_tail)

lemma shutdown_test: "length bs \<le> MAX_BUFFER
    \<Longrightarrow> strncmp_eq 9 (read_into clear_msg bs) (bytes ''/shutdown'') \<longleftrightarrow> is_shutdown bs"
  unfolding strncmp_eq_def is_shutdown_def clear_msg_def
  by (simp add: cstr_read_into) (simp add: cstr_def bytes_def)

lemma cstr_line:
  assumes "length bs < MAX_BUFFER"
  shows "cstr ((read_into clear_msg bs)[length (text_of bs) := 0]) = text_of bs"
proof -
  have t: "bs = text_of bs @ dropWhile (\<lambda>c. \<not> line_end c) bs" by (simp add: text_of_def)
  have "read_into clear_msg bs = text_of bs @ (dropWhile (\<lambda>c. \<not> line_end c) bs @ drop (length bs) clear_msg)"
    unfolding read_into_def by (subst (1) t) simp
  moreover have "dropWhile (\<lambda>c. \<not> line_end c) bs @ drop (length bs) clear_msg \<noteq> []"
    using assms by (simp add: clear_msg_def)
  ultimately obtain c rest where "read_into clear_msg bs = text_of bs @ c # rest"
    by (metis neq_Nil_conv)
  moreover have "c_string (text_of bs)"
    by (auto simp: c_string_def text_of_def line_end_def dest: set_takeWhileD)
  ultimately show ?thesis by simp
qed

lemma serve_message:
  assumes "short_message bs" "\<not> is_shutdown bs"
  shows "serve_client D strtod (Received bs # reads) clear_msg don =
    (case number_of strtod bs of
       None \<Rightarrow> apfst ((#) (NotANumber (text_of bs))) (serve_client D strtod reads clear_msg don)
     | Some v \<Rightarrow> apfst ((#) (Balance (fadd D don v))) (serve_client D strtod reads clear_msg (fadd D don v)))"
proof -
  have "length bs < MAX_BUFFER" using assms by (simp add: short_message_def)
  moreover from this have "strcspn_newline (read_into clear_msg bs) = Some (length (text_of bs))"
    unfolding clear_msg_def text_of_def by (rule strcspn_newline_read)
  ultimately show ?thesis using assms
    by (auto simp: short_message_def shutdown_test cstr_line number_of_def Let_def split: prod.splits)
qed

declare serve_client.simps(3) [simp del]

lemma serve_messages:
  assumes "list_all (\<lambda>bs. short_message bs \<and> \<not> is_shutdown bs) bss"
  shows "serve_client D strtod (map Received bss @ reads) clear_msg don =
    apfst ((@) (replies_spec D strtod don bss))
      (serve_client D strtod reads clear_msg (foldl (fadd D) don (donated strtod bss)))"
  using assms
proof (induction bss arbitrary: don)
  case Nil
  then show ?case by (simp add: donated_def map_filter_def apfst_def map_prod_def split: prod.split)
next
  case (Cons bs bss)
  then show ?case
    by (auto simp: serve_message donated_def map_filter_def apfst_def map_prod_def
        split: option.splits prod.splits)
qed

lemma serve_disconnect [simp]:
  "serve_client D strtod (Received [] # reads) msg don = ([], don, msg, Disconnected)"
  by (simp add: serve_client.simps(3))

lemma serve_shutdown:
  "short_message bs \<Longrightarrow> is_shutdown bs
    \<Longrightarrow> serve_client D strtod (Received bs # reads) clear_msg don = ([], don, read_into clear_msg bs, ShutDown)"
  by (simp add: serve_client.simps(3) short_message_def shutdown_test Let_def)

lemma session_replies:
  assumes "list_all (\<lambda>bs. short_message bs \<and> \<not> is_shutdown bs) bss"
  shows "serve_client D strtod (map Received bss @ [Received []]) clear_msg don =
    (replies_spec D strtod don bss, foldl (fadd D) don (donated strtod bss), clear_msg, Disconnected)"
  unfolding serve_messages [OF assms] by simp

section \<open>Runs of the servers\<close>

text \<open>Clients that send messages the server can deal with and then disconnect.\<close>

definition visits :: "(int \<times> u8 list list) list \<Rightarrow> connection list" where
  "visits cs = map (\<lambda>(fd, bss). Some (fd, map Received bss @ [Received []])) cs"

definition polite :: "u8 list list \<Rightarrow> bool" where
  "polite bss \<longleftrightarrow> list_all (\<lambda>bs. short_message bs \<and> \<not> is_shutdown bs) bss"

definition all_donated :: "(cstring \<Rightarrow> 'd \<times> cstring) \<Rightarrow> (int \<times> u8 list list) list \<Rightarrow> 'd list" where
  "all_donated strtod cs = concat (map (donated strtod \<circ> snd) cs)"

lemma accept_loop1_visits:
  assumes "list_all (polite \<circ> snd) cs" "msg_buffer s = clear_msg"
  shows "\<exists>t. accept_loop1 D strtod sfd (visits cs @ rest) s = accept_loop1 D strtod sfd rest t
    \<and> donations t = foldl (fadd D) (donations s) (all_donated strtod cs)
    \<and> descriptors t = descriptors s @ map fst cs \<and> msg_buffer t = clear_msg \<and> status t = status s
    \<and> length (sent t) = length (sent s) + length cs"
  using assms
proof (induction cs arbitrary: s)
  case Nil
  show ?case by (rule exI [of _ s]) (use Nil in \<open>simp add: visits_def all_donated_def\<close>)
next
  case (Cons c cs)
  obtain fd bss where c: "c = (fd, bss)" by (rule prod.exhaust)
  let ?don = "foldl (fadd D) (donations s) (donated strtod bss)"
  let ?u = "s\<lparr>donations := ?don, msg_buffer := clear_msg,
      sent := sent s @ [(fd, replies_spec D strtod (donations s) bss)], descriptors := descriptors s @ [fd]\<rparr>"
  have "session D strtod sfd fd (map Received bss @ [Received []]) s = (True, ?u)"
    using Cons.prems c by (simp add: session_def session_replies polite_def Let_def)
  then have "accept_loop1 D strtod sfd (visits (c # cs) @ rest) s
      = accept_loop1 D strtod sfd (visits cs @ rest) ?u"
    by (simp add: visits_def c)
  moreover have "list_all (polite \<circ> snd) cs" "msg_buffer ?u = clear_msg" using Cons.prems by (simp_all add: comp_def)
  ultimately show ?case using Cons.IH [of ?u] by (auto simp: c all_donated_def comp_def)
qed

lemma accept_loop2_quiet:
  "accept_loop2 D strtod sfd True (map (\<lambda>c. (c, False)) cs) s = accept_loop1 D strtod sfd cs s"
proof (induction D strtod sfd cs s rule: accept_loop1.induct)
  case (3 D strtod sfd fd reads cs s)
  then show ?case by (cases "session D strtod sfd fd reads s") auto
qed simp_all


text \<open>The servers never close the socket of a client that has disconnected: after any number
  of them the program is waiting in \<^verbatim>\<open>accept\<close> and every one of their descriptors is open.\<close>

theorem donation_server_leaks:
  assumes "server_setup argc os = Some sfd" "list_all (polite \<circ> snd) cs"
  shows "\<exists>t. server1_main D strtod argc os (visits cs) = Some t \<and> status t = Running
    \<and> descriptors t = sfd # map fst cs"
  using accept_loop1_visits [OF assms(2), of "server_start D sfd" D strtod sfd "[]"]
  by (auto simp: server1_main_def assms(1) server_start_def)

text \<open>A message overruns the buffer of the servers exactly when it fills it completely and
  contains neither a newline nor a NUL byte, which \<^verbatim>\<open>read\<close> with the size of the whole buffer allows.\<close>

theorem message_overread:
  assumes "bs \<noteq> []" "length bs \<le> MAX_BUFFER" "\<not> is_shutdown bs"
  shows "serve_client D strtod [Received bs] clear_msg don = ([], don, bs, Overread)
    \<longleftrightarrow> length bs = MAX_BUFFER \<and> list_all (\<lambda>c. \<not> line_end c) bs"
proof (cases "length bs = MAX_BUFFER")
  case True
  then have r: "read_into clear_msg bs = bs" by (simp add: read_into_def clear_msg_def)
  with True r shutdown_test [OF assms(2)] assms show ?thesis
    by (auto simp: serve_client.simps(3) Let_def strcspn_newline_None [symmetric] split: option.splits prod.splits)
next
  case False
  with assms have "short_message bs" by (simp add: short_message_def)
  then show ?thesis using False serve_message [OF _ assms(3), of D strtod "[]" don]
    by (auto split: option.splits)
qed

section \<open>The client and a server\<close>

lemma print_line:
  "list_all (\<lambda>c. \<not> line_end c) t \<Longrightarrow> print_until_newline (t @ 10 # rest) = Some (t @ [10])"
  by (induction t) (auto simp: line_end_def)

text \<open>A line the user types that is no command.\<close>

definition typed :: "u8 list \<Rightarrow> bool" where
  "typed l \<longleftrightarrow> list_all (\<lambda>c. \<not> line_end c) l \<and> length l < BUFFER_SIZE - 2 \<and> \<not> is_shutdown (l @ [10])
     \<and> l \<noteq> bytes ''/quit''"

lemma typed_parts:
  assumes "typed l"
  shows "10 \<notin> set l" "c_string (l @ [10])" "l \<noteq> bytes ''/shutdown''" "short_message (l @ [10])"
  using assms
  by (auto simp: typed_def list_all_iff line_end_def c_string_def is_shutdown_def cstr_def bytes_def
      short_message_def BUFFER_SIZE_def MAX_BUFFER_def)

definition keyboard :: "u8 list list \<Rightarrow> u8 list" where
  "keyboard ls = concat (map (\<lambda>l. l @ [10]) ls) @ bytes ''/quit'' @ [10]"

lemma client_buffer:
  assumes "10 \<notin> set l" "c_string l" "length l < BUFFER_SIZE - 2" "length msg = BUFFER_SIZE"
  shows "\<exists>msg'. fgets msg BUFFER_SIZE (l @ 10 # rest) = (msg', rest) \<and> length msg' = BUFFER_SIZE
    \<and> cstr (msg'[BUFFER_SIZE - 1 := 0]) = l @ [10]"
proof -
  have "fgets msg BUFFER_SIZE (l @ 10 # rest) = (read_into msg ((l @ [10]) @ [0]), rest)"
    using fgets_one_line [of l BUFFER_SIZE rest] assms by (simp add: fgets_def)
  moreover have "cstr ((read_into msg ((l @ [10]) @ [0]))[BUFFER_SIZE - 1 := 0]) = l @ [10]"
    unfolding read_into_def append_assoc [of "l @ [10]"]
    using cstr_terminated [of "l @ [10]" "BUFFER_SIZE - 1"] assms by (simp add: c_string_def)
  moreover have "length (read_into msg ((l @ [10]) @ [0])) = BUFFER_SIZE" using assms by simp
  ultimately show ?thesis by blast
qed

lemma command_tests:
  assumes "10 \<notin> set l" "cstr msg = l @ [10]"
  shows "strncmp_eq 6 msg (bytes ''/quit'' @ [10]) \<longleftrightarrow> l = bytes ''/quit''"
    "strncmp_eq 11 msg (bytes ''/shutdown'' @ [10]) \<longleftrightarrow> l = bytes ''/shutdown''"
proof -
  have "cstr (bytes ''/quit'' @ [10]) = bytes ''/quit'' @ [10]"
      "cstr (bytes ''/shutdown'' @ [10]) = bytes ''/shutdown'' @ [10]"
      "length (bytes ''/quit'') = 5" "length (bytes ''/shutdown'') = 9"
    by (simp_all add: cstr_def bytes_def)
  then show "strncmp_eq 6 msg (bytes ''/quit'' @ [10]) \<longleftrightarrow> l = bytes ''/quit''"
      "strncmp_eq 11 msg (bytes ''/shutdown'' @ [10]) \<longleftrightarrow> l = bytes ''/shutdown''"
    using take_command [OF assms(1), of "bytes ''/quit''" 6] take_command [OF assms(1), of "bytes ''/shutdown''" 11]
    by (simp_all add: strncmp_eq_def assms(2))
qed

lemma client_session:
  assumes "list_all typed ls" "length msg = BUFFER_SIZE" "length ts = length ls"
    and "list_all (\<lambda>t. list_all (\<lambda>c. \<not> line_end c) t) ts"
  shows "client_loop True (keyboard ls) (map (\<lambda>t. (t @ [10], False)) ts) msg rb
    = \<lparr>messages = map (\<lambda>l. l @ [10]) ls, screen = map (\<lambda>t. t @ [10]) ts, client_status = Quit\<rparr>"
  using assms
proof (induction ls arbitrary: ts msg rb)
  case Nil
  obtain msg' where "fgets msg BUFFER_SIZE (keyboard []) = (msg', [])"
      "cstr (msg'[BUFFER_SIZE - 1 := 0]) = bytes ''/quit'' @ [10]"
    using client_buffer [of "bytes ''/quit''" msg "[]"] Nil.prems(2)
    by (auto simp: keyboard_def bytes_def c_string_def BUFFER_SIZE_def)
  then show ?case using Nil.prems(3) command_tests(1) [of "bytes ''/quit''"]
    by (subst client_loop.simps) (simp add: Let_def bytes_def)
next
  case (Cons l ls)
  obtain t ts' where ts: "ts = t # ts'" using Cons.prems(3) by (cases ts) auto
  have l: "typed l" "list_all (\<lambda>c. \<not> line_end c) t" using Cons.prems ts by auto
  note p = typed_parts [OF l(1)]
  have "c_string l" "length l < BUFFER_SIZE - 2" "l \<noteq> bytes ''/quit''"
    using l(1) p(2) by (auto simp: typed_def c_string_def)
  then obtain msg' where m: "fgets msg BUFFER_SIZE (keyboard (l # ls)) = (msg', keyboard ls)"
      "length msg' = BUFFER_SIZE" "cstr (msg'[BUFFER_SIZE - 1 := 0]) = l @ [10]"
    using client_buffer [OF p(1) _ _ Cons.prems(2), of "keyboard ls"] by (auto simp: keyboard_def)
  have "print_until_newline (read_into rb (t @ [10])) = Some (t @ [10])"
    using print_line [OF l(2)] by (simp add: read_into_def)
  moreover have "client_loop True (keyboard ls) (map (\<lambda>t. (t @ [10], False)) ts') (msg'[BUFFER_SIZE - 1 := 0])
      (replicate BUFFER_SIZE 48)
      = \<lparr>messages = map (\<lambda>l. l @ [10]) ls, screen = map (\<lambda>t. t @ [10]) ts', client_status = Quit\<rparr>"
    by (rule Cons.IH) (use Cons.prems ts m in auto)
  ultimately show ?case
    using m command_tests [OF p(1) m(3)] \<open>l \<noteq> bytes ''/quit''\<close> p(3)
    by (subst client_loop.simps) (simp add: Let_def ts)
qed


section \<open>Instances\<close>

lemma sample_messages:
  "polite [bytes ''5'' @ [10], bytes ''x'' @ [10], bytes ''7'' @ [10]]"
  "short_message (bytes ''/shutdown'' @ [10])" "is_shutdown (bytes ''/shutdown'' @ [10])"
  "list_all typed [bytes ''5'', bytes ''x'']"
  "server_setup 2 \<lparr>socket_result = 3, bind_result = 0, listen_result = 0\<rparr> = Some 3"
  by (simp_all add: polite_def short_message_def is_shutdown_def typed_def line_end_def cstr_def
      bytes_def MAX_BUFFER_def BUFFER_SIZE_def server_setup_def EADDRINUSE_def)

lemma donated_sample:
  "donated strtod_int [bytes ''5'' @ [10], bytes ''x'' @ [10], bytes ''7'' @ [10]] = [5, 7]"
  by code_simp


theorem donation_server_leaks_witness:
  "\<exists>t. server1_main int_ops strtod_int 2 \<lparr>socket_result = 3, bind_result = 0, listen_result = 0\<rparr>
      (visits [(4, []), (5, [bytes ''5'' @ [10], bytes ''x'' @ [10], bytes ''7'' @ [10]])]) = Some t
    \<and> descriptors t = [3, 4, 5]"
  using donation_server_leaks [OF sample_messages(5),
      of "[(4, []), (5, [bytes ''5'' @ [10], bytes ''x'' @ [10], bytes ''7'' @ [10]])]" int_ops strtod_int]
    sample_messages(1) by (auto simp: polite_def)

theorem message_overread_witness:
  "serve_client int_ops strtod_int [Received (replicate 1024 49)] clear_msg 0
     = ([], 0, replicate 1024 49, Overread)"
proof -
  have "replicate 9 49 \<noteq> bytes ''/shutdown''" by code_simp
  then have "\<not> is_shutdown (replicate 1024 49)"
    by (simp add: is_shutdown_def cstr_def takeWhile_replicate)
  then show ?thesis using message_overread [of "replicate 1024 49" int_ops strtod_int 0]
    by (simp add: MAX_BUFFER_def list_all_iff line_end_def)
qed

definition sample_format :: "int reply \<Rightarrow> u8 list" where
  "sample_format r = (case r of NotANumber t \<Rightarrow> bytes ''no'' | Balance b \<Rightarrow> bytes ''ok'')"


text \<open>
  When the server has gone, \<^verbatim>\<open>read\<close> leaves the client's buffer full of the characters 0 that
  \<^verbatim>\<open>memset(read_buf, '0', ...)\<close> put there, and the output loop runs past its end.
\<close>

lemma closed_connection_overread:
  "print_until_newline (read_into (replicate BUFFER_SIZE 48) []) = None"
proof -
  have "print_until_newline (replicate n 48) = None" for n by (induction n) auto
  then show ?thesis by (simp add: read_into_def)
qed

end
