(* ===== verification/Scheduler.thy ===== *)
theory Scheduler
  imports CString "HOL-Library.Multiset"
begin

text \<open>
  The task scheduler of \<^verbatim>\<open>exercise05/task1\<close>: \<^verbatim>\<open>service.c\<close> sends a line of numbers to a message queue
  and \<^verbatim>\<open>scheduler.c\<close> receives and sorts them. What \<^verbatim>\<open>mq_open\<close>, \<^verbatim>\<open>mq_send\<close> and \<^verbatim>\<open>mq_receive\<close>
  return is a script; \<^verbatim>\<open>qsort\<close> is a parameter of which only the contract of the C standard is used.
\<close>

section \<open>The scheduler\<close>

definition MSG_SIZE :: nat where "MSG_SIZE = 1024"
definition MESSAGE_SIZE_ZERO_ERROR :: int where "MESSAGE_SIZE_ZERO_ERROR = -2"
definition NOT_A_NUMBER_ERROR :: int where "NOT_A_NUMBER_ERROR = -3"

text \<open>\<^verbatim>\<open>long numbers[MSG_SIZE]; char mesg_text[MSG_SIZE];\<close>\<close>

record message =
  numbers :: "int list"
  mesg_text :: "u8 list"

text \<open>
  \<^verbatim>\<open>compare\<close> reads the low half of each \<^verbatim>\<open>long\<close> as an \<^verbatim>\<open>int\<close>; the difference is an \<^verbatim>\<open>int\<close> too, with the
  wrap-around of two's complement where it overflows (C leaves that case undefined).
\<close>

definition compare :: "int \<Rightarrow> int \<Rightarrow> int" where
  "compare a b = to_int (to_int a - to_int b)"

text \<open>The tokens \<^verbatim>\<open>strtok(text, " ")\<close> and the following calls give; \<open>cur\<close> is the token read so far.\<close>

fun tokens_from :: "cstring \<Rightarrow> cstring \<Rightarrow> cstring list" where
  "tokens_from cur [] = (if cur = [] then [] else [cur])"
| "tokens_from cur (c # cs) =
     (if c \<noteq> 32 then tokens_from (cur @ [c]) cs
      else if cur = [] then tokens_from [] cs else cur # tokens_from [] cs)"

definition tokens :: "cstring \<Rightarrow> cstring list" where
  "tokens str = tokens_from [] str"

definition valid_token :: "cstring \<Rightarrow> bool" where
  "valid_token token \<longleftrightarrow> list_all (\<lambda>c. is_digit c \<or> c = 45) token"

fun parse_loop :: "cstring list \<Rightarrow> int list \<Rightarrow> nat \<Rightarrow> int \<times> int list" where
  "parse_loop [] nums cnt =
     (if cnt = 0 then (MESSAGE_SIZE_ZERO_ERROR, nums) else (int cnt, nums))"
| "parse_loop (token # rest) nums cnt =
     (if valid_token token then parse_loop rest (nums[cnt := strtol token]) (cnt + 1)
      else (NOT_A_NUMBER_ERROR, nums))"

text \<open>\<open>None\<close>: the text has no terminator and \<^verbatim>\<open>strtok\<close> reads past the end of the structure.\<close>

definition parse_numbers :: "message \<Rightarrow> (int \<times> message) option" where
  "parse_numbers input =
     (if 0 \<in> set (mesg_text input)
      then (case parse_loop (tokens (cstr (mesg_text input))) (numbers input) 0 of
              (cnt, nums) \<Rightarrow> Some (cnt, input\<lparr>numbers := nums\<rparr>))
      else None)"

text \<open>
  What \<^verbatim>\<open>main\<close> prints for a message: the failure, or the sorted numbers with the last progress
  value; \<open>Crash\<close> is the undefined case.
\<close>

datatype task = TaskFailed | Sorted "int list" | Crash

definition clean_buffer :: message where
  "clean_buffer = \<lparr>numbers = replicate MSG_SIZE 0, mesg_text = replicate MSG_SIZE 0\<rparr>"

definition perform_task :: "((int \<Rightarrow> int \<Rightarrow> int) \<Rightarrow> int list \<Rightarrow> int list) \<Rightarrow> message \<Rightarrow> task" where
  "perform_task qsort buffer =
     (case parse_numbers buffer of
        None \<Rightarrow> Crash
      | Some (cnt, buffer) \<Rightarrow>
          if cnt = MESSAGE_SIZE_ZERO_ERROR \<or> cnt = NOT_A_NUMBER_ERROR then TaskFailed
          else Sorted (qsort compare (take (nat cnt) (numbers buffer))))"

text \<open>
  A result of \<^verbatim>\<open>mq_receive\<close>: a message or an error; the flag says that SIGINT was handled before
  the loop condition is evaluated again.
\<close>

type_synonym mq_result = "(u8 list) option \<times> bool"

datatype scheduler_end = Polling | Stopped | Crashed

record scheduler =
  tasks :: "task list"
  scheduler_end :: scheduler_end

fun poll_loop :: "((int \<Rightarrow> int \<Rightarrow> int) \<Rightarrow> int list \<Rightarrow> int list) \<Rightarrow> bool \<Rightarrow> mq_result list \<Rightarrow> message
    \<Rightarrow> scheduler" where
  "poll_loop qsort should_run results buffer =
     (if \<not> should_run then \<lparr>tasks = [], scheduler_end = Stopped\<rparr>
      else case results of
        [] \<Rightarrow> \<lparr>tasks = [], scheduler_end = Polling\<rparr>
      | (None, sigint) # results \<Rightarrow> poll_loop qsort (\<not> sigint) results buffer
      | (Some bs, sigint) # results \<Rightarrow>
          (let buffer = buffer\<lparr>mesg_text := read_into (mesg_text buffer) bs\<rparr>;
               result = perform_task qsort buffer
           in if result = Crash then \<lparr>tasks = [], scheduler_end = Crashed\<rparr>
              else let s = poll_loop qsort (\<not> sigint) results clean_buffer
                   in s\<lparr>tasks := result # tasks s\<rparr>))"

declare poll_loop.simps [simp del]

text \<open>
  \<^verbatim>\<open>main\<close>: the names of the queues that exist afterwards are part of the state, since the clean-up
  removes \<^verbatim>\<open>argv[0]\<close> instead of the queue it has opened.
\<close>

definition scheduler_main :: "((int \<Rightarrow> int \<Rightarrow> int) \<Rightarrow> int list \<Rightarrow> int list) \<Rightarrow> cstring list \<Rightarrow> bool
    \<Rightarrow> mq_result list \<Rightarrow> cstring set \<Rightarrow> (scheduler \<times> cstring set) option" where
  "scheduler_main qsort argv opened results queues =
     (if length argv \<noteq> 2 \<or> \<not> opened then None
      else let s = poll_loop qsort True results clean_buffer;
               queues = insert (argv ! 1) queues
           in Some (s, if scheduler_end s = Stopped then queues - {argv ! 0} else queues))"

section \<open>The service\<close>

text \<open>
  \<open>line\<close> is what \<^verbatim>\<open>gets\<close> finds before the newline, \<open>None\<close> at the end of the input. The result says
  what is sent, with which priority, and the exit code; \<open>None\<close> if \<^verbatim>\<open>gets\<close> overruns the buffer.
\<close>

definition service_main :: "cstring list \<Rightarrow> cstring option \<Rightarrow> bool \<Rightarrow> bool
    \<Rightarrow> ((u8 list \<times> u32) option \<times> nat) option" where
  "service_main argv line opened accepted =
     (if length argv < 3 then Some (None, 1)
      else case line of
        None \<Rightarrow> Some (None, 1)
      | Some l \<Rightarrow>
          if MSG_SIZE \<le> length l then None
          else if \<not> opened then Some (None, 1)
          else Some (if accepted
                     then Some (read_into (replicate MSG_SIZE 0) (l @ [0]), word_of_int (strtol (argv ! 2)))
                     else None, 0))"

section \<open>Parsing\<close>

lemma tokens_from_word: "32 \<notin> set w \<Longrightarrow> tokens_from cur (w @ rest) = tokens_from (cur @ w) rest"
  by (induction w arbitrary: cur) auto

text \<open>Every token takes a byte and all but the last a separator.\<close>

lemma tokens_count: "2 * length (tokens str) \<le> Suc (length str)"
proof -
  have "2 * length (tokens_from cur str) \<le> Suc (length str) + (if cur = [] then 0 else 1)" for cur
    by (induction cur str rule: tokens_from.induct) (auto split: if_splits)
  from this [of "[]"] show ?thesis by (simp add: tokens_def)
qed

lemma parse_loop_valid:
  assumes "list_all valid_token ts" "cnt + length ts \<le> length nums" "0 < cnt + length ts"
  shows "parse_loop ts nums cnt =
    (int (cnt + length ts), take cnt nums @ map strtol ts @ drop (cnt + length ts) nums)"
  using assms
proof (induction ts nums cnt rule: parse_loop.induct)
  case (2 token rest nums cnt)
  then have "take (cnt + 1) (nums[cnt := strtol token]) = take cnt nums @ [strtol token]"
    by (simp add: take_Suc_conv_app_nth)
  with 2 show ?case by simp
qed simp

lemma parse_loop_invalid: "\<not> list_all valid_token ts \<Longrightarrow> fst (parse_loop ts nums cnt) = NOT_A_NUMBER_ERROR"
  by (induction ts nums cnt rule: parse_loop.induct) auto

lemma length_parse_loop: "length (snd (parse_loop ts nums cnt)) = length nums"
  by (induction ts nums cnt rule: parse_loop.induct) auto

definition text_tokens :: "message \<Rightarrow> cstring list" where
  "text_tokens m = tokens (cstr (mesg_text m))"

lemma cstr_shorter: "0 \<in> set buf \<Longrightarrow> length (cstr buf) < length buf"
proof -
  assume "0 \<in> set buf"
  then have "cstr buf \<noteq> buf" by (auto simp: cstr_def takeWhile_eq_all_conv)
  then show ?thesis unfolding cstr_def
    by (metis le_neq_implies_less length_takeWhile_le takeWhile_eq_take take_all order_refl)
qed

text \<open>A message of the size of the buffer holds at most 512 numbers, so that the array of 1024
  is never written out of bounds; the result of \<^verbatim>\<open>parse_numbers\<close> is the list of the values of the
  tokens if all of them look like numbers, and otherwise one of the two errors.\<close>

theorem parse_numbers_correct:
  assumes "0 \<in> set (mesg_text m)" "length (mesg_text m) = MSG_SIZE" "length (numbers m) = MSG_SIZE"
  shows "length (text_tokens m) \<le> MSG_SIZE div 2
    \<and> (case parse_numbers m of
         None \<Rightarrow> False
       | Some (cnt, m') \<Rightarrow>
           length (numbers m') = MSG_SIZE \<and>
           (if \<not> list_all valid_token (text_tokens m) then cnt = NOT_A_NUMBER_ERROR
            else if text_tokens m = [] then cnt = MESSAGE_SIZE_ZERO_ERROR
            else cnt = int (length (text_tokens m))
                 \<and> take (nat cnt) (numbers m') = map strtol (text_tokens m)))"
proof -
  have "length (cstr (mesg_text m)) < MSG_SIZE" using cstr_shorter [OF assms(1)] assms(2) by simp
  then have le: "length (text_tokens m) \<le> MSG_SIZE div 2"
    using tokens_count [of "cstr (mesg_text m)"] by (simp add: text_tokens_def MSG_SIZE_def)
  then have "length (text_tokens m) \<le> length (numbers m)" using assms(3) by (simp add: MSG_SIZE_def)
  then show ?thesis
    using le assms(1,3) parse_loop_valid [of "text_tokens m" 0 "numbers m"]
      parse_loop_invalid [of "text_tokens m" "numbers m" 0] length_parse_loop [of "text_tokens m" "numbers m" 0]
    by (auto simp: parse_numbers_def text_tokens_def [symmetric] split: prod.splits)
qed

section \<open>Decimal numbers\<close>

fun decimal_nat :: "nat \<Rightarrow> cstring" where
  "decimal_nat n = (if n < 10 then [48 + of_nat n] else decimal_nat (n div 10) @ [48 + of_nat (n mod 10)])"

declare decimal_nat.simps [simp del]

definition decimal :: "int \<Rightarrow> cstring" where
  "decimal v = (if v < 0 then 45 # decimal_nat (nat (- v)) else decimal_nat (nat v))"

lemma digit_byte:
  assumes "n < 10"
  shows "is_digit (48 + of_nat n)" "uint (48 + of_nat n :: u8) = 48 + int n"
proof -
  have "n \<in> {0, 1, 2, 3, 4, 5, 6, 7, 8, 9}" using assms by (simp add: atLeastLessThan_iff) presburger
  then show "is_digit (48 + of_nat n)" "uint (48 + of_nat n :: u8) = 48 + int n"
    by (auto simp: is_digit_def)
qed

lemma decimal_nat_digits:
  "decimal_nat n \<noteq> [] \<and> list_all is_digit (decimal_nat n) \<and> digits_value (decimal_nat n) = int n"
proof (induction n rule: decimal_nat.induct)
  case (1 n)
  show ?case
  proof (cases "n < 10")
    case True
    then show ?thesis using digit_byte [of n] by (simp add: decimal_nat.simps [of n] digits_value_def)
  next
    case False
    have "10 * int (n div 10) + int (n mod 10) = int n" by (simp add: zdiv_int zmod_int)
    with False 1 digit_byte [of "n mod 10"] show ?thesis
      by (simp add: decimal_nat.simps [of n] digits_value_def)
  qed
qed

lemma digit_not_space: "is_digit c \<Longrightarrow> \<not> is_space c \<and> c \<noteq> 45 \<and> c \<noteq> 43 \<and> c \<noteq> 32 \<and> c \<noteq> 0"
  by (auto simp: is_digit_def is_space_def word_le_nat_alt)

lemma strtol_decimal:
  assumes "- (2 ^ 63) \<le> v" "v < 2 ^ 63"
  shows "strtol (decimal v) = v"
proof -
  note d = decimal_nat_digits [of "nat \<bar>v\<bar>"]
  obtain c cs where c: "decimal_nat (nat \<bar>v\<bar>) = c # cs" "is_digit c" using d by (cases "decimal_nat (nat \<bar>v\<bar>)") auto
  have all: "takeWhile is_digit cs = cs" "digits_value (c # cs) = \<bar>v\<bar>"
    using d by (simp_all add: c takeWhile_eq_all_conv list_all_iff)
  show ?thesis
  proof (cases "v < 0")
    case True
    then have "decimal v = 45 # c # cs" by (simp add: decimal_def c(1) [symmetric])
    moreover have "\<not> is_space 45" by (simp add: is_space_def)
    ultimately show ?thesis using True assms c(2) by (simp add: strtol_def Let_def all)
  next
    case False
    then have "decimal v = c # cs" by (simp add: decimal_def c(1) [symmetric])
    then show ?thesis using False assms c(2) digit_not_space [OF c(2)] by (simp add: strtol_def Let_def all)
  qed
qed

section \<open>A request from end to end\<close>

text \<open>The contract of \<^verbatim>\<open>qsort\<close>: when the comparison orders the elements, the result is ordered.\<close>

definition orders :: "(int \<Rightarrow> int \<Rightarrow> int) \<Rightarrow> int list \<Rightarrow> bool" where
  "orders cmp xs \<longleftrightarrow> (\<forall>a \<in> set xs. \<forall>b \<in> set xs. (cmp a b \<le> 0 \<or> cmp b a \<le> 0)
     \<and> (\<forall>c \<in> set xs. cmp a b \<le> 0 \<longrightarrow> cmp b c \<le> 0 \<longrightarrow> cmp a c \<le> 0))"

definition qsort_contract :: "((int \<Rightarrow> int \<Rightarrow> int) \<Rightarrow> int list \<Rightarrow> int list) \<Rightarrow> bool" where
  "qsort_contract q \<longleftrightarrow> (\<forall>cmp xs. orders cmp xs \<longrightarrow>
     mset (q cmp xs) = mset xs \<and> sorted_wrt (\<lambda>a b. cmp a b \<le> 0) (q cmp xs))"

definition small_number :: "int \<Rightarrow> bool" where
  "small_number v \<longleftrightarrow> - (2 ^ 30) \<le> v \<and> v < 2 ^ 30"

lemma compare_small: "small_number a \<Longrightarrow> small_number b \<Longrightarrow> compare a b = a - b"
  by (simp add: compare_def small_number_def in_int_def INT_MIN_def INT_MAX_def)

lemma qsort_small:
  assumes "qsort_contract q" "list_all small_number ns"
  shows "q compare ns = sort ns"
proof -
  have small: "small_number v" if "v \<in> set ns" for v using assms(2) that by (simp add: list_all_iff)
  then have "orders compare ns" by (auto simp: orders_def compare_small)
  with assms(1) have ms: "mset (q compare ns) = mset ns"
    and srt: "sorted_wrt (\<lambda>a b. compare a b \<le> 0) (q compare ns)" by (auto simp: qsort_contract_def)
  from ms have "set (q compare ns) = set ns" by (rule mset_eq_setD)
  with srt have "sorted (q compare ns)"
    by (auto intro!: sorted_wrt_mono_rel [OF _ srt] simp: compare_small small)
  with ms show ?thesis by (metis properties_for_sort)
qed

text \<open>A line of numbers with a blank between them.\<close>

fun number_line :: "int list \<Rightarrow> cstring" where
  "number_line [] = []"
| "number_line [v] = decimal v"
| "number_line (v # vs) = decimal v @ 32 # number_line vs"

lemma decimal_bytes:
  "decimal v \<noteq> []" "32 \<notin> set (decimal v)" "c_string (decimal v)" "valid_token (decimal v)"
proof -
  have digit: "is_digit c \<or> c = 45" if "c \<in> set (decimal v)" for c
    using that decimal_nat_digits [of "nat \<bar>v\<bar>"] by (auto simp: decimal_def list_all_iff split: if_splits)
  have "c \<noteq> 32 \<and> c \<noteq> 0" if "c \<in> set (decimal v)" for c
    using digit [OF that] digit_not_space [of c] by auto
  with digit show "32 \<notin> set (decimal v)" "c_string (decimal v)" "valid_token (decimal v)"
    by (auto simp: c_string_def valid_token_def list_all_iff)
  show "decimal v \<noteq> []" using decimal_nat_digits by (simp add: decimal_def)
qed

lemma tokens_number_line: "tokens (number_line vs) = map decimal vs"
proof (induction vs rule: number_line.induct)
  case (2 v)
  then show ?case using tokens_from_word [of "decimal v" "[]" "[]"] decimal_bytes(1,2) [of v]
    by (simp add: tokens_def)
next
  case (3 v w vs)
  then show ?case using tokens_from_word [of "decimal v" "[]" "32 # number_line (w # vs)"] decimal_bytes(1,2) [of v]
    by (simp add: tokens_def)
qed (simp add: tokens_def)

lemma number_line_c_string: "c_string (number_line vs)"
  by (induction vs rule: number_line.induct) (use decimal_bytes(3) in \<open>auto simp: c_string_def\<close>)

definition received :: "u8 list \<Rightarrow> message" where
  "received bs = clean_buffer\<lparr>mesg_text := read_into (mesg_text clean_buffer) bs\<rparr>"

lemma read_into_padded: "length l < n \<Longrightarrow> read_into (replicate n 0) (l @ [0]) = read_into (replicate n 0) l"
  by (cases "n - length l") (auto simp: read_into_def)

lemma received_padded:
  assumes "length l < MSG_SIZE"
  shows "received (read_into (replicate MSG_SIZE 0) (l @ [0])) = received l"
proof -
  let ?bs = "read_into (replicate MSG_SIZE 0) l"
  have "length ?bs = MSG_SIZE" using assms by simp
  then have "read_into (replicate MSG_SIZE 0) ?bs = ?bs" unfolding read_into_def [of _ ?bs] by simp
  then show ?thesis by (simp add: received_def clean_buffer_def read_into_padded [OF assms])
qed

lemma perform_number_line:
  assumes "ns \<noteq> []" "length (number_line ns) < MSG_SIZE" "list_all (\<lambda>v. - (2 ^ 63) \<le> v \<and> v < 2 ^ 63) ns"
  shows "perform_task q (received (number_line ns)) = Sorted (q compare ns)"
proof -
  let ?l = "number_line ns" and ?m = "received (number_line ns)"
  have m: "mesg_text ?m = ?l @ 0 # replicate (MSG_SIZE - length ?l - 1) 0" "numbers ?m = replicate MSG_SIZE 0"
    using assms(2) by (cases "MSG_SIZE - length ?l", simp_all add: received_def clean_buffer_def read_into_def)+
  have t: "tokens (cstr (mesg_text ?m)) = map decimal ns"
    using number_line_c_string by (simp add: m tokens_number_line)
  have "list_all valid_token (map decimal ns)" using decimal_bytes(4) by (simp add: list_all_iff)
  moreover have "length (map decimal ns) \<le> MSG_SIZE"
    using tokens_count [of ?l] assms(2) by (simp add: tokens_number_line)
  ultimately have "parse_loop (map decimal ns) (numbers ?m) 0
      = (int (length ns), map strtol (map decimal ns) @ drop (length ns) (numbers ?m))"
    using parse_loop_valid [of "map decimal ns" 0 "numbers ?m"] assms(1) m by simp
  moreover have "map strtol (map decimal ns) = ns"
    unfolding map_map using assms(3) by (intro map_idI) (simp add: list_all_iff strtol_decimal)
  ultimately show ?thesis
    using t by (simp add: perform_task_def parse_numbers_def m(1)
        MESSAGE_SIZE_ZERO_ERROR_def NOT_A_NUMBER_ERROR_def)
qed

text \<open>C18: A request from end to end: the numbers the user types at the service reach the scheduler
  as a message of 1024 bytes, which answers with the sorted numbers, as long as the numbers are of
  less than 2^30 in size and the line has room in the buffer.\<close>

theorem request_sorted:
  assumes "qsort_contract qsort" "3 \<le> length argv"
    and "ns \<noteq> []" "list_all small_number ns" "length (number_line ns) < MSG_SIZE"
  shows "\<exists>bs. service_main argv (Some (number_line ns)) True True
      = Some (Some (bs, word_of_int (strtol (argv ! 2))), 0)
    \<and> length bs = MSG_SIZE \<and> perform_task qsort (received bs) = Sorted (sort ns)"
proof -
  have "list_all (\<lambda>v. - (2 ^ 63) \<le> v \<and> v < 2 ^ 63) ns"
    using assms(4) by (auto simp: list_all_iff small_number_def dest!: bspec)
  then have "perform_task qsort (received (read_into (replicate MSG_SIZE 0) (number_line ns @ [0])))
      = Sorted (sort ns)"
    unfolding received_padded [OF assms(5)]
    by (simp only: perform_number_line [OF assms(3,5)] qsort_small [OF assms(1,4)])
  then show ?thesis using assms(2,5) by (simp add: service_main_def)
qed

text \<open>The comparison looks at the low halves of the numbers only: whatever \<^verbatim>\<open>qsort\<close> does, the
  request \<^verbatim>\<open>1 4294967296\<close> is answered with the larger number first.\<close>

theorem compare_truncates:
  assumes "qsort_contract qsort"
  shows "perform_task qsort (received (bytes ''1 4294967296'')) = Sorted [4294967296, 1]"
proof -
  let ?ns = "[1, 4294967296] :: int list" and ?q = "qsort compare [1, 4294967296]"
  have c: "compare 1 4294967296 = 1" "compare 4294967296 1 = -1" "compare 1 1 = 0"
      "compare 4294967296 4294967296 = 0"
    by (simp_all add: compare_def to_int_def)
  then have "orders compare ?ns" by (simp add: orders_def)
  with assms have q: "mset ?q = mset ?ns" "sorted_wrt (\<lambda>a b. compare a b \<le> 0) ?q"
    by (auto simp: qsort_contract_def)
  have "length ?q = 2" using q(1) by (metis mset_eq_length length_Cons list.size(3) numeral_2_eq_2)
  then obtain a b where ab: "?q = [a, b]" by (auto simp: length_Suc_conv numeral_2_eq_2)
  with mset_eq_setD [OF q(1)] have "{a, b} = {1, 4294967296}" by simp
  then have "a = 1 \<and> b = 4294967296 \<or> a = 4294967296 \<and> b = 1" by (simp add: doubleton_eq_iff)
  moreover have "compare a b \<le> 0" using q(2) unfolding ab by simp
  ultimately have "?q = [4294967296, 1]" unfolding ab using c(1) by auto
  have line: "number_line ?ns = bytes ''1 4294967296''"
    by (simp add: bytes_def decimal_def decimal_nat.simps)
  have "length (number_line ?ns) < MSG_SIZE" unfolding line by (simp add: bytes_def MSG_SIZE_def)
  then show ?thesis using perform_number_line [of ?ns qsort] unfolding line
    by (simp add: \<open>?q = [4294967296, 1]\<close>)
qed

section \<open>The polling loop\<close>

text \<open>A received message with a terminator.\<close>

definition complete :: "u8 list \<Rightarrow> bool" where
  "complete bs \<longleftrightarrow> 0 \<in> set (read_into (replicate MSG_SIZE 0) bs)"

lemma perform_complete: "complete bs \<Longrightarrow> perform_task q (received bs) \<noteq> Crash"
  by (auto simp: complete_def perform_task_def parse_numbers_def received_def clean_buffer_def
      split: prod.splits)

lemma poll_loop_tasks:
  assumes "list_all (\<lambda>r. case r of None \<Rightarrow> True | Some bs \<Rightarrow> complete bs) rs"
  shows "poll_loop q True (map (\<lambda>r. (r, False)) rs @ (None, True) # rest) clean_buffer
    = \<lparr>tasks = map (\<lambda>bs. perform_task q (received bs)) (List.map_filter id rs), scheduler_end = Stopped\<rparr>"
  using assms
proof (induction rs)
  case Nil
  show ?case by (simp add: poll_loop.simps map_filter_def)
next
  case (Cons r rs)
  then show ?case
    using perform_complete by (subst poll_loop.simps)
      (auto simp: map_filter_def Let_def received_def [symmetric] split: option.splits)
qed

text \<open>The tasks do not influence each other: since the buffer is cleaned after each of them, the
  scheduler answers every message it receives before SIGINT as if it were the first, passes over
  failed receptions, and leaves its message queue behind when it stops, because it unlinks its own
  name instead of the queue's.\<close>

theorem tasks_independent:
  assumes "list_all (\<lambda>r. case r of None \<Rightarrow> True | Some bs \<Rightarrow> complete bs) rs" "name \<noteq> prog"
  shows "\<exists>s queues'. scheduler_main qsort [prog, name] True (map (\<lambda>r. (r, False)) rs @ (None, True) # rest) queues
      = Some (s, queues')
    \<and> tasks s = map (\<lambda>bs. perform_task qsort (received bs)) (List.map_filter id rs)
    \<and> scheduler_end s = Stopped \<and> name \<in> queues'"
  using assms(2) by (simp add: scheduler_main_def Let_def poll_loop_tasks [OF assms(1)])

section \<open>An instance: insertion sort\<close>

fun insert_by :: "(int \<Rightarrow> int \<Rightarrow> int) \<Rightarrow> int \<Rightarrow> int list \<Rightarrow> int list" where
  "insert_by cmp x [] = [x]"
| "insert_by cmp x (y # ys) = (if cmp x y \<le> 0 then x # y # ys else y # insert_by cmp x ys)"

fun sort_by :: "(int \<Rightarrow> int \<Rightarrow> int) \<Rightarrow> int list \<Rightarrow> int list" where
  "sort_by cmp [] = []"
| "sort_by cmp (x # xs) = insert_by cmp x (sort_by cmp xs)"

lemma mset_sort_by [simp]: "mset (sort_by cmp xs) = mset xs"
proof -
  have "mset (insert_by cmp x xs) = add_mset x (mset xs)" for x xs by (induction xs) auto
  then show ?thesis by (induction xs) auto
qed

lemma orders_total: "orders cmp xs \<Longrightarrow> a \<in> set xs \<Longrightarrow> b \<in> set xs \<Longrightarrow> cmp a b \<le> 0 \<or> cmp b a \<le> 0"
  unfolding orders_def by blast

lemma orders_trans:
  "orders cmp xs \<Longrightarrow> a \<in> set xs \<Longrightarrow> b \<in> set xs \<Longrightarrow> c \<in> set xs \<Longrightarrow> cmp a b \<le> 0 \<Longrightarrow> cmp b c \<le> 0
    \<Longrightarrow> cmp a c \<le> 0"
  unfolding orders_def by blast

lemma orders_subset: "orders cmp ys \<Longrightarrow> set xs \<subseteq> set ys \<Longrightarrow> orders cmp xs"
  unfolding orders_def by (meson subsetD)

lemma insert_by_sorted:
  assumes "orders cmp (x # xs)" "sorted_wrt (\<lambda>a b. cmp a b \<le> 0) xs"
  shows "sorted_wrt (\<lambda>a b. cmp a b \<le> 0) (insert_by cmp x xs)"
  using assms
proof (induction xs)
  case (Cons y ys)
  have set: "set (insert_by cmp x ys) = insert x (set ys)" for ys by (induction ys) auto
  show ?case
  proof (cases "cmp x y \<le> 0")
    case True
    then have "cmp x z \<le> 0" if "z \<in> set ys" for z
      using orders_trans [OF Cons.prems(1), of x y z] Cons.prems(2) that by simp
    with True Cons.prems show ?thesis by simp
  next
    case False
    then have "cmp y x \<le> 0" using orders_total [OF Cons.prems(1), of x y] by simp
    moreover have "orders cmp (x # ys)" by (rule orders_subset [OF Cons.prems(1)]) auto
    ultimately show ?thesis using False Cons by (simp add: set)
  qed
qed simp

lemma sort_by_contract: "qsort_contract sort_by"
proof -
  have "sorted_wrt (\<lambda>a b. cmp a b \<le> 0) (sort_by cmp xs)" if "orders cmp xs" for cmp xs
    using that
  proof (induction xs)
    case (Cons x xs)
    have "set (sort_by cmp xs) = set xs" by (rule mset_eq_setD) simp
    with orders_subset [OF Cons.prems] have "orders cmp (x # sort_by cmp xs)" "orders cmp xs" by auto
    with Cons.IH insert_by_sorted show ?case by simp
  qed simp
  then show ?thesis by (simp add: qsort_contract_def)
qed

theorem parse_numbers_correct_witness:
  "length (text_tokens (received [])) \<le> 512"
proof -
  have "mesg_text (received []) = replicate MSG_SIZE 0" "numbers (received []) = replicate MSG_SIZE 0"
    by (simp_all add: received_def clean_buffer_def read_into_def)
  moreover have "MSG_SIZE \<noteq> 0" "MSG_SIZE div 2 = 512" by (simp_all add: MSG_SIZE_def)
  ultimately show ?thesis using parse_numbers_correct [of "received []"] by simp
qed

theorem request_sorted_witness:
  "\<exists>bs. service_main [bytes ''service'', bytes ''/q'', bytes ''7''] (Some (number_line [3, - 5, 12])) True True
      = Some (Some (bs, 7), 0) \<and> perform_task sort_by (received bs) = Sorted [- 5, 3, 12]"
proof -
  have "length (number_line [3, - 5, 12]) = 7" "strtol (bytes ''7'') = 7" by code_simp+
  then show ?thesis
    using request_sorted [OF sort_by_contract, of "[bytes ''service'', bytes ''/q'', bytes ''7'']" "[3, - 5, 12]"]
    by (simp add: MSG_SIZE_def small_number_def) blast
qed

theorem compare_truncates_witness:
  "perform_task sort_by (received (bytes ''1 4294967296'')) = Sorted [4294967296, 1]"
  using compare_truncates [OF sort_by_contract] .

theorem tasks_independent_witness:
  "\<exists>s queues'. scheduler_main sort_by [bytes ''scheduler'', bytes ''/q''] True
      (map (\<lambda>r. (r, False)) [None, Some (bytes ''x''), None] @ (None, True) # []) {} = Some (s, queues')
    \<and> length (tasks s) = 1 \<and> bytes ''/q'' \<in> queues'"
proof -
  have "complete (bytes ''x'')" by (simp add: complete_def read_into_def bytes_def MSG_SIZE_def)
  then show ?thesis
    using tasks_independent [of "[None, Some (bytes ''x''), None]" "bytes ''/q''" "bytes ''scheduler''" sort_by "[]" "{}"]
    by (auto simp: map_filter_def bytes_def)
qed

end
