(* ===== verification/StringShift.thy ===== *)
theory StringShift
  imports CString
begin

text \<open>
  \<^verbatim>\<open>exercise04/task1/task1.c\<close>: one thread per command line argument shifts a copy of it by two
  places to the right and puts the original into upper case. Every thread works on its own two
  arrays, so that its body is one function; \<open>junk\<close> is what \<^verbatim>\<open>malloc\<close> leaves in the new array.
\<close>

section \<open>The program\<close>

function shift_loop :: "nat \<Rightarrow> nat \<Rightarrow> u8 list \<Rightarrow> u8 list \<Rightarrow> u8 list" where
  "shift_loop char_index input_length input shifted =
     (if char_index < input_length
      then shift_loop (char_index + 1) input_length input
             (shifted[(char_index + 2) mod input_length := input ! char_index])
      else shifted)"
  by pat_completeness auto
termination by (relation "measure (\<lambda>(i, n, input, shifted). n - i)") auto

function upper_loop :: "nat \<Rightarrow> nat \<Rightarrow> u8 list \<Rightarrow> u8 list" where
  "upper_loop char_index input_length input =
     (if char_index < input_length
      then upper_loop (char_index + 1) input_length (input[char_index := toupper (input ! char_index)])
      else input)"
  by pat_completeness auto
termination by (relation "measure (\<lambda>(i, n, input). n - i)") auto

declare shift_loop.simps [simp del] upper_loop.simps [simp del]

text \<open>The thread: the contents of both arrays afterwards.\<close>

definition string_shift_right :: "u8 list \<Rightarrow> u8 list \<Rightarrow> u8 list \<times> u8 list" where
  "string_shift_right input junk =
     (let input_length = length (cstr input);
          shifted = shift_loop 0 input_length input junk;
          input = upper_loop 0 input_length input
      in (input, shifted[input_length := 0]))"

text \<open>
  \<^verbatim>\<open>main\<close>: the results of the \<^verbatim>\<open>malloc\<close> calls for the copies, \<open>None\<close> for \<^verbatim>\<open>NULL\<close>, in the order of
  the arguments, and what the threads' arrays contain when they get them. The output is, for
  every argument, the original, the string in upper case and the shifted one.
\<close>

fun copy_strings :: "cstring list \<Rightarrow> u8 list option list \<Rightarrow> u8 list list option" where
  "copy_strings [] mallocs = Some []"
| "copy_strings (arg # args) (Some block # mallocs) =
     map_option ((#) (read_into block (strdup arg))) (copy_strings args mallocs)"
| "copy_strings _ _ = None"

definition shift_main :: "cstring list \<Rightarrow> u8 list option list \<Rightarrow> u8 list list
    \<Rightarrow> (cstring \<times> cstring \<times> cstring) list option" where
  "shift_main argv mallocs junks =
     (case copy_strings argv mallocs of
        None \<Rightarrow> None
      | Some shared_strings \<Rightarrow>
          Some (map (\<lambda>(arg, input, junk).
                  case string_shift_right input junk of
                    (upper, shifted) \<Rightarrow> (arg, cstr upper, cstr shifted))
                (zip argv (zip shared_strings junks))))"

section \<open>The loops\<close>

lemma shift_back: "i < n \<Longrightarrow> ((i + 2) mod n + (2 * n - 2)) mod n = i"
  "i < n \<Longrightarrow> ((i + (2 * n - 2)) mod n + 2) mod n = i" for i n :: nat
proof -
  assume "i < n"
  then have e: "(i + 2) + (2 * n - 2) = i + 2 * n" "(i + (2 * n - 2)) + 2 = i + 2 * n" by simp_all
  show "((i + 2) mod n + (2 * n - 2)) mod n = i" "((i + (2 * n - 2)) mod n + 2) mod n = i"
    unfolding mod_add_left_eq e using \<open>i < n\<close> by simp_all
qed

lemma shift_index_eq:
  fixes i k n :: nat
  assumes "i < n" "k < n"
  shows "(i + 2) mod n = (k + 2) mod n \<longleftrightarrow> i = k"
proof
  assume e: "(i + 2) mod n = (k + 2) mod n"
  have "((k + 2) mod n + (2 * n - 2)) mod n = i" unfolding e [symmetric] by (rule shift_back(1) [OF assms(1)])
  then show "i = k" unfolding shift_back(1) [OF assms(2)] by (rule sym)
qed simp

lemma length_shift_loop [simp]: "length (shift_loop i n input shifted) = length shifted"
proof (induction i n input shifted rule: shift_loop.induct)
  case (1 i n input shifted)
  then show ?case by (cases "i < n") (simp_all add: shift_loop.simps [of i])
qed

lemma shift_loop_nth:
  "k < n \<Longrightarrow> n \<le> length shifted \<Longrightarrow> shift_loop i n input shifted ! ((k + 2) mod n)
     = (if i \<le> k then input ! k else shifted ! ((k + 2) mod n))"
proof (induction i n input shifted rule: shift_loop.induct)
  case (1 i n input shifted)
  show ?case
  proof (cases "i < n")
    case True
    let ?sh = "shifted[(i + 2) mod n := input ! i]"
    have "(i + 2) mod n < length shifted"
      using True 1 by (metis less_le_trans mod_less_divisor not_less_zero neq0_conv)
    then have "?sh ! ((k + 2) mod n) = (if i = k then input ! k else shifted ! ((k + 2) mod n))"
      using shift_index_eq [OF True 1(2)] by (auto simp: nth_list_update)
    moreover have "shift_loop i n input shifted = shift_loop (i + 1) n input ?sh"
      using True by (simp add: shift_loop.simps [of i])
    ultimately show ?thesis using 1(1) [OF True] 1(2,3) by simp
  next
    case False
    with 1 show ?thesis by (simp add: shift_loop.simps [of i])
  qed
qed

lemma upper_loop_map:
  "n \<le> length input \<Longrightarrow> i \<le> n \<Longrightarrow> upper_loop i n input
     = take i input @ map toupper (drop i (take n input)) @ drop n input"
proof (induction i n input rule: upper_loop.induct)
  case (1 i n input)
  show ?case
  proof (cases "i < n")
    case True
    then have "take (i + 1) (input[i := toupper (input ! i)]) = take i input @ [toupper (input ! i)]"
      using 1 by (simp add: take_Suc_conv_app_nth)
    moreover have "drop i (take n input) = input ! i # drop (i + 1) (take n input)"
      using True 1 by (simp add: Cons_nth_drop_Suc [symmetric])
    ultimately show ?thesis using 1 True by (subst upper_loop.simps) (simp add: drop_take)
  next
    case False
    with 1 show ?thesis by (subst upper_loop.simps) simp
  qed
qed

lemma shift_loop_rotate:
  assumes "n = length s" "length junk = Suc n"
  shows "take n (shift_loop 0 n (s @ rest) junk) = rotate (2 * n - 2) s"
proof (rule nth_equalityI)
  show "length (take n (shift_loop 0 n (s @ rest) junk)) = length (rotate (2 * n - 2) s)"
    using assms by simp
next
  fix j
  assume "j < length (take n (shift_loop 0 n (s @ rest) junk))"
  then have "j < n" by simp
  define k where "k = (j + (2 * n - 2)) mod n"
  have "k < n" using \<open>j < n\<close> by (simp add: k_def)
  have "shift_loop 0 n (s @ rest) junk ! ((k + 2) mod n) = (s @ rest) ! k"
    using shift_loop_nth [OF \<open>k < n\<close>, of junk 0 "s @ rest"] assms(2) by (simp del: add_2_eq_Suc')
  also have "\<dots> = s ! k" using \<open>k < n\<close> assms(1) by (simp add: nth_append)
  finally have "shift_loop 0 n (s @ rest) junk ! j = s ! k"
    unfolding k_def shift_back(2) [OF \<open>j < n\<close>] .
  moreover have "rotate (2 * n - 2) s ! j = s ! k"
    using \<open>j < n\<close> assms(1) nth_rotate [of j s "2 * n - 2"] by (simp only: k_def add.commute)
  ultimately show "take n (shift_loop 0 n (s @ rest) junk) ! j = rotate (2 * n - 2) s ! j"
    using \<open>j < n\<close> by simp
qed

lemma toupper_nonzero: "c \<noteq> 0 \<Longrightarrow> toupper c \<noteq> 0"
  by (auto simp: toupper_def is_lower_def)

lemma string_shift_right_correct:
  assumes "c_string s" "length junk = Suc (length s)"
  shows "case string_shift_right (strdup s) junk of
    (upper, shifted) \<Rightarrow> upper = strdup (map toupper s) \<and> shifted = strdup (rotate (2 * length s - 2) s)"
proof -
  let ?n = "length s"
  have "(shift_loop 0 ?n (strdup s) junk)[?n := 0] = take ?n (shift_loop 0 ?n (strdup s) junk) @ [0]"
    using assms(2) by (simp add: upd_conv_take_nth_drop)
  then show ?thesis
    using assms upper_loop_map [of ?n "strdup s" 0] shift_loop_rotate [OF refl assms(2), of "[0]"]
    by (simp add: string_shift_right_def strdup_def)
qed

lemma copy_strings_correct:
  "list_all2 (\<lambda>arg m. \<exists>b. m = Some b \<and> length b = Suc (length arg)) args mallocs
    \<Longrightarrow> copy_strings args mallocs = Some (map strdup args)"
proof (induction args mallocs rule: list_all2_induct)
  case (Cons arg args m mallocs)
  then obtain b where "m = Some b" "length b = Suc (length arg)" by blast
  moreover from this have "read_into b (strdup arg) = strdup arg" by (simp add: read_into_def strdup_def)
  ultimately show ?case using Cons by simp
qed simp

text \<open>C37: Whatever the fresh memory contains, the program prints for every argument the argument,
  the argument in upper case, and the argument rotated by two places to the right; rotating that
  back gives the argument again.\<close>

theorem shift_main_correct:
  assumes "list_all c_string argv"
    and "list_all2 (\<lambda>arg m. \<exists>b. m = Some b \<and> length b = Suc (length arg)) argv mallocs"
    and "list_all2 (\<lambda>arg junk. length junk = Suc (length arg)) argv junks"
  shows "\<exists>out. shift_main argv mallocs junks = Some out
    \<and> out = map (\<lambda>s. (s, map toupper s, rotate (2 * length s - 2) s)) argv
    \<and> map (\<lambda>(original, upper, shifted). rotate 2 shifted) out = argv"
proof -
  let ?out = "map (\<lambda>s. (s, map toupper s, rotate (2 * length s - 2) s)) argv"
  have "map (\<lambda>(arg, input, junk). case string_shift_right input junk of
          (upper, shifted) \<Rightarrow> (arg, cstr upper, cstr shifted)) (zip argv (zip (map strdup argv) junks)) = ?out"
    using assms(3,1)
  proof (induction argv junks rule: list_all2_induct)
    case (Cons s argv junk junks)
    then have "c_string s" by simp
    moreover from this have "c_string (map toupper s)" "c_string (rotate (2 * length s - 2) s)"
      by (auto simp: c_string_def) (metis toupper_nonzero)
    ultimately show ?case
      using Cons string_shift_right_correct [of s junk] by (auto simp: strdup_def split: prod.splits)
  qed simp
  then have "shift_main argv mallocs junks = Some ?out"
    by (simp add: shift_main_def copy_strings_correct [OF assms(2)])
  moreover have "rotate 2 (rotate (2 * length s - 2) s) = s" for s :: cstring
  proof (cases "s = []")
    case False
    then have "2 + (2 * length s - 2) = 2 * length s" by (cases s) auto
    then show ?thesis by (simp only: rotate_rotate) (metis mod_mult_self2_is_0 rotate0 rotate_conv_mod id_apply)
  qed simp
  then have "map (\<lambda>(original, upper, shifted). rotate 2 shifted) ?out = argv" by (simp add: comp_def)
  ultimately show ?thesis by blast
qed

theorem shift_main_correct_witness:
  "\<exists>out. shift_main [bytes ''prog'', bytes ''Hello''] [Some (replicate 5 7), Some (replicate 6 9)]
      [replicate 5 1, replicate 6 2] = Some out
    \<and> snd (snd (out ! 1)) = bytes ''loHel''"
proof -
  have "rotate (2 * length (bytes ''Hello'') - 2) (bytes ''Hello'') = bytes ''loHel''" by code_simp
  then show ?thesis
    using shift_main_correct [of "[bytes ''prog'', bytes ''Hello'']" "[Some (replicate 5 7), Some (replicate 6 9)]"
        "[replicate 5 1, replicate 6 2]"]
    by (simp add: bytes_def c_string_def)
qed

end
