(* ===== verification/Chat.thy ===== *)
theory Chat
  imports Pthread CString
begin

text \<open>
  The chat server \<^verbatim>\<open>exercise09/task1/server.c\<close> and its client \<^verbatim>\<open>client.c\<close>: a listener thread accepts
  clients, a thread per client reads messages, and main waits for the end. The kernel's answers
  are part of the schedule; \<^verbatim>\<open>pthread_create\<close> is taken to succeed.
\<close>

section \<open>Names\<close>

definition MAX_BUFFER :: nat where "MAX_BUFFER = 1024"
definition MAX_CONNECTIONS :: nat where "MAX_CONNECTIONS = 16"
definition MAX_ADMINS :: nat where "MAX_ADMINS = 5"

text \<open>The size of the arrays for names.\<close>

definition NAME :: nat where "NAME = 50"

text \<open>\<^verbatim>\<open>strncpy(dst, src, n)\<close> pads with NUL bytes and leaves no terminator when there is no room.\<close>

definition strncpy :: "cstring \<Rightarrow> nat \<Rightarrow> u8 list" where
  "strncpy src n = take n (src @ replicate n 0)"

text \<open>The global array: the names given on the command line, zeros after them.\<close>

definition admin_usernames :: "cstring list \<Rightarrow> u8 list list" where
  "admin_usernames names =
     map (\<lambda>a. strncpy a NAME) names @ replicate (MAX_ADMINS - length names) (replicate NAME 0)"

definition check_admin :: "u8 list list \<Rightarrow> u8 list \<Rightarrow> bool" where
  "check_admin admins name \<longleftrightarrow> list_ex (\<lambda>a. cstr name = cstr a) (take MAX_ADMINS admins)"

section \<open>The server\<close>

record client_info =
  socket :: int
  username :: "u8 list"
  is_admin :: bool

datatype listener_pc = LWhile | LAccept | LLockTest int | LTest int | LUnlockFull int | LClose int
  | LUnlock int | LRead int | LLockAdd client_info | LAdd client_info | LUnlockAdd | LDone

datatype client_pc = CRead | CSay "u8 list" | CLockAdmin | CUnlockAdmin | CStop | CClose
  | CLockLeave | CLeave | CUnlockLeave | CDone | CCancelled

datatype main_pc = MBusy | MCancel | MJoinListener | MFor nat | MJoin nat | MExit

text \<open>
  \<open>infos\<close> has an entry for every thread that has been created, in this order. \<open>ub\<close>: an access out
  of the bounds of an array has happened.
\<close>

record chat =
  running :: bool
  clients_mutex :: pmutex
  client_count :: int
  client_threads :: "nat list"
  client_sockets :: "int list"
  infos :: "client_info list"
  cpc :: "nat \<Rightarrow> client_pc"
  cancelled :: "nat \<Rightarrow> bool"
  lpc :: listener_pc
  lcancelled :: bool
  mpc :: main_pc
  closed :: "int list"
  ub :: bool

definition chat_init :: chat where
  "chat_init = \<lparr>running = True, clients_mutex = mutex_init, client_count = 0,
     client_threads = replicate MAX_CONNECTIONS 0, client_sockets = replicate MAX_CONNECTIONS 0,
     infos = [], cpc = (\<lambda>_. CRead), cancelled = (\<lambda>_. False), lpc = LWhile, lcancelled = False,
     mpc = MBusy, closed = [], ub = False\<rparr>"

text \<open>What a call of the kernel gives: a descriptor, an interruption, an error, or data.\<close>

datatype kernel = Done | Fd int | Interrupt | Error | Data "u8 list"

text \<open>
  The listener. \<open>Data buf\<close> in \<open>LRead\<close> is the whole content of \<^verbatim>\<open>username\<close> after the call of \<^verbatim>\<open>read\<close>,
  whose result is not looked at: the bytes that have not been written are what \<^verbatim>\<open>malloc\<close> left.
\<close>

definition listener_step :: "u8 list list \<Rightarrow> chat \<Rightarrow> kernel \<Rightarrow> chat option" where
  "listener_step admins s k =
     (case lpc s of
        LWhile \<Rightarrow> Some (s\<lparr>lpc := if running s then LAccept else LDone\<rparr>)
      | LAccept \<Rightarrow>
          if lcancelled s then Some (s\<lparr>lpc := LDone\<rparr>)
          else (case k of
                  Fd fd \<Rightarrow> Some (s\<lparr>lpc := LLockTest fd\<rparr>)
                | Interrupt \<Rightarrow> Some (s\<lparr>lpc := LWhile\<rparr>)
                | Error \<Rightarrow> Some (s\<lparr>lpc := LDone\<rparr>)
                | _ \<Rightarrow> None)
      | LLockTest fd \<Rightarrow> map_option (\<lambda>m. s\<lparr>clients_mutex := m, lpc := LTest fd\<rparr>) (mutex_lock (clients_mutex s) 0)
      | LTest fd \<Rightarrow>
          Some (s\<lparr>lpc := if client_count s \<ge> int MAX_CONNECTIONS then LUnlockFull fd else LUnlock fd\<rparr>)
      | LUnlockFull fd \<Rightarrow> map_option (\<lambda>m. s\<lparr>clients_mutex := m, lpc := LClose fd\<rparr>) (mutex_unlock (clients_mutex s) 0)
      | LClose fd \<Rightarrow> Some (s\<lparr>closed := closed s @ [fd], lpc := LWhile\<rparr>)
      | LUnlock fd \<Rightarrow> map_option (\<lambda>m. s\<lparr>clients_mutex := m, lpc := LRead fd\<rparr>) (mutex_unlock (clients_mutex s) 0)
      | LRead fd \<Rightarrow>
          if lcancelled s then Some (s\<lparr>lpc := LDone\<rparr>)
          else (case k of
                  Data buf \<Rightarrow>
                    if length buf \<noteq> NAME then None
                    else (case strcspn_newline buf of
                            None \<Rightarrow> Some (s\<lparr>ub := True\<rparr>)
                          | Some i \<Rightarrow>
                              (let name = buf[i := 0]
                               in Some (s\<lparr>lpc := LLockAdd \<lparr>socket = fd, username = name,
                                                            is_admin = check_admin admins name\<rparr>\<rparr>)))
                | _ \<Rightarrow> None)
      | LLockAdd info \<Rightarrow> map_option (\<lambda>m. s\<lparr>clients_mutex := m, lpc := LAdd info\<rparr>) (mutex_lock (clients_mutex s) 0)
      | LAdd info \<Rightarrow>
          (let i = client_count s; t = length (infos s)
           in if i < 0 \<or> int MAX_CONNECTIONS \<le> i then Some (s\<lparr>ub := True\<rparr>)
              else Some (s\<lparr>client_sockets := (client_sockets s)[nat i := socket info],
                           client_threads := (client_threads s)[nat i := t],
                           infos := infos s @ [info], cpc := (cpc s)(t := CRead),
                           client_count := i + 1, lpc := LUnlockAdd\<rparr>))
      | LUnlockAdd \<Rightarrow> map_option (\<lambda>m. s\<lparr>clients_mutex := m, lpc := LWhile\<rparr>) (mutex_unlock (clients_mutex s) 0)
      | LDone \<Rightarrow> None)"

text \<open>
  The thread of client \<open>t\<close>. A message that fills the buffer makes \<^verbatim>\<open>msg[val_read] = 0\<close> write behind
  its end. A cancelled thread ends at its next cancellation point, \<^verbatim>\<open>read\<close> or \<^verbatim>\<open>close\<close>.
\<close>

definition client_step :: "chat \<Rightarrow> nat \<Rightarrow> kernel \<Rightarrow> chat option" where
  "client_step s t k =
     (let goto = (\<lambda>s p. s\<lparr>cpc := (cpc s)(t := p)\<rparr>); info = infos s ! t
      in case cpc s t of
        CRead \<Rightarrow>
          if cancelled s t then Some (goto s CCancelled)
          else (case k of
                  Data bs \<Rightarrow>
                    if bs = [] then Some (goto s CClose)
                    else if length bs < MAX_BUFFER then Some (goto s (CSay (bs @ [0])))
                    else if length bs = MAX_BUFFER then Some (s\<lparr>ub := True\<rparr>) else None
                | Error \<Rightarrow> Some (goto s CClose)
                | _ \<Rightarrow> None)
      | CSay msg \<Rightarrow>
          Some (goto s (if strncmp_eq 9 msg (bytes ''/shutdown'') \<and> is_admin info then CLockAdmin else CRead))
      | CLockAdmin \<Rightarrow> map_option (\<lambda>m. goto (s\<lparr>clients_mutex := m\<rparr>) CUnlockAdmin) (mutex_lock (clients_mutex s) (t + 1))
      | CUnlockAdmin \<Rightarrow> map_option (\<lambda>m. goto (s\<lparr>clients_mutex := m\<rparr>) CStop) (mutex_unlock (clients_mutex s) (t + 1))
      | CStop \<Rightarrow> Some (goto (s\<lparr>running := False\<rparr>) CClose)
      | CClose \<Rightarrow>
          if cancelled s t then Some (goto s CCancelled)
          else Some (goto (s\<lparr>closed := closed s @ [socket info]\<rparr>) CLockLeave)
      | CLockLeave \<Rightarrow> map_option (\<lambda>m. goto (s\<lparr>clients_mutex := m\<rparr>) CLeave) (mutex_lock (clients_mutex s) (t + 1))
      | CLeave \<Rightarrow> Some (goto (s\<lparr>client_count := client_count s - 1\<rparr>) CUnlockLeave)
      | CUnlockLeave \<Rightarrow> map_option (\<lambda>m. goto (s\<lparr>clients_mutex := m\<rparr>) CDone) (mutex_unlock (clients_mutex s) (t + 1))
      | CDone \<Rightarrow> None
      | CCancelled \<Rightarrow> None)"

text \<open>Main: the busy loop has no step while the flag is set.\<close>

definition chat_main :: "chat \<Rightarrow> chat option" where
  "chat_main s =
     (case mpc s of
        MBusy \<Rightarrow> if running s then None else Some (s\<lparr>mpc := MCancel\<rparr>)
      | MCancel \<Rightarrow> Some (s\<lparr>lcancelled := True, mpc := MJoinListener\<rparr>)
      | MJoinListener \<Rightarrow> if lpc s = LDone then Some (s\<lparr>mpc := MFor 0\<rparr>) else None
      | MFor i \<Rightarrow>
          if int i < client_count s
          then Some (s\<lparr>closed := closed s @ [client_sockets s ! i],
                       cancelled := (cancelled s)(client_threads s ! i := True), mpc := MJoin i\<rparr>)
          else Some (s\<lparr>mpc := MExit\<rparr>)
      | MJoin i \<Rightarrow>
          if cpc s (client_threads s ! i) \<in> {CDone, CCancelled} then Some (s\<lparr>mpc := MFor (i + 1)\<rparr>) else None
      | MExit \<Rightarrow> None)"

text \<open>A schedule; \<open>Sigint\<close> is the signal handler.\<close>

datatype chat_event = Listener kernel | Client nat kernel | Main | Sigint

fun chat_next :: "u8 list list \<Rightarrow> chat \<Rightarrow> chat_event \<Rightarrow> chat option" where
  "chat_next admins s e =
     (if ub s then None
      else case e of
        Listener k \<Rightarrow> listener_step admins s k
      | Client t k \<Rightarrow> if t < length (infos s) then client_step s t k else None
      | Main \<Rightarrow> chat_main s
      | Sigint \<Rightarrow> Some (s\<lparr>running := False\<rparr>))"

declare chat_next.simps [simp del]

text \<open>The start of \<^verbatim>\<open>main\<close>: the results of \<^verbatim>\<open>socket\<close>, \<^verbatim>\<open>bind\<close>, \<^verbatim>\<open>listen\<close> and the creation of the listener.\<close>

definition chat_setup :: "cstring list \<Rightarrow> int \<Rightarrow> int \<Rightarrow> int \<Rightarrow> int \<Rightarrow> (u8 list list \<times> chat) option" where
  "chat_setup argv sock bound listening created =
     (if length argv < 3 \<or> length argv > 7 then None
      else if sock < 0 \<or> bound < 0 \<or> listening < 0 \<or> created \<noteq> 0 then None
      else Some (admin_usernames (drop 2 argv), chat_init))"

section \<open>The invariant\<close>

text \<open>The clients that have not been taken off the counter.\<close>

definition present :: "chat \<Rightarrow> nat set" where
  "present s = {t. t < length (infos s) \<and> cpc s t \<noteq> CUnlockLeave \<and> cpc s t \<noteq> CDone}"

fun adding :: "listener_pc \<Rightarrow> bool" where
  "adding (LUnlock fd) = True"
| "adding (LRead fd) = True"
| "adding (LLockAdd i) = True"
| "adding (LAdd i) = True"
| "adding _ = False"

fun listener_holds :: "listener_pc \<Rightarrow> bool" where
  "listener_holds (LTest fd) = True"
| "listener_holds (LUnlockFull fd) = True"
| "listener_holds (LUnlock fd) = True"
| "listener_holds (LAdd i) = True"
| "listener_holds LUnlockAdd = True"
| "listener_holds _ = False"

fun client_holds :: "client_pc \<Rightarrow> bool" where
  "client_holds CUnlockAdmin = True"
| "client_holds CLeave = True"
| "client_holds CUnlockLeave = True"
| "client_holds _ = False"

fun pending_info :: "listener_pc \<Rightarrow> client_info option" where
  "pending_info (LLockAdd i) = Some i"
| "pending_info (LAdd i) = Some i"
| "pending_info _ = None"

definition count_inv :: "chat \<Rightarrow> bool" where
  "count_inv s \<longleftrightarrow> client_count s = int (card (present s)) \<and> client_count s \<le> int MAX_CONNECTIONS
     \<and> (adding (lpc s) \<longrightarrow> client_count s < int MAX_CONNECTIONS)
     \<and> length (client_sockets s) = MAX_CONNECTIONS \<and> length (client_threads s) = MAX_CONNECTIONS"

definition mutex_inv :: "chat \<Rightarrow> bool" where
  "mutex_inv s \<longleftrightarrow> (clients_mutex s = Some 0 \<longleftrightarrow> listener_holds (lpc s))
     \<and> (\<forall>t. clients_mutex s = Some (Suc t) \<longleftrightarrow> t < length (infos s) \<and> client_holds (cpc s t))"

definition admin_inv :: "u8 list list \<Rightarrow> chat \<Rightarrow> bool" where
  "admin_inv admins s \<longleftrightarrow>
     (\<forall>i. i \<in> set (infos s) \<or> pending_info (lpc s) = Some i \<longrightarrow> is_admin i = check_admin admins (username i))
     \<and> (\<forall>t < length (infos s). cpc s t \<in> {CLockAdmin, CUnlockAdmin, CStop} \<longrightarrow> is_admin (infos s ! t))"

definition chat_inv :: "u8 list list \<Rightarrow> chat \<Rightarrow> bool" where
  "chat_inv admins s \<longleftrightarrow> count_inv s \<and> mutex_inv s \<and> admin_inv admins s"

lemma chat_init_inv: "chat_inv admins chat_init"
  by (auto simp: chat_inv_def count_inv_def mutex_inv_def admin_inv_def chat_init_def present_def
      mutex_init_def)

lemma finite_present [simp]: "finite (present s)"
  by (simp add: present_def)

lemma listener_count:
  assumes "count_inv s" "listener_step admins s k = Some u"
  shows "count_inv u"
proof (cases "\<exists>info. lpc s = LAdd info")
  case True
  then obtain info where pc: "lpc s = LAdd info" by blast
  let ?i = "client_count s" and ?t = "length (infos s)"
  have i: "0 \<le> ?i" "?i < int MAX_CONNECTIONS" using assms(1) pc by (auto simp: count_inv_def)
  let ?v = "s\<lparr>client_sockets := (client_sockets s)[nat ?i := socket info],
      client_threads := (client_threads s)[nat ?i := ?t], infos := infos s @ [info],
      cpc := (cpc s)(?t := CRead), client_count := ?i + 1, lpc := LUnlockAdd\<rparr>"
  have "u = ?v" using assms(2) pc i by (simp add: listener_step_def Let_def)
  moreover have "present ?v = insert ?t (present s)" "?t \<notin> present s" by (auto simp: present_def)
  ultimately show ?thesis using assms(1) i by (simp add: count_inv_def)
next
  case False
  then have "present u = present s \<and> client_count u = client_count s \<and> client_sockets u = client_sockets s
      \<and> client_threads u = client_threads s \<and> (adding (lpc u) \<longrightarrow> adding (lpc s) \<or> client_count s < int MAX_CONNECTIONS)"
    using assms(2)
    by (auto simp: listener_step_def present_def Let_def split: listener_pc.splits kernel.splits option.splits if_splits)
  with assms(1) show ?thesis by (auto simp: count_inv_def)
qed

lemma client_count_inv:
  assumes "count_inv s" "t < length (infos s)" "client_step s t k = Some u"
  shows "count_inv u"
proof (cases "cpc s t = CLeave")
  case True
  then have u: "u = s\<lparr>client_count := client_count s - 1, cpc := (cpc s)(t := CUnlockLeave)\<rparr>"
    using assms(3) by (simp add: client_step_def)
  have "t \<in> present s" using True assms(2) by (simp add: present_def)
  moreover have "present u = present s - {t}" by (auto simp: present_def u)
  ultimately have "card (present s) = Suc (card (present u))"
    using card.remove [OF finite_present] by simp
  with assms(1) show ?thesis by (simp add: count_inv_def u)
next
  case False
  then have "present u = present s \<and> client_count u = client_count s \<and> client_sockets u = client_sockets s
      \<and> client_threads u = client_threads s \<and> lpc u = lpc s"
    using assms(3)
    by (auto simp: client_step_def present_def Let_def split: client_pc.splits kernel.splits if_splits)
  with assms(1) show ?thesis by (auto simp: count_inv_def)
qed

lemma main_keeps:
  "chat_main s = Some u \<Longrightarrow> present u = present s \<and> client_count u = client_count s
     \<and> client_sockets u = client_sockets s \<and> client_threads u = client_threads s \<and> lpc u = lpc s
     \<and> infos u = infos s \<and> cpc u = cpc s \<and> clients_mutex u = clients_mutex s \<and> running u = running s
     \<and> ub u = ub s"
  by (auto simp: chat_main_def present_def split: main_pc.splits if_splits)

lemma listener_moves:
  assumes "listener_step admins s k = Some u"
  shows "mutex_moved (clients_mutex s) (clients_mutex u) 0 (listener_holds (lpc s)) (listener_holds (lpc u))"
    "t < length (infos u) \<and> client_holds (cpc u t) \<longleftrightarrow> t < length (infos s) \<and> client_holds (cpc s t)"
  using assms
  by (cases "lpc s"; auto simp: listener_step_def mutex_moved_def Let_def less_Suc_eq
        split: kernel.splits option.splits if_splits)+

lemma listener_mutex:
  assumes "mutex_inv s" "listener_step admins s k = Some u"
  shows "mutex_inv u"
  unfolding mutex_inv_def listener_moves(2) [OF assms(2)]
  using mutex_moved_holder [OF listener_moves(1) [OF assms(2)]] assms(1) by (simp add: mutex_inv_def)

lemma client_moves:
  assumes "client_step s t k = Some u"
  shows "mutex_moved (clients_mutex s) (clients_mutex u) (Suc t) (client_holds (cpc s t)) (client_holds (cpc u t))"
    "t' \<noteq> t \<Longrightarrow> cpc u t' = cpc s t'" "lpc u = lpc s" "infos u = infos s"
  using assms
  by (cases "cpc s t"; auto simp: client_step_def mutex_moved_def Let_def split: kernel.splits if_splits)+

lemma client_mutex:
  assumes "mutex_inv s" "t < length (infos s)" "client_step s t k = Some u"
  shows "mutex_inv u"
proof -
  note moves = client_moves [OF assms(3)]
  have "clients_mutex s = Some (Suc t) \<longleftrightarrow> client_holds (cpc s t)"
    using assms(1,2) by (simp add: mutex_inv_def)
  note holder = mutex_moved_holder [OF moves(1) this]
  have "clients_mutex u = Some (Suc t') \<longleftrightarrow> t' < length (infos u) \<and> client_holds (cpc u t')" for t'
  proof (cases "t' = t")
    case True
    with holder(1) assms(2) moves(4) show ?thesis by simp
  next
    case False
    with holder(2) [of "Suc t'"] assms(1) moves(2) [of t'] moves(4) show ?thesis by (simp add: mutex_inv_def)
  qed
  moreover have "clients_mutex u = Some 0 \<longleftrightarrow> listener_holds (lpc u)"
    using holder(2) [of 0] assms(1) moves(3) by (simp add: mutex_inv_def)
  ultimately show ?thesis by (simp add: mutex_inv_def)
qed

lemma listener_admin:
  assumes "admin_inv admins s" "listener_step admins s k = Some u"
  shows "admin_inv admins u"
  using assms
  by (cases "lpc s")
     (auto simp: listener_step_def admin_inv_def Let_def nth_append less_Suc_eq split: kernel.splits option.splits if_splits)

lemma client_admin:
  assumes "admin_inv admins s" "t < length (infos s)" "client_step s t k = Some u"
  shows "admin_inv admins u"
  using assms
  by (cases "cpc s t")
     (auto simp: client_step_def admin_inv_def Let_def split: kernel.splits if_splits)

lemma chat_inv_step:
  assumes "chat_inv admins s" "chat_next admins s e = Some u"
  shows "chat_inv admins u"
proof (cases e)
  case (Listener k)
  with assms show ?thesis
    by (auto simp: chat_inv_def chat_next.simps split: if_splits intro: listener_count listener_mutex listener_admin)
next
  case (Client t k)
  with assms show ?thesis
    by (auto simp: chat_inv_def chat_next.simps split: if_splits intro: client_count_inv client_mutex client_admin)
next
  case Main
  with assms(2) have "chat_main s = Some u" by (auto simp: chat_next.simps split: if_splits)
  note same = main_keeps [OF this]
  have "count_inv u" using assms(1) same by (auto simp: chat_inv_def count_inv_def)
  moreover have "mutex_inv u = mutex_inv s" "admin_inv admins u = admin_inv admins s"
    by (simp_all only: mutex_inv_def admin_inv_def same)
  ultimately show ?thesis using assms(1) by (simp add: chat_inv_def)
next
  case Sigint
  then have u: "u = s\<lparr>running := False\<rparr>" using assms(2) by (auto simp: chat_next.simps split: if_splits)
  have "present u = present s" by (simp add: u present_def)
  then have "count_inv u = count_inv s" by (simp add: u count_inv_def)
  moreover have "mutex_inv u = mutex_inv s" by (simp add: u mutex_inv_def)
  moreover have "admin_inv admins u = admin_inv admins s" by (simp add: u admin_inv_def)
  ultimately show ?thesis using assms(1) by (simp add: chat_inv_def)
qed

interpretation chat: machine_inv "chat_next admins" "\<lambda>s. s = chat_init" "chat_inv admins"
  by unfold_locales (auto intro: chat_init_inv chat_inv_step)

section \<open>Properties of the server\<close>

text \<open>C5: The counter of clients is exact and stays between 0 and 16 although the listener releases
  the mutex between the test and the insertion: a client is always added inside the arrays, and
  never while another thread changes the counter.\<close>

theorem chat_counter:
  assumes "reach (chat_next admins) chat_init s"
  shows "client_count s = int (card (present s)) \<and> client_count s \<le> int MAX_CONNECTIONS
    \<and> (\<forall>info. lpc s = LAdd info \<longrightarrow>
         client_count s < int MAX_CONNECTIONS \<and> (\<forall>t < length (infos s). cpc s t \<noteq> CLeave))"
proof -
  have inv: "count_inv s" "mutex_inv s" using chat.reach_inv [OF assms refl] by (simp_all add: chat_inv_def)
  have "cpc s t \<noteq> CLeave" if "lpc s = LAdd info" "t < length (infos s)" for info t
  proof
    assume "cpc s t = CLeave"
    then have "clients_mutex s = Some (Suc t)" using inv(2) that(2) by (simp add: mutex_inv_def)
    moreover have "clients_mutex s = Some 0" using inv(2) that(1) by (simp add: mutex_inv_def)
    ultimately show False by simp
  qed
  with inv(1) show ?thesis by (auto simp: count_inv_def)
qed

text \<open>Runs without SIGINT.\<close>

definition quiet_next :: "u8 list list \<Rightarrow> chat \<Rightarrow> chat_event \<Rightarrow> chat option" where
  "quiet_next admins s e = (if e = Sigint then None else chat_next admins s e)"

definition stop_inv :: "u8 list list \<Rightarrow> chat \<Rightarrow> bool" where
  "stop_inv admins s \<longleftrightarrow> chat_inv admins s
     \<and> (running s \<or> (\<exists>i \<in> set (infos s). check_admin admins (username i)))"

lemma infos_kept:
  "listener_step admins s k = Some u \<Longrightarrow> set (infos s) \<subseteq> set (infos u) \<and> running u = running s"
  by (cases "lpc s") (auto simp: listener_step_def Let_def split: kernel.splits option.splits if_splits)

lemma client_running:
  assumes "client_step s t k = Some u" "cpc s t \<noteq> CStop"
  shows "running u = running s"
  using assms by (cases "cpc s t") (auto simp: client_step_def Let_def split: kernel.splits if_splits)

lemma stop_inv_step:
  assumes "stop_inv admins s" "quiet_next admins s e = Some u"
  shows "stop_inv admins u"
proof -
  have next_u: "chat_next admins s e = Some u" "e \<noteq> Sigint"
    using assms(2) by (auto simp: quiet_next_def split: if_splits)
  have inv: "chat_inv admins s" "chat_inv admins u"
    using assms(1) chat_inv_step [OF _ next_u(1)] by (auto simp: stop_inv_def)
  have "running u \<or> (\<exists>i \<in> set (infos u). check_admin admins (username i))"
  proof (cases e)
    case (Listener k)
    then have "listener_step admins s k = Some u" using next_u by (auto simp: chat_next.simps split: if_splits)
    from infos_kept [OF this] assms(1) show ?thesis by (auto simp: stop_inv_def)
  next
    case (Client t k)
    then have step: "client_step s t k = Some u" and t: "t < length (infos s)"
      using next_u by (auto simp: chat_next.simps split: if_splits)
    show ?thesis
    proof (cases "cpc s t = CStop")
      case True
      then have "check_admin admins (username (infos s ! t))" "infos s ! t \<in> set (infos s)"
        using inv(1) t nth_mem [OF t] by (auto simp: chat_inv_def admin_inv_def)
      then show ?thesis using client_moves(4) [OF step] by auto
    next
      case False
      then show ?thesis using assms(1) client_running [OF step] client_moves(4) [OF step] by (auto simp: stop_inv_def)
    qed
  next
    case Main
    then have "chat_main s = Some u" using next_u by (auto simp: chat_next.simps split: if_splits)
    from main_keeps [OF this] assms(1) show ?thesis by (auto simp: stop_inv_def)
  qed (use next_u(2) in simp)
  then show ?thesis using inv(2) by (simp add: stop_inv_def)
qed

lemma stop_inv_init: "stop_inv admins chat_init"
  by (simp add: stop_inv_def chat_init_inv) (simp add: chat_init_def)

interpretation quiet_chat: machine_inv "quiet_next admins" "\<lambda>s. s = chat_init" "stop_inv admins"
  by unfold_locales (auto intro: stop_inv_init stop_inv_step)

lemma run_quiet: "Sigint \<notin> set es \<Longrightarrow> run (chat_next admins) s es = Some t \<Longrightarrow> run (quiet_next admins) s es = Some t"
  by (induction es arbitrary: s) (auto simp: quiet_next_def split: option.splits)

text \<open>Without SIGINT the server is only stopped by a client whose name is found in the list of
  administrators.\<close>

theorem only_admins_stop:
  assumes "run (chat_next admins) chat_init es = Some s" "Sigint \<notin> set es" "\<not> running s"
  shows "\<exists>i \<in> set (infos s). check_admin admins (username i)"
proof -
  from quiet_chat.run_inv [OF stop_inv_init run_quiet [OF assms(2,1)]] assms(3) show ?thesis by (simp add: stop_inv_def)
qed

lemma cstr_strncpy: "c_string a \<Longrightarrow> cstr (strncpy a n) = take n a"
  by (cases "n - length a")
     (auto simp: strncpy_def cstr_def c_string_def takeWhile_tail takeWhile_eq_all_conv dest: in_set_takeD)

text \<open>Who is an administrator: a client whose name is on the command line (up to the 50 bytes
  that are kept) and, when less than five names are given, also a client with the empty name,
  because the unused entries of the array are empty strings.\<close>

theorem admin_rights:
  assumes "list_all c_string names" "length names \<le> MAX_ADMINS" "c_string n" "length n < NAME"
  shows "check_admin (admin_usernames names) (strncpy n NAME)
    \<longleftrightarrow> n \<in> set (map (take NAME) names) \<or> n = [] \<and> length names < MAX_ADMINS"
proof -
  have n: "cstr (strncpy n NAME) = n" using assms by (simp add: cstr_strncpy)
  have "map (cstr \<circ> (\<lambda>a. strncpy a NAME)) names = map (take NAME) names"
    using assms(1) by (simp add: list_all_iff cstr_strncpy)
  moreover have "cstr (replicate NAME 0) = []" by (simp add: cstr_def NAME_def)
  ultimately have "map cstr (admin_usernames names)
      = map (take NAME) names @ replicate (MAX_ADMINS - length names) []"
    by (simp add: admin_usernames_def)
  moreover have "length (admin_usernames names) = MAX_ADMINS" using assms(2) by (simp add: admin_usernames_def)
  then have "check_admin (admin_usernames names) (strncpy n NAME) \<longleftrightarrow> n \<in> set (map cstr (admin_usernames names))"
    by (auto simp: check_admin_def list_ex_iff n)
  ultimately show ?thesis by auto
qed

text \<open>A message that fills the buffer, and only such a message, makes the thread of its client
  write the terminator behind the end of the buffer.\<close>

theorem full_message_overflow:
  assumes "cpc s t = CRead" "\<not> cancelled s t" "\<not> ub s" "length bs \<le> MAX_BUFFER"
  shows "\<exists>u. client_step s t (Data bs) = Some u \<and> (ub u \<longleftrightarrow> length bs = MAX_BUFFER)"
  using assms by (auto simp: client_step_def Let_def MAX_BUFFER_def)

definition name_array :: "string \<Rightarrow> u8 list" where
  "name_array n = bytes n @ [10] @ replicate (NAME - length n - 1) 0"

definition arrival :: "int \<Rightarrow> string \<Rightarrow> chat_event list" where
  "arrival fd n = map Listener [Done, Fd fd, Done, Done, Done, Data (name_array n), Done, Done, Done]"

definition slot_schedule :: "chat_event list" where
  "slot_schedule = arrival 10 ''a'' @ arrival 11 ''b'' @ map (Client 0) [Data [], Done, Done, Done, Done]
     @ arrival 12 ''c'' @ [Sigint, Listener Done, Main, Main, Main, Main, Main, Main, Client 2 Done, Main, Main]"

text \<open>A new client can take the slot of a client that is still there: after a has left, c gets
  the slot of b. At the end main then closes a's descriptor a second time, never closes b's and
  exits while b's thread is waiting for a message.\<close>

theorem slot_overwritten:
  "\<exists>s. run (chat_next (admin_usernames [])) chat_init slot_schedule = Some s
    \<and> mpc s = MExit \<and> closed s = [10, 10, 12] \<and> map (cpc s) [0, 1, 2] = [CDone, CRead, CCancelled]
    \<and> map socket (infos s) = [10, 11, 12]"
proof -
  have "(case run (chat_next (admin_usernames [])) chat_init slot_schedule of
      None \<Rightarrow> False
    | Some s \<Rightarrow> mpc s = MExit \<and> closed s = [10, 10, 12] \<and> map (cpc s) [0, 1, 2] = [CDone, CRead, CCancelled]
        \<and> map socket (infos s) = [10, 11, 12])"
    by code_simp
  then show ?thesis by (auto split: option.splits)
qed

section \<open>The client\<close>

definition CLIENT_BUFFER :: nat where "CLIENT_BUFFER = 128"

text \<open>The loop goes on behind a newline it has replaced.\<close>

definition replace_newline_with_null :: "u8 list \<Rightarrow> u8 list" where
  "replace_newline_with_null str = replace_chars (\<lambda>c. if c = 10 then 0 else c) str"

definition print_characters :: "u8 list \<Rightarrow> (u8 \<times> int) list" where
  "print_characters str = map (\<lambda>c. (c, sint c)) (cstr str)"

text \<open>
  The first \<open>fuel\<close> rounds of the loop: what is sent and printed, and whether the client has stopped
  by itself. At the end of its input it sends empty messages for ever, which no bound changes.
\<close>

record chat_client =
  client_sent :: "cstring list"
  characters :: "(u8 \<times> int) list"
  stopped :: bool

fun chat_client_loop :: "nat \<Rightarrow> u8 list \<Rightarrow> u8 list \<Rightarrow> chat_client" where
  "chat_client_loop 0 input msg = \<lparr>client_sent = [], characters = [], stopped = False\<rparr>"
| "chat_client_loop (Suc fuel) input msg =
     (case fgets msg CLIENT_BUFFER input of
        (msg, input) \<Rightarrow>
          let line = cstr msg; printed = print_characters msg; msg = replace_newline_with_null msg
          in if strncmp_eq 9 msg (bytes ''/shutdown'')
             then \<lparr>client_sent = [line], characters = printed, stopped = True\<rparr>
             else let out = chat_client_loop fuel input (replicate CLIENT_BUFFER 0)
                  in out\<lparr>client_sent := line # client_sent out, characters := printed @ characters out\<rparr>)"

definition chat_client_main :: "nat \<Rightarrow> nat \<Rightarrow> cstring \<Rightarrow> int \<Rightarrow> int \<Rightarrow> u8 list \<Rightarrow> u8 list \<Rightarrow> chat_client option" where
  "chat_client_main fuel argc name sock connected input junk =
     (if argc \<noteq> 3 \<or> sock < 0 \<or> connected < 0 then None
      else let out = chat_client_loop fuel input junk
           in Some (out\<lparr>client_sent := name # client_sent out\<rparr>))"

text \<open>The lines a user can send: text without NUL bytes that fits, and no command.\<close>

definition chat_line :: "u8 list \<Rightarrow> bool" where
  "chat_line l \<longleftrightarrow> list_all (\<lambda>c. \<not> line_end c) l \<and> length l < CLIENT_BUFFER - 2"

lemma chat_fgets:
  assumes "chat_line l" "length msg = CLIENT_BUFFER"
  shows "\<exists>rest'. fgets msg CLIENT_BUFFER (l @ 10 # rest) = (l @ [10, 0] @ rest', rest)
    \<and> length (l @ [10, 0] @ rest') = CLIENT_BUFFER"
proof -
  have "10 \<notin> set l" "Suc (length l) < CLIENT_BUFFER"
    using assms(1) by (auto simp: chat_line_def list_all_iff line_end_def)
  from fgets_one_line [OF this] have "fgets msg CLIENT_BUFFER (l @ 10 # rest)
      = (read_into msg (l @ [10, 0]), rest)" by (simp add: fgets_def)
  then show ?thesis using assms by (simp add: read_into_def chat_line_def CLIENT_BUFFER_def)
qed

lemma chat_buffer:
  assumes "chat_line l"
  shows "cstr (l @ [10, 0] @ rest) = l @ [10]"
    "cstr (replace_newline_with_null (l @ [10, 0] @ rest)) = l"
proof -
  have "c_string (l @ [10])" using assms by (auto simp: chat_line_def list_all_iff line_end_def c_string_def)
  from cstr_id [OF this, of rest] show "cstr (l @ [10, 0] @ rest) = l @ [10]" by simp
  have "replace_newline_with_null (l @ 10 # xs) = l @ 0 # replace_newline_with_null xs" for xs
    using assms unfolding replace_newline_with_null_def
    by (induction l) (auto simp: chat_line_def line_end_def)
  moreover have "c_string l" using \<open>c_string (l @ [10])\<close> by (simp add: c_string_def)
  ultimately show "cstr (replace_newline_with_null (l @ [10, 0] @ rest)) = l" by simp
qed

definition says_shutdown :: "u8 list \<Rightarrow> bool" where
  "says_shutdown l \<longleftrightarrow> take 9 l = bytes ''/shutdown''"

lemma chat_round:
  assumes "chat_line l" "length msg = CLIENT_BUFFER"
  shows "chat_client_loop (Suc fuel) (l @ 10 # rest) msg =
    (let out = (if says_shutdown l then \<lparr>client_sent = [], characters = [], stopped = True\<rparr>
                else chat_client_loop fuel rest (replicate CLIENT_BUFFER 0))
     in out\<lparr>client_sent := (l @ [10]) # client_sent out,
            characters := map (\<lambda>c. (c, sint c)) (l @ [10]) @ characters out\<rparr>)"
proof -
  obtain r where r: "fgets msg CLIENT_BUFFER (l @ 10 # rest) = (l @ [10, 0] @ r, rest)"
    using chat_fgets [OF assms] by blast
  have "strncmp_eq 9 (replace_newline_with_null (l @ [10, 0] @ r)) (bytes ''/shutdown'') \<longleftrightarrow> says_shutdown l"
    unfolding strncmp_eq_def chat_buffer(2) [OF assms(1)] says_shutdown_def by (simp add: cstr_def bytes_def)
  then show ?thesis
    using chat_buffer(1) [OF assms(1), of r]
    by (simp add: r Let_def print_characters_def del: append.simps)
qed

text \<open>The client sends every line with its newline up to and including the first that begins
  with \<^verbatim>\<open>/shutdown\<close>, and stops there.\<close>

theorem chat_client_sends:
  assumes "list_all (\<lambda>l. chat_line l \<and> \<not> says_shutdown l) ls" "chat_line l" "says_shutdown l"
    and "length junk = CLIENT_BUFFER" "length ls < fuel"
  shows "\<exists>out. chat_client_main fuel 3 name 3 0 (concat (map (\<lambda>l. l @ [10]) ls) @ l @ 10 # rest) junk = Some out
    \<and> client_sent out = name # map (\<lambda>l. l @ [10]) (ls @ [l]) \<and> stopped out"
proof -
  have "client_sent (chat_client_loop fuel (concat (map (\<lambda>l. l @ [10]) ls) @ l @ 10 # rest) junk)
        = map (\<lambda>l. l @ [10]) (ls @ [l])
      \<and> stopped (chat_client_loop fuel (concat (map (\<lambda>l. l @ [10]) ls) @ l @ 10 # rest) junk)"
    using assms
  proof (induction ls arbitrary: fuel junk)
    case Nil
    then obtain f where "fuel = Suc f" by (cases fuel) auto
    with Nil show ?case by (simp add: chat_round Let_def del: chat_client_loop.simps)
  next
    case (Cons k ks)
    then obtain f where "fuel = Suc f" by (cases fuel) auto
    with Cons show ?case by (simp add: chat_round Let_def del: chat_client_loop.simps)
  qed
  then show ?thesis by (simp add: chat_client_main_def Let_def)
qed

text \<open>At the end of its input the client never stops: however long it runs, it has only sent
  empty messages.\<close>

theorem chat_client_eof:
  "chat_client_loop fuel [] (replicate CLIENT_BUFFER 0)
    = \<lparr>client_sent = replicate fuel [], characters = [], stopped = False\<rparr>"
proof (induction fuel)
  case (Suc fuel)
  have "cstr (replicate CLIENT_BUFFER 0) = []" by (simp add: cstr_def CLIENT_BUFFER_def)
  moreover have "replace_newline_with_null (replicate CLIENT_BUFFER 0) = replicate CLIENT_BUFFER 0"
    by (simp add: replace_newline_with_null_def CLIENT_BUFFER_def numeral_eq_Suc)
  ultimately show ?case
    using Suc by (simp add: fgets_def Let_def strncmp_eq_def print_characters_def cstr_def bytes_def)
qed simp

section \<open>Instances\<close>

definition two_clients :: "chat_event list" where
  "two_clients = arrival 10 ''a'' @ arrival 11 ''b''"

theorem chat_counter_witness:
  "\<exists>s. reach (chat_next (admin_usernames [])) chat_init s \<and> client_count s = 2 \<and> card (present s) = 2"
proof -
  have "(case run (chat_next (admin_usernames [])) chat_init two_clients of
      None \<Rightarrow> False | Some s \<Rightarrow> client_count s = 2)"
    by code_simp
  then obtain s where s: "run (chat_next (admin_usernames [])) chat_init two_clients = Some s" "client_count s = 2"
    by (auto split: option.splits)
  from chat_counter [OF run_reach [OF s(1)]] run_reach [OF s(1)] s(2) show ?thesis by auto
qed

definition shutdown_schedule :: "chat_event list" where
  "shutdown_schedule = arrival 10 ''a'' @ map (Client 0) [Data (bytes ''/shutdown''), Done, Done, Done, Done]"

theorem only_admins_stop_witness:
  "\<exists>s. run (chat_next (admin_usernames [bytes ''a''])) chat_init shutdown_schedule = Some s
    \<and> (\<exists>i \<in> set (infos s). check_admin (admin_usernames [bytes ''a'']) (username i))"
proof -
  have "(case run (chat_next (admin_usernames [bytes ''a''])) chat_init shutdown_schedule of
      None \<Rightarrow> False | Some s \<Rightarrow> \<not> running s)"
    by code_simp
  then obtain s where s: "run (chat_next (admin_usernames [bytes ''a''])) chat_init shutdown_schedule = Some s"
      "\<not> running s"
    by (auto split: option.splits)
  have "Sigint \<notin> set shutdown_schedule" by (auto simp: shutdown_schedule_def arrival_def)
  from only_admins_stop [OF s(1) this s(2)] s(1) show ?thesis by blast
qed

theorem admin_rights_witness:
  "check_admin (admin_usernames [bytes ''root'']) (strncpy [] NAME)
   \<and> \<not> check_admin (admin_usernames [bytes ''root'']) (strncpy (bytes ''guest'') NAME)"
  using admin_rights [of "[bytes ''root'']" "[]"] admin_rights [of "[bytes ''root'']" "bytes ''guest''"]
  by (simp add: c_string_def bytes_def MAX_ADMINS_def NAME_def)

theorem full_message_overflow_witness:
  "\<exists>u. client_step (chat_init\<lparr>infos := [\<lparr>socket = 4, username = [], is_admin = False\<rparr>]\<rparr>) 0
      (Data (replicate 1024 65)) = Some u \<and> ub u"
  using full_message_overflow
    [of "chat_init\<lparr>infos := [\<lparr>socket = 4, username = [], is_admin = False\<rparr>]\<rparr>" 0 "replicate 1024 65"]
  by (auto simp: chat_init_def MAX_BUFFER_def)

theorem chat_client_sends_witness:
  "\<exists>out. chat_client_main 2 3 (bytes ''bob'') 3 0
      (concat (map (\<lambda>l. l @ [10]) [bytes ''hi'']) @ bytes ''/shutdown'' @ 10 # []) (replicate CLIENT_BUFFER 7) = Some out
    \<and> client_sent out = [bytes ''bob'', bytes ''hi'' @ [10], bytes ''/shutdown'' @ [10]] \<and> stopped out"
  using chat_client_sends [of "[bytes ''hi'']" "bytes ''/shutdown''" "replicate CLIENT_BUFFER 7" 2 "bytes ''bob''" "[]"]
  by (simp add: chat_line_def says_shutdown_def line_end_def bytes_def CLIENT_BUFFER_def)

end
