(* ===== verification/WebServer.thy ===== *)
theory WebServer
  imports MyQueue CString "HOL-Library.Multiset"
begin

text \<open>
  The web server of \<^verbatim>\<open>exercise08/task3/server.c\<close>: main accepts connections and queues their sockets,
  worker threads take them from the queue and answer one request each. The arithmetic of \<^verbatim>\<open>double\<close>,
  \<^verbatim>\<open>strtod\<close> and the answers of the kernel are parameters.
\<close>

section \<open>Requests\<close>

definition MAX_BUFFER :: nat where "MAX_BUFFER = 1024"
definition POISON_PILL :: int where "POISON_PILL = -1"

text \<open>\<^verbatim>\<open>%s\<close> of \<^verbatim>\<open>sscanf\<close>: blanks are skipped, then the bytes up to the next blank are taken.\<close>

definition scan_word :: "cstring \<Rightarrow> cstring \<times> cstring" where
  "scan_word str =
     (let t = dropWhile is_space str in (takeWhile (\<lambda>c. \<not> is_space c) t, dropWhile (\<lambda>c. \<not> is_space c) t))"

text \<open>
  \<^verbatim>\<open>char method[16], path[64]; sscanf(buffer, "%s %s", method, path);\<close> -- \<open>None\<close> when a word does not
  fit into its array. The arrays have no initial value; \<open>junk\<close> is what they hold.
\<close>

definition scan_request :: "cstring \<times> cstring \<Rightarrow> cstring \<Rightarrow> (cstring \<times> cstring) option" where
  "scan_request junk buffer =
     (let (method, rest) = scan_word buffer; path = fst (scan_word rest)
      in if 16 \<le> length method \<or> 64 \<le> length path then None
         else Some (if method = [] then fst junk else method, if path = [] then snd junk else path))"

fun strstr :: "cstring \<Rightarrow> cstring \<Rightarrow> cstring option" where
  "strstr [] pat = (if pat = [] then Some [] else None)"
| "strstr (c # cs) pat = (if take (length pat) (c # cs) = pat then Some (c # cs) else strstr cs pat)"

definition blank_line :: cstring where "blank_line = [13, 10, 13, 10]"

datatype 'd request = Welcome | Donate 'd | Unanswered | Shutdown | NotImplemented

text \<open>The case distinction of \<^verbatim>\<open>handle_client\<close>; the value of Content-Length is read but not used.\<close>

definition parse_request :: "(cstring \<Rightarrow> 'd \<times> cstring) \<Rightarrow> cstring \<times> cstring \<Rightarrow> cstring \<Rightarrow> 'd request option" where
  "parse_request strtod junk buffer =
     map_option (\<lambda>(method, path).
        if method = bytes ''GET'' \<and> path = bytes ''/'' then Welcome
        else if method = bytes ''POST'' \<and> path = bytes ''/donate''
        then (case strstr buffer (bytes ''Content-Length: '') of
                None \<Rightarrow> Unanswered
              | Some content_length_str \<Rightarrow>
                  (case strstr buffer blank_line of
                     None \<Rightarrow> Unanswered
                   | Some body \<Rightarrow> Donate (fst (strtod (drop 4 body)))))
        else if method = bytes ''POST'' \<and> path = bytes ''/shutdown'' then Shutdown
        else NotImplemented)
       (scan_request junk buffer)"

section \<open>The threads\<close>

datatype 'd response = WelcomePage | Thanks nat 'd 'd | Stopping | Error501

datatype 'd worker_pc = WLock | WTest | WWait | WWoken | WPop | WUnlock int | WCheck int | WRead int
  | WParse int "u8 list" | WDonationLock int nat 'd | WLoad int nat 'd | WStore int nat 'd 'd
  | WDonationUnlock int nat 'd | WThank int nat 'd | WSub int | WReply int "'d response" | WClose int | WExit

datatype web_pc = MCreate nat | MSocket | MBind | MListen | MCheck | MAccept | MLock int | MPush int | MSignal | MUnlock | MPillLock
  | MPills nat | MBroadcast | MPillUnlock | MJoin nat | MExit | MFailure

text \<open>\<open>accepted\<close> and \<open>closed\<close> log the results of \<^verbatim>\<open>accept\<close> and the calls of \<^verbatim>\<open>close\<close>.\<close>

record 'd web =
  queue :: myqueue
  mutex_queue :: pmutex
  mutex_donation :: pmutex
  donations :: 'd
  running :: int
  wpc :: "nat \<Rightarrow> 'd worker_pc"
  mpc :: web_pc
  accepted :: "int list"
  closed :: "int list"
  responses :: "(int \<times> 'd response) list"
  undefined_behaviour :: bool

record 'd web_cfg =
  workers :: nat
  ops :: "'d double_ops"
  strtod_fun :: "cstring \<Rightarrow> 'd \<times> cstring"
  stack :: "cstring \<times> cstring"

definition web_init :: "'d web_cfg \<Rightarrow> 'd web" where
  "web_init cfg = \<lparr>queue = myqueue_init, mutex_queue = mutex_init, mutex_donation = mutex_init,
     donations = fzero (ops cfg), running = 1, wpc = (\<lambda>_. WLock), mpc = MCreate 0,
     accepted = [], closed = [], responses = [], undefined_behaviour = False\<rparr>"

text \<open>What \<^verbatim>\<open>accept\<close> or \<^verbatim>\<open>read\<close> returns; \<open>Data []\<close> is the end of the stream.\<close>

datatype kernel = Done | Fd int | Interrupted | Failed | Data "u8 list"

text \<open>
  Main is thread 0 of the queue's mutex. \<open>w\<close> is the worker the scheduler wakes at a signal. When a
  thread or the socket cannot be set up, main returns and the process ends: no thread goes on.
\<close>

definition web_main :: "'d web_cfg \<Rightarrow> 'd web \<Rightarrow> nat \<Rightarrow> kernel \<Rightarrow> 'd web option" where
  "web_main cfg s w k =
     (case mpc s of
        MCreate i \<Rightarrow>
          if i < workers cfg
          then (case k of Done \<Rightarrow> Some (s\<lparr>mpc := MCreate (i + 1)\<rparr>) | Failed \<Rightarrow> Some (s\<lparr>mpc := MFailure\<rparr>) | _ \<Rightarrow> None)
          else Some (s\<lparr>mpc := MSocket\<rparr>)
      | MSocket \<Rightarrow>
          (case k of Done \<Rightarrow> Some (s\<lparr>mpc := MBind\<rparr>) | Failed \<Rightarrow> Some (s\<lparr>mpc := MFailure\<rparr>) | _ \<Rightarrow> None)
      | MBind \<Rightarrow>
          (case k of Done \<Rightarrow> Some (s\<lparr>mpc := MListen\<rparr>) | Failed \<Rightarrow> Some (s\<lparr>mpc := MFailure\<rparr>) | _ \<Rightarrow> None)
      | MListen \<Rightarrow>
          (case k of Done \<Rightarrow> Some (s\<lparr>mpc := MCheck\<rparr>) | Failed \<Rightarrow> Some (s\<lparr>mpc := MFailure\<rparr>) | _ \<Rightarrow> None)
      | MCheck \<Rightarrow> Some (s\<lparr>mpc := if running s \<noteq> 0 then MAccept else MPillLock\<rparr>)
      | MAccept \<Rightarrow>
          (case k of
             Fd fd \<Rightarrow> if fd < 0 then None else Some (s\<lparr>accepted := accepted s @ [fd], mpc := MLock fd\<rparr>)
           | Interrupted \<Rightarrow> Some (s\<lparr>mpc := MPillLock\<rparr>)
           | Failed \<Rightarrow> Some (s\<lparr>mpc := MFailure\<rparr>)
           | _ \<Rightarrow> None)
      | MLock fd \<Rightarrow> map_option (\<lambda>m. s\<lparr>mutex_queue := m, mpc := MPush fd\<rparr>) (mutex_lock (mutex_queue s) 0)
      | MPush fd \<Rightarrow> Some (s\<lparr>queue := myqueue_push (queue s) fd, mpc := MSignal\<rparr>)
      | MSignal \<Rightarrow>
          if list_ex (\<lambda>j. wpc s j = WWait) [0..<workers cfg]
          then if wpc s w = WWait then Some (s\<lparr>wpc := (wpc s)(w := WWoken), mpc := MUnlock\<rparr>) else None
          else Some (s\<lparr>mpc := MUnlock\<rparr>)
      | MUnlock \<Rightarrow> map_option (\<lambda>m. s\<lparr>mutex_queue := m, mpc := MCheck\<rparr>) (mutex_unlock (mutex_queue s) 0)
      | MPillLock \<Rightarrow> map_option (\<lambda>m. s\<lparr>mutex_queue := m, mpc := MPills 0\<rparr>) (mutex_lock (mutex_queue s) 0)
      | MPills i \<Rightarrow>
          if i < workers cfg then Some (s\<lparr>queue := myqueue_push (queue s) POISON_PILL, mpc := MPills (i + 1)\<rparr>)
          else Some (s\<lparr>mpc := MBroadcast\<rparr>)
      | MBroadcast \<Rightarrow>
          Some (s\<lparr>wpc := (\<lambda>j. if wpc s j = WWait then WWoken else wpc s j), mpc := MPillUnlock\<rparr>)
      | MPillUnlock \<Rightarrow> map_option (\<lambda>m. s\<lparr>mutex_queue := m, mpc := MJoin 0\<rparr>) (mutex_unlock (mutex_queue s) 0)
      | MJoin i \<Rightarrow>
          if i < workers cfg then (if wpc s i = WExit then Some (s\<lparr>mpc := MJoin (i + 1)\<rparr>) else None)
          else Some (s\<lparr>mpc := MExit\<rparr>)
      | MExit \<Rightarrow> None
      | MFailure \<Rightarrow> None)"

text \<open>
  Worker \<open>j\<close> is thread \<open>j + 1\<close>. The addition to \<^verbatim>\<open>*donations\<close> is a load and a store; the answer reads
  the balance once more, after the mutex has been given back. The buffer is zero before \<^verbatim>\<open>read\<close>, so
  that the string functions see the received bytes up to their first NUL.
\<close>

definition worker_step :: "'d web_cfg \<Rightarrow> 'd web \<Rightarrow> nat \<Rightarrow> kernel \<Rightarrow> 'd web option" where
  "worker_step cfg s j k =
     (let goto = (\<lambda>s p. s\<lparr>wpc := (wpc s)(j := p)\<rparr>)
      in case wpc s j of
        WLock \<Rightarrow> map_option (\<lambda>m. goto (s\<lparr>mutex_queue := m\<rparr>) WTest) (mutex_lock (mutex_queue s) (Suc j))
      | WTest \<Rightarrow>
          if myqueue_is_empty (queue s)
          then map_option (\<lambda>m. goto (s\<lparr>mutex_queue := m\<rparr>) WWait) (mutex_unlock (mutex_queue s) (Suc j))
          else Some (goto s WPop)
      | WWait \<Rightarrow> None
      | WWoken \<Rightarrow> map_option (\<lambda>m. goto (s\<lparr>mutex_queue := m\<rparr>) WTest) (mutex_lock (mutex_queue s) (Suc j))
      | WPop \<Rightarrow>
          (case myqueue_pop (queue s) of
             None \<Rightarrow> None
           | Some (fd, q) \<Rightarrow> Some (goto (s\<lparr>queue := q\<rparr>) (WUnlock fd)))
      | WUnlock fd \<Rightarrow> map_option (\<lambda>m. goto (s\<lparr>mutex_queue := m\<rparr>) (WCheck fd)) (mutex_unlock (mutex_queue s) (Suc j))
      | WCheck fd \<Rightarrow> Some (goto s (if fd = POISON_PILL then WExit else WRead fd))
      | WRead fd \<Rightarrow>
          (case k of
             Data bs \<Rightarrow> if length bs < MAX_BUFFER then Some (goto s (WParse fd bs)) else None
           | Failed \<Rightarrow> Some (goto s (WClose fd))
           | _ \<Rightarrow> None)
      | WParse fd bs \<Rightarrow>
          (case parse_request (strtod_fun cfg) (stack cfg) (cstr (bs @ [0])) of
             None \<Rightarrow> Some (s\<lparr>undefined_behaviour := True\<rparr>)
           | Some Welcome \<Rightarrow> Some (goto s (WReply fd WelcomePage))
           | Some (Donate v) \<Rightarrow> Some (goto s (WDonationLock fd (length bs) v))
           | Some Unanswered \<Rightarrow> Some (goto s (WClose fd))
           | Some Shutdown \<Rightarrow> Some (goto s (WSub fd))
           | Some NotImplemented \<Rightarrow> Some (goto s (WReply fd Error501)))
      | WDonationLock fd n v \<Rightarrow>
          map_option (\<lambda>m. goto (s\<lparr>mutex_donation := m\<rparr>) (WLoad fd n v)) (mutex_lock (mutex_donation s) (Suc j))
      | WLoad fd n v \<Rightarrow> Some (goto s (WStore fd n v (donations s)))
      | WStore fd n v old \<Rightarrow> Some (goto (s\<lparr>donations := fadd (ops cfg) old v\<rparr>) (WDonationUnlock fd n v))
      | WDonationUnlock fd n v \<Rightarrow>
          map_option (\<lambda>m. goto (s\<lparr>mutex_donation := m\<rparr>) (WThank fd n v)) (mutex_unlock (mutex_donation s) (Suc j))
      | WThank fd n v \<Rightarrow> Some (goto s (WReply fd (Thanks n v (donations s))))
      | WSub fd \<Rightarrow> Some (goto (s\<lparr>running := running s - 1\<rparr>) (WReply fd Stopping))
      | WReply fd r \<Rightarrow> Some (goto (s\<lparr>responses := responses s @ [(fd, r)]\<rparr>) (WClose fd))
      | WClose fd \<Rightarrow> Some (goto (s\<lparr>closed := closed s @ [fd]\<rparr>) WLock)
      | WExit \<Rightarrow> None)"

datatype web_event = Main nat kernel | Worker nat kernel | Spurious nat

definition created :: "'d web_cfg \<Rightarrow> 'd web \<Rightarrow> nat" where
  "created cfg s = (case mpc s of MCreate i \<Rightarrow> i | _ \<Rightarrow> workers cfg)"

text \<open>The port and the number of workers.\<close>

definition web_args :: "cstring list \<Rightarrow> (int \<times> int) option" where
  "web_args argv = (if length argv \<noteq> 3 then None else Some (strtol (argv ! 1), strtol (argv ! 2)))"

definition ended :: "'d web \<Rightarrow> bool" where
  "ended s \<longleftrightarrow> undefined_behaviour s \<or> mpc s = MFailure"

fun web_next :: "'d web_cfg \<Rightarrow> 'd web \<Rightarrow> web_event \<Rightarrow> 'd web option" where
  "web_next cfg s (Main w k) = (if ended s then None else web_main cfg s w k)"
| "web_next cfg s (Worker j k) = (if ended s \<or> \<not> j < created cfg s then None else worker_step cfg s j k)"
| "web_next cfg s (Spurious j) = (if \<not> ended s \<and> wpc s j = WWait then Some (s\<lparr>wpc := (wpc s)(j := WWoken)\<rparr>) else None)"

section \<open>Where the sockets are\<close>

definition socket_set :: "int \<Rightarrow> int multiset" where
  "socket_set v = (if v = POISON_PILL then {#} else {#v#})"

fun hand :: "'d worker_pc \<Rightarrow> int multiset" where
  "hand (WUnlock fd) = socket_set fd"
| "hand (WCheck fd) = socket_set fd"
| "hand (WRead fd) = {#fd#}"
| "hand (WParse fd bs) = {#fd#}"
| "hand (WDonationLock fd n v) = {#fd#}"
| "hand (WLoad fd n v) = {#fd#}"
| "hand (WStore fd n v old) = {#fd#}"
| "hand (WDonationUnlock fd n v) = {#fd#}"
| "hand (WThank fd n v) = {#fd#}"
| "hand (WSub fd) = {#fd#}"
| "hand (WReply fd r) = {#fd#}"
| "hand (WClose fd) = {#fd#}"
| "hand _ = {#}"

fun main_hand :: "web_pc \<Rightarrow> int multiset" where
  "main_hand (MLock fd) = {#fd#}"
| "main_hand (MPush fd) = {#fd#}"
| "main_hand _ = {#}"

definition queued :: "'d web \<Rightarrow> int multiset" where
  "queued s = mset (filter (\<lambda>v. v \<noteq> POISON_PILL) (myqueue_values (queue s)))"

definition in_work :: "'d web_cfg \<Rightarrow> 'd web \<Rightarrow> int multiset" where
  "in_work cfg s = (\<Sum>j<workers cfg. hand (wpc s j))"

definition socket_inv :: "'d web_cfg \<Rightarrow> 'd web \<Rightarrow> bool" where
  "socket_inv cfg s \<longleftrightarrow> myqueue_inv (queue s) \<and> created cfg s \<le> workers cfg
     \<and> (\<forall>fd \<in># main_hand (mpc s). 0 \<le> fd)
     \<and> mset (accepted s) = queued s + main_hand (mpc s) + in_work cfg s + mset (closed s)"

lemma in_work_upd:
  "j < workers cfg \<Longrightarrow> wpc u = (wpc s)(j := p) \<Longrightarrow> in_work cfg u + hand (wpc s j) = in_work cfg s + hand p"
  unfolding in_work_def by (simp only: sum_upd)

lemma worker_frame:
  assumes "worker_step cfg s j k = Some u"
  shows "wpc u = (wpc s)(j := wpc u j)" "mpc u = mpc s" "accepted u = accepted s"
  using assms
  by (cases "wpc s j"; auto simp: worker_step_def Let_def split: kernel.splits option.splits request.splits if_splits)+

lemma worker_flow:
  assumes "worker_step cfg s j k = Some u" "myqueue_inv (queue s)"
  shows "myqueue_inv (queue u)"
    "queued u + hand (wpc u j) + mset (closed u) = queued s + hand (wpc s j) + mset (closed s)"
proof -
  show "myqueue_inv (queue u)" using assms
    by (cases "wpc s j"; auto simp: worker_step_def Let_def
        split: kernel.splits option.splits request.splits if_splits intro: mq.inv_pop)
  show "queued u + hand (wpc u j) + mset (closed u) = queued s + hand (wpc s j) + mset (closed s)"
  proof (cases "wpc s j = WPop")
    case True
    then obtain fd q where q: "myqueue_pop (queue s) = Some (fd, q)"
        "u = s\<lparr>queue := q, wpc := (wpc s)(j := WUnlock fd)\<rparr>"
      using assms(1) by (auto simp: worker_step_def Let_def split: option.splits)
    with mq.contents_pop [OF assms(2) q(1)] True show ?thesis by (simp add: queued_def socket_set_def)
  next
    case False
    with assms(1) show ?thesis
      by (cases "wpc s j"; auto simp: worker_step_def Let_def queued_def socket_set_def
          split: kernel.splits option.splits request.splits if_splits)
  qed
qed

lemma worker_sockets:
  assumes "socket_inv cfg s" "j < created cfg s" "worker_step cfg s j k = Some u"
  shows "socket_inv cfg u"
proof -
  have q: "myqueue_inv (queue s)" "j < workers cfg" using assms(1,2) by (auto simp: socket_inv_def)
  note f = worker_frame [OF assms(3)] worker_flow [OF assms(3) q(1)]
  have "queued u + in_work cfg u + mset (closed u) + hand (wpc s j)
      = queued u + mset (closed u) + (in_work cfg s + hand (wpc u j))"
    unfolding in_work_upd [OF q(2) f(1), symmetric] by (simp add: ac_simps)
  also have "\<dots> = queued s + in_work cfg s + mset (closed s) + hand (wpc s j)"
    using f(5) by (simp add: ac_simps)
  finally have "queued u + in_work cfg u + mset (closed u) = queued s + in_work cfg s + mset (closed s)" by simp
  then have "queued u + main_hand (mpc s) + in_work cfg u + mset (closed u)
      = queued s + main_hand (mpc s) + in_work cfg s + mset (closed s)" by (simp add: ac_simps)
  with assms(1) f show ?thesis by (simp add: socket_inv_def created_def)
qed

lemma main_sockets:
  assumes "socket_inv cfg s" "web_main cfg s w k = Some u"
  shows "socket_inv cfg u"
proof -
  have inv: "myqueue_inv (queue s)" using assms(1) by (simp add: socket_inv_def)
  have "in_work cfg u = in_work cfg s"
    unfolding in_work_def using assms(2)
    by (intro sum.cong) (auto simp: web_main_def split: web_pc.splits kernel.splits if_splits)
  moreover have "mset (accepted u) + queued s + main_hand (mpc s) = mset (accepted s) + queued u + main_hand (mpc u)
      \<and> myqueue_inv (queue u) \<and> created cfg u \<le> workers cfg \<and> closed u = closed s \<and> (\<forall>fd \<in># main_hand (mpc u). 0 \<le> fd)"
    using assms inv
    by (cases "mpc s")
       (auto simp: web_main_def queued_def mq.contents_push mq.inv_push socket_inv_def created_def
          POISON_PILL_def split: kernel.splits if_splits)
  ultimately show ?thesis using assms(1) by (auto simp: socket_inv_def ac_simps)
qed

lemma socket_inv_step:
  assumes "socket_inv cfg s" "web_next cfg s e = Some u"
  shows "socket_inv cfg u"
proof (cases e)
  case (Spurious j)
  then have u: "u = s\<lparr>wpc := (wpc s)(j := WWoken)\<rparr>" "wpc s j = WWait"
    using assms(2) by (auto split: if_splits)
  have "in_work cfg u = in_work cfg s" unfolding in_work_def using u by (intro sum.cong) auto
  with assms(1) show ?thesis by (simp add: socket_inv_def created_def queued_def u(1))
qed (use assms in \<open>auto split: if_splits intro: worker_sockets main_sockets\<close>)

lemma socket_inv_init: "socket_inv cfg (web_init cfg)"
  by (simp add: socket_inv_def web_init_def mq.inv_emp mq.contents_emp created_def queued_def in_work_def)

interpretation sockets: machine_inv "web_next cfg" "\<lambda>s. s = web_init cfg" "socket_inv cfg"
  by unfold_locales (auto intro: socket_inv_init socket_inv_step)

section \<open>The balance\<close>

fun updating :: "'d worker_pc \<Rightarrow> bool" where
  "updating (WLoad fd n v) = True"
| "updating (WStore fd n v old) = True"
| "updating (WDonationUnlock fd n v) = True"
| "updating _ = False"

definition balance_inv :: "'d web \<Rightarrow> bool" where
  "balance_inv s \<longleftrightarrow> (\<forall>j. mutex_donation s = Some (Suc j) \<longleftrightarrow> updating (wpc s j))
     \<and> (\<forall>j fd n v old. wpc s j = WStore fd n v old \<longrightarrow> old = donations s)"

lemma worker_moves:
  assumes "worker_step cfg s j k = Some u"
  shows "mutex_moved (mutex_donation s) (mutex_donation u) (Suc j) (updating (wpc s j)) (updating (wpc u j))"
    "(\<nexists>fd n v old. wpc s j = WStore fd n v old) \<Longrightarrow> donations u = donations s"
    "wpc u j = WStore fd n v old \<Longrightarrow> old = donations u"
  using assms
  by (cases "wpc s j"; auto simp: worker_step_def mutex_moved_def Let_def
      split: kernel.splits option.splits request.splits if_splits)+

lemma worker_balance:
  assumes "balance_inv s" "worker_step cfg s j k = Some u"
  shows "balance_inv u"
proof -
  note moves = worker_moves [OF assms(2)] and frame = worker_frame(1) [OF assms(2)]
  have other: "wpc u i = wpc s i" if "i \<noteq> j" for i using that frame by (metis fun_upd_other)
  have "mutex_donation s = Some (Suc j) \<longleftrightarrow> updating (wpc s j)" using assms(1) by (simp add: balance_inv_def)
  note holder = mutex_moved_holder [OF moves(1) this]
  have "mutex_donation u = Some (Suc i) \<longleftrightarrow> updating (wpc u i)" for i
    using holder(1) holder(2) [of "Suc i"] other [of i] assms(1) by (cases "i = j") (auto simp: balance_inv_def)
  moreover have "old = donations u" if w: "wpc u i = WStore fd n v old" for i fd n v old
  proof (cases "i = j")
    case True
    with w moves(3) show ?thesis by simp
  next
    case False
    with w other have s: "wpc s i = WStore fd n v old" by simp
    then have "mutex_donation s = Some (Suc i)" using assms(1) by (simp add: balance_inv_def)
    then have "mutex_donation s \<noteq> Some (Suc j)" using False by simp
    then have "\<not> updating (wpc s j)" using assms(1) by (simp add: balance_inv_def)
    then have "donations u = donations s" by (intro moves(2)) auto
    with s assms(1) show ?thesis by (simp add: balance_inv_def)
  qed
  ultimately show ?thesis unfolding balance_inv_def by blast
qed

lemma main_balance:
  assumes "balance_inv s" "web_main cfg s w k = Some u"
  shows "balance_inv u"
proof -
  have "donations u = donations s" "mutex_donation u = mutex_donation s"
      "wpc u j = wpc s j \<or> wpc s j = WWait \<and> wpc u j = WWoken" for j
    using assms(2) by (auto simp: web_main_def split: web_pc.splits kernel.splits if_splits)
  with assms(1) show ?thesis unfolding balance_inv_def by (metis updating.simps(6,7) worker_pc.distinct)
qed

lemma balance_inv_step:
  assumes "balance_inv s" "web_next cfg s e = Some u"
  shows "balance_inv u"
proof (cases e)
  case (Spurious j)
  then have "u = s\<lparr>wpc := (wpc s)(j := WWoken)\<rparr>" "wpc s j = WWait" using assms(2) by (auto split: if_splits)
  with assms(1) show ?thesis by (auto simp: balance_inv_def)
qed (use assms in \<open>auto split: if_splits intro: worker_balance main_balance\<close>)

lemma balance_inv_init: "balance_inv (web_init cfg)"
  by (simp add: balance_inv_def web_init_def mutex_init_def)

interpretation balance: machine_inv "web_next cfg" "\<lambda>s. s = web_init cfg" balance_inv
  by unfold_locales (auto intro: balance_inv_init balance_inv_step)

section \<open>Properties\<close>

text \<open>C7: No connection is lost or closed twice: in every reachable state the accepted sockets are,
  with multiplicities, those in main's hand, those in the queue, those a worker is serving, and
  those that have been closed.\<close>

theorem sockets_conserved:
  assumes "reach (web_next cfg) (web_init cfg) s"
  shows "mset (accepted s) = queued s + main_hand (mpc s) + in_work cfg s + mset (closed s)"
  using sockets.reach_inv [OF assms refl] by (simp add: socket_inv_def)

text \<open>No donation is lost, although an addition is a load and a store: a worker that stores adds
  its donation to the balance as it is at that moment, and no other worker is in the update.\<close>

theorem donation_not_lost:
  assumes "reach (web_next cfg) (web_init cfg) s" "wpc s j = WStore fd n v old" "worker_step cfg s j k = Some u"
  shows "donations u = fadd (ops cfg) (donations s) v \<and> (\<forall>i. updating (wpc s i) \<longrightarrow> i = j)"
proof -
  have inv: "balance_inv s" by (rule balance.reach_inv [OF assms(1) refl])
  then have "old = donations s" "mutex_donation s = Some (Suc j)"
    using assms(2) unfolding balance_inv_def by (blast, metis updating.simps(2))
  moreover have "donations u = fadd (ops cfg) old v" using assms(2,3) by (simp add: worker_step_def Let_def) auto
  moreover have "i = j" if "updating (wpc s i)" for i
    using that inv \<open>mutex_donation s = Some (Suc j)\<close> unfolding balance_inv_def by (metis nat.inject option.inject)
  ultimately show ?thesis by simp
qed

text \<open>What the server reads out of a donation as \<^verbatim>\<open>curl\<close> sends it.\<close>

definition donate_request :: "cstring \<Rightarrow> cstring \<Rightarrow> cstring" where
  "donate_request len body =
     bytes ''POST /donate HTTP/1.1'' @ [13, 10] @ bytes ''Content-Length: '' @ len @ blank_line @ body"

lemma strstr_skip: "\<not> take (length pat) (c # cs) = pat \<Longrightarrow> strstr (c # cs) pat = strstr cs pat"
  by simp

lemma strstr_digits: "list_all is_digit ds \<Longrightarrow> strstr (ds @ blank_line @ body) blank_line = Some (blank_line @ body)"
proof (induction ds)
  case (Cons d ds)
  then have "d \<noteq> 13" by (auto simp: is_digit_def)
  with Cons show ?case by (simp add: blank_line_def)
qed (simp add: blank_line_def)

text \<open>The amount of a donation is what follows the blank line, whatever the length field says and
  whatever the stack held.\<close>

theorem donation_parsed:
  assumes "list_all is_digit len"
  shows "parse_request strtod junk (donate_request len body) = Some (Donate (fst (strtod body)))"
proof -
  have scan: "scan_request junk (donate_request len body) = Some (bytes ''POST'', bytes ''/donate'')"
    by (simp add: scan_request_def scan_word_def donate_request_def bytes_def is_space_def)
  have "strstr (donate_request len body) blank_line = Some (blank_line @ body)"
    using strstr_digits [OF assms, of body] by (simp add: donate_request_def bytes_def blank_line_def)
  moreover have "strstr (donate_request len body) (bytes ''Content-Length: '') \<noteq> None"
    by (simp add: donate_request_def bytes_def)
  moreover have "bytes ''POST'' \<noteq> bytes ''GET''" by (simp add: bytes_def)
  ultimately show ?thesis by (auto simp: parse_request_def scan blank_line_def)
qed

definition web_example :: "int web_cfg" where
  "web_example = \<lparr>workers = 2, ops = int_ops, strtod_fun = strtod_int, stack = ([], [])\<rparr>"

definition connect :: "int \<Rightarrow> web_event list" where
  "connect fd = map (Main 0) [Fd fd, Done, Done, Done, Done, Done]"

definition serve :: "nat \<Rightarrow> cstring \<Rightarrow> web_event list" where
  "serve j request = map (Worker j) [Done, Done, Done, Done, Done, Data request, Done]"

definition start :: "web_event list" where
  "start = map (Main 0) [Done, Done, Done, Done, Done, Done, Done]"

definition stop_request :: cstring where
  "stop_request = bytes ''POST /shutdown HTTP/1.1''"

text \<open>Two requests to shut down cancel each other: the flag is a counter that goes from 1 over 0 to
  -1, and when main looks at it only then, the server goes on accepting connections after both
  clients have been told that it stops.\<close>

theorem two_shutdowns_continue:
  "\<exists>s. run (web_next web_example) (web_init web_example)
      (start @ connect 5 @ connect 6 @ serve 0 stop_request @ serve 1 stop_request
       @ map (\<lambda>j. Worker j Done) [0, 0, 1, 1] @ connect 7) = Some s
    \<and> running s = - 1 \<and> mpc s = MAccept \<and> responses s = [(5, Stopping), (6, Stopping)]"
proof -
  have "(case run (web_next web_example) (web_init web_example)
      (start @ connect 5 @ connect 6 @ serve 0 stop_request @ serve 1 stop_request
       @ map (\<lambda>j. Worker j Done) [0, 0, 1, 1] @ connect 7) of
      None \<Rightarrow> False
    | Some s \<Rightarrow> running s = - 1 \<and> mpc s = MAccept \<and> responses s = [(5, Stopping), (6, Stopping)])"
    by code_simp
  then show ?thesis by (simp split: option.splits)
qed

section \<open>Instances\<close>

definition gift_schedule :: "web_event list" where
  "gift_schedule = start @ connect 5 @ serve 0 (donate_request (bytes ''2'') (bytes ''25''))
     @ map (\<lambda>j. Worker j Done) [0, 0]"

theorem donation_parsed_witness:
  "parse_request strtod_int ([], []) (donate_request (bytes ''2'') (bytes ''25'')) = Some (Donate 25)"
proof -
  have "list_all is_digit (bytes ''2'')" "fst (strtod_int (bytes ''25'')) = 25" by code_simp+
  with donation_parsed [of "bytes ''2''" strtod_int "([], [])" "bytes ''25''"] show ?thesis by simp
qed

lemma gift_run:
  "\<exists>s. run (web_next web_example) (web_init web_example) gift_schedule = Some s
     \<and> wpc s 0 = WStore 5 (length (donate_request (bytes ''2'') (bytes ''25''))) 25 0 \<and> accepted s = [5]"
proof -
  have "(case run (web_next web_example) (web_init web_example) gift_schedule of
      None \<Rightarrow> False
    | Some s \<Rightarrow> wpc s 0 = WStore 5 (length (donate_request (bytes ''2'') (bytes ''25''))) 25 0 \<and> accepted s = [5])"
    by code_simp
  then show ?thesis by (auto split: option.splits)
qed

theorem sockets_conserved_witness:
  "\<exists>s. reach (web_next web_example) (web_init web_example) s
     \<and> {#5#} = queued s + main_hand (mpc s) + in_work web_example s + mset (closed s)"
proof -
  obtain s where s: "run (web_next web_example) (web_init web_example) gift_schedule = Some s" "accepted s = [5]"
    using gift_run by blast
  with sockets_conserved [OF run_reach [OF s(1)]] run_reach [OF s(1)] show ?thesis by auto
qed

theorem donation_not_lost_witness:
  "\<exists>s u. reach (web_next web_example) (web_init web_example) s \<and> worker_step web_example s 0 Done = Some u
     \<and> donations u = donations s + 25"
proof -
  obtain s where s: "run (web_next web_example) (web_init web_example) gift_schedule = Some s"
      "wpc s 0 = WStore 5 (length (donate_request (bytes ''2'') (bytes ''25''))) 25 0"
    using gift_run by blast
  then obtain u where "worker_step web_example s 0 Done = Some u" by (simp add: worker_step_def Let_def)
  with donation_not_lost [OF run_reach [OF s(1)] s(2) this] run_reach [OF s(1)] show ?thesis
    by (auto simp: web_example_def int_ops_def)
qed

end
