(* ===== verification/Pipelines.thy ===== *)
theory Pipelines
  imports Prelude
begin

text \<open>
  The pipelines \<^verbatim>\<open>exercise04/task2/cat_cut.c\<close> and \<^verbatim>\<open>cat_grep_cut.c\<close>: processes that pass on the ends of
  pipes in their tables of file descriptors. The three programs they execute are parameters.
\<close>

section \<open>File descriptors\<close>

datatype ofile = Terminal | ReadEnd nat | WriteEnd nat

text \<open>The table of a process: the list of its descriptors, nothing open behind its end.\<close>

type_synonym fdtable = "ofile option list"

text \<open>A new descriptor is the lowest that is free.\<close>

fun open_fd :: "fdtable \<Rightarrow> ofile \<Rightarrow> nat \<times> fdtable" where
  "open_fd [] f = (0, [Some f])"
| "open_fd (None # t) f = (0, Some f # t)"
| "open_fd (Some g # t) f = (case open_fd t f of (n, t) \<Rightarrow> (Suc n, Some g # t))"

definition fd :: "fdtable \<Rightarrow> nat \<Rightarrow> ofile option" where
  "fd t n = (if n < length t then t ! n else None)"

definition set_fd :: "fdtable \<Rightarrow> nat \<Rightarrow> ofile option \<Rightarrow> fdtable" where
  "set_fd t n f = (t @ replicate (Suc n - length t) None)[n := f]"

definition pipe :: "nat \<Rightarrow> fdtable \<Rightarrow> (nat \<times> nat) \<times> fdtable" where
  "pipe p t =
     (case open_fd t (ReadEnd p) of
        (r, t) \<Rightarrow> (case open_fd t (WriteEnd p) of (w, t) \<Rightarrow> ((r, w), t)))"

text \<open>\<^verbatim>\<open>dup2\<close> fails, without effect, when the old descriptor is not open.\<close>

definition dup2 :: "nat \<Rightarrow> nat \<Rightarrow> fdtable \<Rightarrow> fdtable" where
  "dup2 old new t = (case fd t old of None \<Rightarrow> t | Some f \<Rightarrow> set_fd t new (Some f))"

definition close_fd :: "nat \<Rightarrow> fdtable \<Rightarrow> fdtable" where
  "close_fd n t = (if n < length t then t[n := None] else t)"

section \<open>The programs\<close>

datatype process = Exec "string list" fdtable | ExitFailure

definition STDIN :: nat where "STDIN = 0"
definition STDOUT :: nat where "STDOUT = 1"

text \<open>The processes the programs become; \<open>forks\<close> tells which of the calls of \<^verbatim>\<open>fork\<close> succeed.\<close>

definition cat_cut_main :: "fdtable \<Rightarrow> bool \<Rightarrow> process list" where
  "cat_cut_main t forks =
     (case pipe 0 t of
        ((r, w), t) \<Rightarrow>
          if \<not> forks then [ExitFailure]
          else [Exec [''cut'', ''-c'', ''22-''] (close_fd r (close_fd w (dup2 r STDIN t))),
                Exec [''cat'', ''file.txt''] (close_fd r (close_fd w (dup2 w STDOUT t)))])"

definition close_pipes :: "nat \<times> nat \<Rightarrow> nat \<times> nat \<Rightarrow> fdtable \<Rightarrow> fdtable" where
  "close_pipes pipe1 pipe2 t =
     close_fd (snd pipe2) (close_fd (fst pipe2) (close_fd (snd pipe1) (close_fd (fst pipe1) t)))"

definition cat_grep_cut_main :: "fdtable \<Rightarrow> bool \<Rightarrow> bool \<Rightarrow> process list" where
  "cat_grep_cut_main t fork1 fork2 =
     (case pipe 0 t of
        (cat_grep, t) \<Rightarrow>
          (case pipe 1 t of
             (grep_cut, t) \<Rightarrow>
               if \<not> fork1 then [ExitFailure]
               else (if \<not> fork2 then [ExitFailure]
                     else [Exec [''cat'', ''file.txt''] (close_pipes cat_grep grep_cut (dup2 (snd cat_grep) STDOUT t)),
                           Exec [''grep'', ''^;'']
                             (close_pipes cat_grep grep_cut
                                (dup2 (snd grep_cut) STDOUT (dup2 (fst cat_grep) STDIN t)))])
                    @ [Exec [''cut'', ''-c'', ''22-'']
                         (close_pipes cat_grep grep_cut (dup2 (fst grep_cut) STDIN t))]))"

section \<open>What flows through the pipes\<close>

text \<open>
  A reader gets what the process at the other end writes, and the end of the file once no process
  has the writing end open. \<open>input\<close> follows the pipes for at most \<open>n\<close> stages.
\<close>

fun output_of :: "(string list \<Rightarrow> 'b \<Rightarrow> 'b) \<Rightarrow> 'b \<Rightarrow> process list \<Rightarrow> nat \<Rightarrow> ofile option \<Rightarrow> 'b" where
  "output_of prog typed ps (Suc n) (Some (ReadEnd p)) =
     (case filter (\<lambda>q. case q of Exec args t \<Rightarrow> fd t STDOUT = Some (WriteEnd p) | _ \<Rightarrow> False) ps of
        [Exec args t] \<Rightarrow> prog args (output_of prog typed ps n (fd t STDIN))
      | _ \<Rightarrow> typed)"
| "output_of prog typed ps n f = typed"

text \<open>The output that reaches the terminal: of the processes that have it as their standard output.\<close>

definition screen :: "(string list \<Rightarrow> 'b \<Rightarrow> 'b) \<Rightarrow> 'b \<Rightarrow> process list \<Rightarrow> 'b list" where
  "screen prog typed ps =
     map (\<lambda>q. case q of Exec args t \<Rightarrow> prog args (output_of prog typed ps (length ps) (fd t STDIN)) | _ \<Rightarrow> typed)
       (filter (\<lambda>q. case q of Exec args t \<Rightarrow> fd t STDOUT = Some Terminal | _ \<Rightarrow> False) ps)"

section \<open>The tables\<close>

lemma open_fd_lookup:
  "open_fd t f = (n, t') \<Longrightarrow> fd t n = None \<and> fd t' = (fd t)(n := Some f)"
proof (induction t f arbitrary: n t' rule: open_fd.induct)
  case (3 g t f)
  then obtain k u where k: "open_fd t f = (k, u)" "n = Suc k" "t' = Some g # u"
    by (auto split: prod.splits)
  have shift: "fd (x # xs) m = (case m of 0 \<Rightarrow> x | Suc i \<Rightarrow> fd xs i)" for x xs m
    by (auto simp: fd_def split: nat.splits)
  from 3(1) [OF k(1)] show ?case by (auto simp: k shift fun_eq_iff split: nat.splits)
qed (auto simp: fd_def fun_eq_iff nth_Cons split: nat.splits)

lemma fd_set_fd [simp]: "fd (set_fd t n f) = (fd t)(n := f)"
  by (auto simp: fd_def set_fd_def fun_eq_iff nth_append nth_list_update)

lemma fd_dup2 [simp]: "fd (dup2 old new t) = (if fd t old = None then fd t else (fd t)(new := fd t old))"
  by (auto simp: dup2_def split: option.splits)

lemma fd_close [simp]: "fd (close_fd n t) = (fd t)(n := None)"
  by (auto simp: fd_def close_fd_def fun_eq_iff nth_list_update)

lemma pipe_lookup:
  assumes "pipe p t = ((r, w), u)"
  shows "fd t r = None" "fd t w = None" "r \<noteq> w" "fd u = (fd t)(r := Some (ReadEnd p), w := Some (WriteEnd p))"
proof -
  obtain v where v: "open_fd t (ReadEnd p) = (r, v)" "open_fd v (WriteEnd p) = (w, u)"
    using assms by (auto simp: pipe_def split: prod.splits)
  note l = open_fd_lookup [OF v(1)] open_fd_lookup [OF v(2)]
  then show "fd t r = None" "r \<noteq> w" "fd u = (fd t)(r := Some (ReadEnd p), w := Some (WriteEnd p))" by auto
  with l show "fd t w = None" by (auto split: if_splits)
qed

text \<open>A process as a shell starts it: the standard descriptors are open, and none is a pipe.\<close>

definition started :: "fdtable \<Rightarrow> bool" where
  "started t \<longleftrightarrow> fd t 0 = Some Terminal \<and> fd t 1 = Some Terminal \<and> (\<forall>n. fd t n = None \<or> fd t n = Some Terminal)"

definition cat :: "string list" where "cat = [''cat'', ''file.txt'']"
definition grep :: "string list" where "grep = [''grep'', ''^;'']"
definition cut :: "string list" where "cut = [''cut'', ''-c'', ''22-'']"

lemma free_fd: "started t \<Longrightarrow> fd t n = None \<Longrightarrow> n \<noteq> 0 \<and> n \<noteq> 1"
  by (metis option.distinct(1) started_def)

lemma cat_cut_tables:
  assumes "started t"
  shows "\<exists>tk tc. cat_cut_main t True = [Exec cut tk, Exec cat tc]
    \<and> fd tk = (fd t)(0 := Some (ReadEnd 0)) \<and> fd tc = (fd t)(1 := Some (WriteEnd 0))"
proof -
  obtain r w u where p: "pipe 0 t = ((r, w), u)" by (metis prod.exhaust)
  note l = pipe_lookup [OF p]
  have "r \<noteq> 0" "r \<noteq> 1" "w \<noteq> 0" "w \<noteq> 1" using free_fd [OF assms l(1)] free_fd [OF assms l(2)] by auto
  with l show ?thesis
    by (auto simp: cat_cut_main_def p cut_def cat_def STDIN_def STDOUT_def fun_eq_iff)
qed

lemma cat_grep_cut_tables:
  assumes "started t"
  shows "\<exists>tc tg tk. cat_grep_cut_main t True True = [Exec cat tc, Exec grep tg, Exec cut tk]
    \<and> fd tc = (fd t)(1 := Some (WriteEnd 0))
    \<and> fd tg = (fd t)(0 := Some (ReadEnd 0), 1 := Some (WriteEnd 1)) \<and> fd tk = (fd t)(0 := Some (ReadEnd 1))"
proof -
  obtain r w u where p: "pipe 0 t = ((r, w), u)" by (metis prod.exhaust)
  obtain r' w' v where p': "pipe 1 u = ((r', w'), v)" by (metis prod.exhaust)
  note l = pipe_lookup [OF p] pipe_lookup [OF p']
  have n: "r' \<noteq> r" "r' \<noteq> w" "w' \<noteq> r" "w' \<noteq> w" "fd t r' = None" "fd t w' = None"
    using l by (auto split: if_splits)
  have "r \<noteq> 0" "r \<noteq> 1" "w \<noteq> 0" "w \<noteq> 1" "r' \<noteq> 0" "r' \<noteq> 1" "w' \<noteq> 0" "w' \<noteq> 1"
    using free_fd [OF assms l(1)] free_fd [OF assms l(2)] free_fd [OF assms n(5)] free_fd [OF assms n(6)] by auto
  with l n show ?thesis
    by (auto simp: cat_grep_cut_main_def p p' [unfolded One_nat_def] cut_def cat_def grep_def STDIN_def STDOUT_def close_pipes_def fun_eq_iff)
qed

text \<open>C38: Started with the standard descriptors open, each process of the three-stage pipeline has the
  right ends of the pipes as its standard input and output and no other end of a pipe open, so that
  every reader gets the end of the file when its writer exits; and what appears on the terminal
  is the output of cut on that of grep on that of cat.\<close>

theorem pipeline_wired:
  assumes "started t"
  shows "\<exists>tc tg tk. cat_grep_cut_main t True True = [Exec cat tc, Exec grep tg, Exec cut tk]
    \<and> fd tc = (fd t)(1 := Some (WriteEnd 0))
    \<and> fd tg = (fd t)(0 := Some (ReadEnd 0), 1 := Some (WriteEnd 1))
    \<and> fd tk = (fd t)(0 := Some (ReadEnd 1))
    \<and> screen prog typed [Exec cat tc, Exec grep tg, Exec cut tk] = [prog cut (prog grep (prog cat typed))]"
proof -
  obtain tc tg tk where t: "cat_grep_cut_main t True True = [Exec cat tc, Exec grep tg, Exec cut tk]"
      "fd tc = (fd t)(1 := Some (WriteEnd 0))"
      "fd tg = (fd t)(0 := Some (ReadEnd 0), 1 := Some (WriteEnd 1))" "fd tk = (fd t)(0 := Some (ReadEnd 1))"
    using cat_grep_cut_tables [OF assms] by blast
  have "screen prog typed [Exec cat tc, Exec grep tg, Exec cut tk] = [prog cut (prog grep (prog cat typed))]"
    using assms by (simp add: screen_def t STDIN_def STDOUT_def started_def numeral_3_eq_3)
  with t show ?thesis by blast
qed

text \<open>The same for the two-stage pipeline.\<close>

theorem cat_cut_wired:
  assumes "started t"
  shows "\<exists>tk tc. cat_cut_main t True = [Exec cut tk, Exec cat tc]
    \<and> fd tk = (fd t)(0 := Some (ReadEnd 0)) \<and> fd tc = (fd t)(1 := Some (WriteEnd 0))
    \<and> screen prog typed [Exec cut tk, Exec cat tc] = [prog cut (prog cat typed)]"
proof -
  obtain tk tc where t: "cat_cut_main t True = [Exec cut tk, Exec cat tc]"
      "fd tk = (fd t)(0 := Some (ReadEnd 0))" "fd tc = (fd t)(1 := Some (WriteEnd 0))"
    using cat_cut_tables [OF assms] by blast
  have "screen prog typed [Exec cut tk, Exec cat tc] = [prog cut (prog cat typed)]"
    using assms by (simp add: screen_def t STDIN_def STDOUT_def started_def numeral_2_eq_2)
  with t show ?thesis by blast
qed

definition shell_fds :: fdtable where
  "shell_fds = replicate 3 (Some Terminal)"

lemma shell_started: "started shell_fds"
  by (auto simp: started_def shell_fds_def fd_def)

theorem pipeline_wired_witness:
  "\<exists>tc tg tk. cat_grep_cut_main shell_fds True True = [Exec cat tc, Exec grep tg, Exec cut tk]
    \<and> fd tg 0 = Some (ReadEnd 0) \<and> fd tg 1 = Some (WriteEnd 1) \<and> fd tg 3 = None"
proof -
  have "fd shell_fds 3 = None" by (simp add: shell_fds_def fd_def)
  then show ?thesis using pipeline_wired [OF shell_started, of "\<lambda>args b. b" "()"] by auto
qed

text \<open>
  Started without a standard input, the two-stage pipeline gets descriptor 0 as the reading end of
  its pipe, which \<^verbatim>\<open>dup2\<close> leaves as it is and the next \<^verbatim>\<open>close\<close> closes.
\<close>

lemma closed_stdin_breaks:
  "map (\<lambda>q. case q of Exec args t \<Rightarrow> fd t 0 | _ \<Rightarrow> Some Terminal)
     (cat_cut_main [None, Some Terminal, Some Terminal] True) = [None, None]"
  by code_simp

end
