(* ===== verification/FifoServer.thy ===== *)
theory FifoServer
  imports CString
begin

text \<open>
  The counting server \<^verbatim>\<open>exercise04/task3/server.c\<close> and its client: every client has a named pipe,
  through which it sends numbers; the server polls the pipes and adds up what it reads. The
  arithmetic of \<^verbatim>\<open>double\<close> is a parameter, and so is what \<^verbatim>\<open>poll\<close> and \<^verbatim>\<open>read\<close> return.
\<close>

section \<open>The server\<close>

definition ADDRESS :: cstring where "ADDRESS = bytes ''/tmp/csaw1585_''"
definition SIZE :: nat where "SIZE = 256"
definition PIPE_BUF :: nat where "PIPE_BUF = 80"

text \<open>\<^verbatim>\<open>strcat(template, name)\<close>: \<open>None\<close> when the array is too small.\<close>

definition fifo_path :: "cstring \<Rightarrow> cstring option" where
  "fifo_path name = (if length (ADDRESS @ name) < SIZE then Some (ADDRESS @ name) else None)"

text \<open>\<^verbatim>\<open>atoi\<close> as glibc has it.\<close>

definition atoi :: "cstring \<Rightarrow> int" where
  "atoi s = to_int (strtol s)"

text \<open>
  What one call of \<^verbatim>\<open>poll\<close> says of a pipe, and what \<^verbatim>\<open>read\<close> gives if it is called: \<open>None\<close> for an
  error, \<open>Some []\<close> for the end of the file.
\<close>

record poll_result =
  pollin :: bool
  pollhup :: bool
  received :: "u8 list option"

datatype 'd line = Count nat 'd | Malformed nat cstring | Disconnected nat

record 'd fifo =
  counter :: "'d list"
  closed :: nat
  shown :: "'d line list"
  closes :: "nat list"

definition fifo_init :: "'d double_ops \<Rightarrow> nat \<Rightarrow> 'd fifo" where
  "fifo_init D n = \<lparr>counter = replicate n (fzero D), closed = 0, shown = [], closes = []\<rparr>"

definition read_buffer :: "u8 list option \<Rightarrow> u8 list" where
  "read_buffer r = read_into (replicate PIPE_BUF 0) (case r of None \<Rightarrow> [] | Some bs \<Rightarrow> bs)"

text \<open>A positive number is added, anything else reported.\<close>

definition count_message :: "'d double_ops \<Rightarrow> (int \<Rightarrow> 'd) \<Rightarrow> nat \<Rightarrow> u8 list \<Rightarrow> 'd fifo \<Rightarrow> 'd fifo" where
  "count_message D of_i i buf s =
     (let result = atoi (cstr buf)
      in if result > 0
         then let v = fadd D (counter s ! i) (of_i result)
              in s\<lparr>counter := (counter s)[i := v], shown := shown s @ [Count i v]\<rparr>
         else s\<lparr>shown := shown s @ [Malformed i (cstr buf)]\<rparr>)"

text \<open>The \<^verbatim>\<open>for\<close> loop over the pipes, from index \<open>i\<close> on; a client that disconnects ends it.\<close>

fun poll_round :: "'d double_ops \<Rightarrow> (int \<Rightarrow> 'd) \<Rightarrow> nat \<Rightarrow> poll_result list \<Rightarrow> 'd fifo \<Rightarrow> 'd fifo" where
  "poll_round D of_i i [] s = s"
| "poll_round D of_i i (p # ps) s =
     (let buf = read_buffer (received p)
      in if pollin p \<and> buf ! 0 = 10
         then s\<lparr>shown := shown s @ [Disconnected i], closed := closed s + 1\<rparr>
         else let s = (if pollin p \<and> received p \<noteq> None \<and> received p \<noteq> Some []
                       then count_message D of_i i buf s else s);
                  s = (if pollhup p then s\<lparr>closes := closes s @ [i]\<rparr> else s)
              in poll_round D of_i (i + 1) ps s)"

text \<open>\<^verbatim>\<open>while (closed < n_clients)\<close>; the flag says whether the loop has ended.\<close>

fun poll_loop :: "'d double_ops \<Rightarrow> (int \<Rightarrow> 'd) \<Rightarrow> nat \<Rightarrow> poll_result list list \<Rightarrow> 'd fifo \<Rightarrow> bool \<times> 'd fifo" where
  "poll_loop D of_i n rounds s =
     (if n \<le> closed s then (True, s)
      else case rounds of
        [] \<Rightarrow> (False, s)
      | r # rs \<Rightarrow> poll_loop D of_i n rs (poll_round D of_i 0 r s))"

declare poll_loop.simps [simp del]

text \<open>
  \<^verbatim>\<open>main\<close>: \<open>made\<close> and \<open>opened\<close> are the results of the calls of \<^verbatim>\<open>mkfifo\<close> and \<^verbatim>\<open>open\<close>. The pipes that
  exist afterwards are part of the result; \<open>Overflow\<close> is a name that does not fit.
\<close>

datatype 'd outcome = Usage | Overflow | MkfifoFailed | OpenFailed | Serving "'d fifo" | Finished "'d fifo"

fun make_fifos :: "cstring list \<Rightarrow> bool list \<Rightarrow> cstring list \<Rightarrow> bool option \<times> cstring list" where
  "make_fifos [] made paths = (Some True, paths)"
| "make_fifos (name # names) made paths =
     (case (fifo_path name, made) of
        (None, _) \<Rightarrow> (None, paths)
      | (Some path, True # made) \<Rightarrow> make_fifos names made (paths @ [path])
      | _ \<Rightarrow> (Some False, paths))"

definition fifo_main :: "'d double_ops \<Rightarrow> (int \<Rightarrow> 'd) \<Rightarrow> cstring list \<Rightarrow> bool list \<Rightarrow> bool list
    \<Rightarrow> poll_result list list \<Rightarrow> 'd outcome \<times> cstring list" where
  "fifo_main D of_i argv made opened rounds =
     (if length argv < 2 then (Usage, [])
      else let n = length argv - 1
           in case make_fifos (tl argv) made [] of
                (None, paths) \<Rightarrow> (Overflow, paths)
              | (Some False, paths) \<Rightarrow> (MkfifoFailed, paths)
              | (Some True, paths) \<Rightarrow>
                  if \<not> list_all id (take n opened) then (OpenFailed, paths)
                  else (case poll_loop D of_i n rounds (fifo_init D n) of
                          (False, s) \<Rightarrow> (Serving s, paths)
                        | (True, s) \<Rightarrow> (Finished s, filter (\<lambda>p. p \<notin> set (take n paths)) paths)))"

section \<open>The client\<close>

text \<open>
  The first \<open>fuel\<close> rounds of the loop: the messages written and whether the loop has ended. A call
  without a client name prints the usage but goes on and passes \<^verbatim>\<open>NULL\<close> to \<^verbatim>\<open>strcat\<close>: \<open>None\<close>.
\<close>

fun fifo_client_loop :: "nat \<Rightarrow> u8 list \<Rightarrow> u8 list \<Rightarrow> u8 list list \<times> bool" where
  "fifo_client_loop 0 input msg = ([], False)"
| "fifo_client_loop (Suc fuel) input msg =
     (case fgets msg PIPE_BUF input of
        (msg, input) \<Rightarrow>
          if cstr msg = [10] then ([cstr msg], True)
          else (case fifo_client_loop fuel input msg of (ms, stopped) \<Rightarrow> (cstr msg # ms, stopped)))"

definition fifo_client_main :: "nat \<Rightarrow> cstring list \<Rightarrow> bool \<Rightarrow> u8 list \<Rightarrow> u8 list
    \<Rightarrow> (u8 list list \<times> bool) option" where
  "fifo_client_main fuel argv opened input junk =
     (if length argv < 2 \<or> fifo_path (argv ! 1) = None then None
      else if \<not> opened then Some ([], True)
      else Some (fifo_client_loop fuel input junk))"

section \<open>What the counters should be\<close>

text \<open>What one poll result adds to the counter of its client.\<close>

definition amount :: "poll_result \<Rightarrow> int list" where
  "amount p = (let v = atoi (cstr (read_buffer (received p)))
     in if pollin p \<and> received p \<noteq> None \<and> received p \<noteq> Some [] \<and> v > 0 then [v] else [])"

definition amounts :: "poll_result list list \<Rightarrow> nat \<Rightarrow> int list" where
  "amounts rounds i = concat (map (\<lambda>r. amount (r ! i)) rounds)"

definition add_all :: "'d double_ops \<Rightarrow> (int \<Rightarrow> 'd) \<Rightarrow> 'd \<Rightarrow> int list \<Rightarrow> 'd" where
  "add_all D of_i v ms = foldl (\<lambda>v m. fadd D v (of_i m)) v ms"

definition quiet_result :: "poll_result \<Rightarrow> bool" where
  "quiet_result p \<longleftrightarrow> \<not> (pollin p \<and> read_buffer (received p) ! 0 = 10)"

text \<open>A round in which no client disconnects, and one in which only one does and nothing else.\<close>

definition quiet_round :: "nat \<Rightarrow> poll_result list \<Rightarrow> bool" where
  "quiet_round n r \<longleftrightarrow> length r = n \<and> list_all quiet_result r"

definition bye_round :: "poll_result list \<Rightarrow> bool" where
  "bye_round r \<longleftrightarrow> (\<exists>k < length r. pollin (r ! k) \<and> read_buffer (received (r ! k)) ! 0 = 10
     \<and> (\<forall>j < k. \<not> pollin (r ! j)))"

lemma poll_round_counts:
  assumes "list_all quiet_result ps" "i + length ps = length (counter s)" "j < length (counter s)"
  shows "counter (poll_round D of_i i ps s) ! j
      = (if i \<le> j then add_all D of_i (counter s ! j) (amount (ps ! (j - i))) else counter s ! j)
    \<and> length (counter (poll_round D of_i i ps s)) = length (counter s)
    \<and> closed (poll_round D of_i i ps s) = closed s"
  using assms
proof (induction D of_i i ps s rule: poll_round.induct)
  case (2 D of_i i p ps s)
  let ?buf = "read_buffer (received p)"
  define s1 where "s1 = (if pollin p \<and> received p \<noteq> None \<and> received p \<noteq> Some []
      then count_message D of_i i ?buf s else s)"
  define s2 where "s2 = (if pollhup p then s1\<lparr>closes := closes s1 @ [i]\<rparr> else s1)"
  have q: "\<not> (pollin p \<and> ?buf ! 0 = 10)" using 2(2) by (simp add: quiet_result_def)
  have "counter s1 ! j = (if j = i then add_all D of_i (counter s ! i) (amount p) else counter s ! j)
      \<and> length (counter s1) = length (counter s) \<and> closed s1 = closed s"
    using 2(4) by (auto simp: s1_def count_message_def Let_def amount_def add_all_def)
  then have s2: "counter s2 ! j = (if j = i then add_all D of_i (counter s ! i) (amount p) else counter s ! j)"
      "length (counter s2) = length (counter s)" "closed s2 = closed s"
    by (auto simp: s2_def)
  have "poll_round D of_i i (p # ps) s = poll_round D of_i (i + 1) ps s2"
    unfolding poll_round.simps Let_def if_not_P [OF q] s1_def s2_def by (rule refl)
  moreover have "(counter (poll_round D of_i (i + 1) ps s2) ! j
        = (if i + 1 \<le> j then add_all D of_i (counter s2 ! j) (amount (ps ! (j - (i + 1)))) else counter s2 ! j))
      \<and> length (counter (poll_round D of_i (i + 1) ps s2)) = length (counter s2)
      \<and> closed (poll_round D of_i (i + 1) ps s2) = closed s2"
    using 2(1) [of ?buf s1 s2] q 2(2-4) s2(2) by (simp add: s1_def s2_def)
  ultimately show ?case using s2
    by (cases j i rule: linorder_cases) (simp_all add: nth_Cons' del: poll_round.simps)
qed simp

lemma quiet_rounds:
  assumes "list_all (quiet_round n) rounds" "length (counter s) = n" "closed s < n"
  shows "\<exists>t. poll_loop D of_i n (rounds @ rest) s = poll_loop D of_i n rest t
    \<and> length (counter t) = n \<and> closed t = closed s
    \<and> (\<forall>j < n. counter t ! j = add_all D of_i (counter s ! j) (amounts rounds j))"
  using assms
proof (induction rounds arbitrary: s)
  case Nil
  then show ?case by (intro exI [of _ s]) (simp add: amounts_def add_all_def)
next
  case (Cons r rounds)
  let ?u = "poll_round D of_i 0 r s"
  have r: "list_all quiet_result r" "0 + length r = length (counter s)"
    using Cons.prems by (auto simp: quiet_round_def)
  have u: "length (counter ?u) = n" "closed ?u = closed s"
      "\<And>j. j < n \<Longrightarrow> counter ?u ! j = add_all D of_i (counter s ! j) (amount (r ! j))"
    using poll_round_counts [OF r, of 0 D of_i] poll_round_counts [OF r, of _ D of_i] Cons.prems(2,3) by auto
  have "poll_loop D of_i n ((r # rounds) @ rest) s = poll_loop D of_i n (rounds @ rest) ?u"
    using Cons.prems(3) by (simp add: poll_loop.simps [of D of_i n "r # _"])
  moreover obtain t where "poll_loop D of_i n (rounds @ rest) ?u = poll_loop D of_i n rest t"
      "length (counter t) = n" "closed t = closed ?u"
      "\<forall>j < n. counter t ! j = add_all D of_i (counter ?u ! j) (amounts rounds j)"
    using Cons.IH [of ?u] Cons.prems u(1,2) by auto
  ultimately show ?case using u by (auto simp: amounts_def add_all_def)
qed

lemma poll_round_bye:
  "pollin (ps ! k) \<Longrightarrow> read_buffer (received (ps ! k)) ! 0 = 10 \<Longrightarrow> k < length ps \<Longrightarrow> \<forall>j < k. \<not> pollin (ps ! j)
    \<Longrightarrow> counter (poll_round D of_i i ps s) = counter s \<and> closed (poll_round D of_i i ps s) = closed s + 1"
proof (induction ps arbitrary: k i s)
  case (Cons p ps)
  show ?case
  proof (cases k)
    case 0
    with Cons.prems show ?thesis by (simp add: Let_def)
  next
    case (Suc m)
    with Cons.prems(4) have "\<not> pollin p" "\<forall>j < m. \<not> pollin (ps ! j)" by auto
    with Suc Cons.prems Cons.IH [of m] show ?thesis by (simp add: Let_def)
  qed
qed simp

lemma bye_rounds:
  "list_all bye_round byes \<Longrightarrow> closed s + length byes = n
    \<Longrightarrow> \<exists>t. poll_loop D of_i n byes s = (True, t) \<and> counter t = counter s"
proof (induction byes arbitrary: s)
  case Nil
  then show ?case by (simp add: poll_loop.simps)
next
  case (Cons r byes)
  let ?u = "poll_round D of_i 0 r s"
  obtain k where k: "k < length r" "pollin (r ! k)" "read_buffer (received (r ! k)) ! 0 = 10" "\<forall>j < k. \<not> pollin (r ! j)"
    using Cons.prems(1) by (auto simp: bye_round_def)
  have "counter ?u = counter s \<and> closed ?u = closed s + 1" by (rule poll_round_bye [OF k(2,3,1,4)])
  moreover have "poll_loop D of_i n (r # byes) s = poll_loop D of_i n byes ?u"
    using Cons.prems(2) by (simp add: poll_loop.simps [of D of_i n "r # _"])
  ultimately show ?case using Cons.IH [of ?u] Cons.prems by simp
qed

lemma make_fifos_all:
  "list_all (\<lambda>name. fifo_path name \<noteq> None) names \<Longrightarrow> length made = length names \<Longrightarrow> list_all id made
    \<Longrightarrow> make_fifos names made paths = (Some True, paths @ map (\<lambda>name. the (fifo_path name)) names)"
proof (induction names made paths rule: make_fifos.induct)
  case (2 name names made paths)
  then show ?case by (cases made) auto
qed simp


text \<open>A client that goes away without the disconnect symbol, which \<^verbatim>\<open>poll\<close> reports as a hang-up, is
  never counted: the server does not end, and closes the descriptor again in every round.\<close>

theorem hangup_not_counted:
  assumes "0 < n" "list_all (quiet_round n) rounds"
  shows "fst (poll_loop D of_i n rounds (fifo_init D n)) = False"
proof -
  obtain t where "poll_loop D of_i n (rounds @ []) (fifo_init D n) = poll_loop D of_i n [] t" "closed t = 0"
    using quiet_rounds [OF assms(2), of "fifo_init D n" D of_i "[]"] assms(1) by (auto simp: fifo_init_def)
  with assms(1) show ?thesis by (simp add: poll_loop.simps [of D of_i n "[]"])
qed

lemma repeated_close:
  "closes (snd (poll_loop int_ops id 1 (replicate 3 [\<lparr>pollin = False, pollhup = True, received = None\<rparr>])
     (fifo_init int_ops 1))) = [0, 0, 0]"
  by code_simp

text \<open>Two messages that arrive together count as one.\<close>

lemma coalesced_messages:
  "amount \<lparr>pollin = True, pollhup = False, received = Some (bytes ''5'' @ [10] @ bytes ''7'' @ [10])\<rparr> = [5]"
  by code_simp

definition two_rounds :: "poll_result list list" where
  "two_rounds = [[\<lparr>pollin = True, pollhup = False, received = Some (bytes ''5'' @ [10])\<rparr>,
                  \<lparr>pollin = False, pollhup = False, received = None\<rparr>],
                 [\<lparr>pollin = True, pollhup = False, received = Some (bytes ''7'' @ [10])\<rparr>,
                  \<lparr>pollin = True, pollhup = False, received = Some (bytes ''-1'' @ [10])\<rparr>]]"

definition two_byes :: "poll_result list list" where
  "two_byes = [[\<lparr>pollin = True, pollhup = False, received = Some [10]\<rparr>,
                \<lparr>pollin = False, pollhup = False, received = None\<rparr>],
               [\<lparr>pollin = False, pollhup = True, received = None\<rparr>,
                \<lparr>pollin = True, pollhup = False, received = Some [10]\<rparr>]]"

lemma two_clients:
  "list_all (quiet_round 2) two_rounds" "list_all bye_round two_byes" "map (amounts two_rounds) [0, 1] = [[5, 7], []]"
proof -
  show "list_all (quiet_round 2) two_rounds" "map (amounts two_rounds) [0, 1] = [[5, 7], []]" by code_simp+
  show "list_all bye_round two_byes"
    by (auto simp: two_byes_def bye_round_def read_buffer_def read_into_def less_Suc_eq)
qed


theorem hangup_not_counted_witness:
  "fst (poll_loop int_ops id 2 two_rounds (fifo_init int_ops 2)) = False"
  by (rule hangup_not_counted) (simp_all add: two_clients)

section \<open>The client's messages\<close>

text \<open>The client sends each line of its input as a message, up to and with the first empty one.\<close>

theorem fifo_client_sends:
  assumes "list_all (\<lambda>l. l \<noteq> [] \<and> list_all (\<lambda>c. \<not> line_end c) l \<and> length l < PIPE_BUF - 2) ls"
    and "length msg = PIPE_BUF" "length ls < fuel"
  shows "fifo_client_loop fuel (concat (map (\<lambda>l. l @ [10]) ls) @ 10 # rest) msg
    = (map (\<lambda>l. l @ [10]) ls @ [[10]], True)"
  using assms
proof (induction ls arbitrary: fuel msg)
  case Nil
  then obtain f where "fuel = Suc f" by (cases fuel) auto
  moreover have "fgets msg PIPE_BUF (10 # rest) = (read_into msg ([10] @ [0]), rest)"
    using fgets_one_line [of "[]" PIPE_BUF rest] by (simp add: fgets_def PIPE_BUF_def)
  moreover have "cstr (read_into msg ([10] @ [0])) = [10]" by (simp add: read_into_def cstr_def)
  ultimately show ?case by simp
next
  case (Cons l ls)
  then obtain f where f: "fuel = Suc f" "length ls < f" by (cases fuel) auto
  have l: "10 \<notin> set l" "Suc (length l) < PIPE_BUF" "c_string (l @ [10])" "l @ [10] \<noteq> [10]"
    using Cons.prems(1) by (auto simp: list_all_iff line_end_def c_string_def)
  define m where "m = read_into msg ((l @ [10]) @ [0])"
  have "fgets msg PIPE_BUF (l @ 10 # xs) = (m, xs)" for xs
    using fgets_one_line [OF l(1,2), of xs] by (simp add: fgets_def m_def)
  moreover have "cstr m = l @ [10]" using l(3) cstr_id [OF l(3)] by (simp add: read_into_def m_def)
  moreover have "length m = PIPE_BUF" using Cons.prems(2) l(2) by (simp add: m_def)
  ultimately show ?case using Cons f l(4) by simp
qed

end
