(* ===== verification/FileAdder.thy ===== *)
theory FileAdder
  imports CString
begin

text \<open>
  \<^verbatim>\<open>exercise03/task3/task3b.c\<close>: a thread per file adds up its numbers. The arguments of the threads
  are an array of structures with a flexible array member for the name, which has no room in the
  array; the model keeps the array as bytes. Files are a parameter.
\<close>

section \<open>The array\<close>

text \<open>\<^verbatim>\<open>struct { int num_thread; int sum; char name[]; }\<close> has 8 bytes; the name begins behind it.\<close>

definition sum_offset :: nat where "sum_offset = 4"
definition name_offset :: nat where "name_offset = 8"
definition sizeof_args :: nat where "sizeof_args = 8"

definition int_bytes :: "int \<Rightarrow> u8 list" where
  "int_bytes v = [word_of_int v, word_of_int (v div 256), word_of_int (v div 65536), word_of_int (v div 16777216)]"

definition write_bytes :: "u8 list \<Rightarrow> nat \<Rightarrow> u8 list \<Rightarrow> u8 list option" where
  "write_bytes mem a bs =
     (if a + length bs \<le> length mem then Some (take a mem @ bs @ drop (a + length bs) mem) else None)"

definition name_at :: "u8 list \<Rightarrow> nat \<Rightarrow> cstring" where
  "name_at mem i = cstr (drop (sizeof_args * i + name_offset) mem)"

section \<open>The program\<close>

text \<open>One round of the first loop, up to the creation of the thread.\<close>

definition init_element :: "u8 list \<Rightarrow> nat \<Rightarrow> cstring \<Rightarrow> u8 list option" where
  "init_element mem i name =
     Option.bind (write_bytes mem (sizeof_args * i) (int_bytes (int i)))
       (\<lambda>mem. Option.bind (write_bytes mem (sizeof_args * i + sum_offset) (int_bytes 0))
         (\<lambda>mem. write_bytes mem (sizeof_args * i + name_offset) (strdup name)))"

fun sum_ints :: "int \<Rightarrow> int list \<Rightarrow> int option" where
  "sum_ints acc [] = Some acc"
| "sum_ints acc (v # vs) = Option.bind (int_add acc v) (\<lambda>acc. sum_ints acc vs)"

text \<open>The thread: \<open>files\<close> gives the numbers \<^verbatim>\<open>fscanf\<close> reads from a file, if it can be opened.\<close>

definition thread_add :: "(cstring \<Rightarrow> int list option) \<Rightarrow> u8 list \<Rightarrow> nat \<Rightarrow> u8 list option" where
  "thread_add files mem i =
     (case files (name_at mem i) of
        None \<Rightarrow> Some mem
      | Some nums \<Rightarrow> Option.bind (sum_ints 0 nums) (\<lambda>v. write_bytes mem (sizeof_args * i + sum_offset) (int_bytes v)))"

record adder =
  mem :: "u8 list"
  created :: nat
  done_with :: "nat \<Rightarrow> cstring option"

datatype adder_event = Create | Thread nat

text \<open>
  The schedule decides when each thread runs; \<open>done_with\<close> logs the name it found. Undefined steps,
  an access out of bounds or an overflow of the sum, are \<open>None\<close>.
\<close>

fun adder_next :: "(cstring \<Rightarrow> int list option) \<Rightarrow> cstring list \<Rightarrow> adder \<Rightarrow> adder_event \<Rightarrow> adder option" where
  "adder_next files argv s Create =
     (if created s < length argv - 1
      then map_option (\<lambda>m. s\<lparr>mem := m, created := created s + 1\<rparr>)
             (init_element (mem s) (created s) (argv ! (created s + 1)))
      else None)"
| "adder_next files argv s (Thread i) =
     (if i < created s \<and> done_with s i = None
      then map_option (\<lambda>m. s\<lparr>mem := m, done_with := (done_with s)(i \<mapsto> name_at (mem s) i)\<rparr>)
             (thread_add files (mem s) i)
      else None)"

text \<open>The start; \<open>stack\<close> are the bytes of the array and, behind them, what else may be written.\<close>

definition adder_start :: "u8 list \<Rightarrow> adder" where
  "adder_start stack = \<lparr>mem = stack, created = 0, done_with = (\<lambda>_. None)\<rparr>"

definition adder_args :: "cstring list \<Rightarrow> bool" where
  "adder_args argv \<longleftrightarrow> \<not> (length argv < 2 \<or> length argv > 100)"

section \<open>What the array holds\<close>

definition adder_inv :: "nat \<Rightarrow> cstring list \<Rightarrow> adder \<Rightarrow> bool" where
  "adder_inv L argv s \<longleftrightarrow> length (mem s) = L \<and> created s \<le> length argv - 1
     \<and> (\<forall>k < created s. take 4 (drop (sizeof_args * k) (mem s)) = int_bytes (int k))
     \<and> (\<forall>k < created s. sizeof_args * k + name_offset < L)"

lemma write_bytes_Some:
  assumes "write_bytes m a bs = Some m'"
  shows "length m' = length m" "a + length bs \<le> length m" "take (length bs) (drop a m') = bs"
    "b + n \<le> a \<or> a + length bs \<le> b \<Longrightarrow> take n (drop b m') = take n (drop b m)"
proof -
  have m': "m' = take a m @ bs @ drop (a + length bs) m" and le: "a + length bs \<le> length m"
    using assms by (auto simp: write_bytes_def split: if_splits)
  show "length m' = length m" "a + length bs \<le> length m" "take (length bs) (drop a m') = bs"
    using le by (simp_all add: m')
  assume "b + n \<le> a \<or> a + length bs \<le> b"
  then show "take n (drop b m') = take n (drop b m)"
  proof
    assume "b + n \<le> a"
    with le show ?thesis by (simp add: m' take_drop add.commute)
  next
    assume b: "a + length bs \<le> b"
    then have "drop b m' = drop (b - a - length bs) (drop (a + length bs) m)"
      using le by (simp add: m' drop_append)
    then show ?thesis using b by (simp add: add.commute)
  qed
qed

lemma length_int_bytes [simp]: "length (int_bytes v) = 4"
  by (simp add: int_bytes_def)

lemma adder_inv_create:
  assumes "adder_inv L argv s" "adder_next files argv s Create = Some u"
  shows "adder_inv L argv u"
proof -
  let ?i = "created s"
  obtain m1 m2 m3 where m: "write_bytes (mem s) (sizeof_args * ?i) (int_bytes (int ?i)) = Some m1"
      "write_bytes m1 (sizeof_args * ?i + sum_offset) (int_bytes 0) = Some m2"
      "write_bytes m2 (sizeof_args * ?i + name_offset) (strdup (argv ! (?i + 1))) = Some m3"
      "u = s\<lparr>mem := m3, created := ?i + 1\<rparr>" "?i < length argv - 1"
    using assms(2) by (auto simp: init_element_def split: if_splits Option.bind_splits)
  note w = write_bytes_Some [OF m(1)] write_bytes_Some [OF m(2)] write_bytes_Some [OF m(3)]
  have keep: "take 4 (drop (sizeof_args * k) m3) = take 4 (drop (sizeof_args * k) m1)" if "k \<le> ?i" for k
    using w(8) [of "sizeof_args * k" 4] w(12) [of "sizeof_args * k" 4] that
    by (simp add: sum_offset_def name_offset_def sizeof_args_def)
  have "take 4 (drop (sizeof_args * k) m3) = int_bytes (int k)" if "k < ?i + 1" for k
  proof (cases "k = ?i")
    case True
    with keep [of k] w(3) show ?thesis by simp
  next
    case False
    then have "sizeof_args * k + 4 \<le> sizeof_args * ?i" using that by (simp add: sizeof_args_def)
    with w(4) keep [of k] that assms(1) False show ?thesis by (simp add: adder_inv_def)
  qed
  moreover have "length m3 = L" using w(1,5,9) assms(1) by (simp add: adder_inv_def)
  moreover have "sizeof_args * ?i + name_offset < L"
    using w(1,5,10) assms(1) by (simp add: adder_inv_def strdup_def)
  ultimately show ?thesis using assms(1) m(4,5) by (auto simp: adder_inv_def less_Suc_eq)
qed

lemma adder_inv_thread:
  assumes "adder_inv L argv s" "adder_next files argv s (Thread i) = Some u"
  shows "adder_inv L argv u"
proof -
  obtain m where m: "thread_add files (mem s) i = Some m" "u = s\<lparr>mem := m, done_with := (done_with s)(i \<mapsto> name_at (mem s) i)\<rparr>"
    using assms(2) by (auto split: if_splits)
  have "length m = length (mem s) \<and> (\<forall>k. take 4 (drop (sizeof_args * k) m) = take 4 (drop (sizeof_args * k) (mem s)))"
  proof (cases "files (name_at (mem s) i)")
    case None
    with m(1) show ?thesis by (simp add: thread_add_def)
  next
    case (Some nums)
    then obtain v where "write_bytes (mem s) (sizeof_args * i + sum_offset) (int_bytes v) = Some m"
      using m(1) by (auto simp: thread_add_def split: Option.bind_splits)
    note w = write_bytes_Some [OF this]
    have "sizeof_args * k + 4 \<le> sizeof_args * i + sum_offset \<or> sizeof_args * i + sum_offset + 4 \<le> sizeof_args * k" for k
      by (cases "k \<le> i") (simp_all add: sizeof_args_def sum_offset_def)
    with w(1,4) show ?thesis by simp
  qed
  with assms(1) m(2) show ?thesis by (simp add: adder_inv_def)
qed

interpretation adder: machine_inv "adder_next files argv" "\<lambda>s. s = adder_start stack" "adder_inv (length stack) argv"
proof
  show "adder_inv (length stack) argv s0" if "s0 = adder_start stack" for s0
    using that by (simp add: adder_inv_def adder_start_def)
  show "adder_inv (length stack) argv t" if "adder_inv (length stack) argv s" "adder_next files argv s e = Some t" for s e t
    using that adder_inv_create adder_inv_thread by (cases e) blast+
qed

lemma name_overwritten_inv:
  assumes inv: "adder_inv L argv s" and "adder_args argv" "i + 1 < created s"
  shows "name_at (mem s) i = [of_nat (i + 1)]"
proof -
  let ?m = "drop (sizeof_args * (i + 1)) (mem s)"
  have small: "i + 1 < 256" using assms by (auto simp: adder_inv_def adder_args_def)
  have "take 4 ?m = int_bytes (int (i + 1))" using inv assms(3) unfolding adder_inv_def by blast
  then obtain rest where m: "?m = int_bytes (int (i + 1)) @ rest" by (metis append_take_drop_id)
  have "int (i + 1) div 256 = 0" using small by simp
  moreover have "of_nat (i + 1) \<noteq> (0 :: u8)"
    using small by (simp add: word_unat_eq_iff unsigned_of_nat take_bit_nat_eq_self del: of_nat_Suc of_nat_add)
  ultimately have "cstr ?m = [of_nat (i + 1)]"
    unfolding m cstr_def int_bytes_def by (simp del: of_nat_Suc of_nat_add)
  then show ?thesis by (simp add: add.commute name_at_def sizeof_args_def name_offset_def)
qed

text \<open>As soon as main has initialised the next element, the name of a thread's file is gone: it
  has been overwritten by the number of the next thread, so that a thread that has not opened its
  file by then looks for a file whose name is that number as a byte.\<close>

theorem name_overwritten:
  assumes "reach (adder_next files argv) (adder_start stack) s" "adder_args argv" "i + 1 < created s"
  shows "name_at (mem s) i = [of_nat (i + 1)]"
  by (rule name_overwritten_inv [OF adder.reach_inv [OF assms(1) refl] assms(2,3)])

text \<open>The last name is always written behind the end of the array: in no run does main create
  all threads without an access out of bounds.\<close>

theorem adder_out_of_bounds:
  assumes "reach (adder_next files argv) (adder_start stack) s" "adder_args argv"
    and "length stack = sizeof_args * (length argv - 1)"
  shows "created s < length argv - 1"
proof -
  have inv: "adder_inv (length stack) argv s" by (rule adder.reach_inv [OF assms(1) refl])
  show ?thesis
  proof (rule ccontr)
    assume "\<not> created s < length argv - 1"
    then have "length argv - 2 < created s" using assms(2) by (auto simp: adder_args_def)
    then have "sizeof_args * (length argv - 2) + name_offset < length stack" using inv by (simp add: adder_inv_def)
    then show False using assms(2,3) by (simp add: sizeof_args_def name_offset_def adder_args_def)
  qed
qed

definition two_files :: "cstring list" where
  "two_files = [bytes ''task3b'', bytes ''one.txt'', bytes ''two.txt'']"

theorem name_overwritten_witness:
  "\<exists>s. reach (adder_next (\<lambda>_. None) two_files) (adder_start (replicate 40 7)) s \<and> name_at (mem s) 0 = [1]"
proof -
  have "(case run (adder_next (\<lambda>_. None) two_files) (adder_start (replicate 40 7)) [Create, Create] of
      None \<Rightarrow> False | Some s \<Rightarrow> created s = 2)" by code_simp
  then obtain s where s: "run (adder_next (\<lambda>_. None) two_files) (adder_start (replicate 40 7)) [Create, Create] = Some s"
      "created s = 2" by (auto split: option.splits)
  have "adder_args two_files" by (simp add: adder_args_def two_files_def)
  from name_overwritten [OF run_reach [OF s(1)] this, of 0] run_reach [OF s(1)] s(2) show ?thesis by auto
qed

theorem adder_out_of_bounds_witness:
  "\<exists>s. reach (adder_next (\<lambda>_. None) two_files) (adder_start (replicate 16 7)) s \<and> created s < 2"
  using adder_out_of_bounds [of "\<lambda>_. None" two_files "replicate 16 7", OF reach_start]
    reach_start [of "adder_next (\<lambda>_. None) two_files" "adder_start (replicate 16 7)"]
  by (auto simp: adder_args_def two_files_def sizeof_args_def)

end
