(* ===== verification/PollingQueue.thy ===== *)
theory PollingQueue
  imports SumQueue
begin

text \<open>
  \<^verbatim>\<open>exercise06/task2/task2.c\<close>: the program of \<open>SumQueue\<close> without a condition variable. A consumer
  looks at the queue, without the mutex, until it is not empty, and then goes on popping; when
  there is nothing to pop it adds 0. The elements and the arguments are those of \<open>SumQueue\<close>. The
  unsynchronised look at the queue is one atomic read here.
\<close>

section \<open>The program\<close>

datatype poll_main_pc = QCreate nat | QLock nat | QPush nat | QUnlock nat | QJoin nat int | QExit int
  | QOutOfBounds

datatype poll_pc = PIdle | PLock | PTest | PPop | PUnlock int | PCheck int | PDone

record poll_state =
  poll_mutex :: pmutex
  poll_queue :: myqueue
  poll_main :: poll_main_pc
  poll_at :: "nat \<Rightarrow> poll_pc"
  poll_sums :: "nat \<Rightarrow> int"

definition poll_init :: poll_state where
  "poll_init = \<lparr>poll_mutex = mutex_init, poll_queue = myqueue_init, poll_main = QCreate 0,
     poll_at = (\<lambda>_. PIdle), poll_sums = (\<lambda>_. 0)\<rparr>"

text \<open>Main; the rounds of the two filling loops are numbered through as in \<open>SumQueue\<close>.\<close>

definition poll_producer :: "sum_cfg \<Rightarrow> poll_state \<Rightarrow> poll_state option" where
  "poll_producer cfg s =
     (case poll_main s of
        QCreate i \<Rightarrow>
          if i < consumers cfg
          then if i < elements cfg then Some (s\<lparr>poll_main := QCreate (i + 1)\<rparr>)
               else Some (s\<lparr>poll_main := QOutOfBounds\<rparr>)
          else Some (s\<lparr>poll_main := QLock 0\<rparr>)
      | QLock i \<Rightarrow>
          if i < elements cfg + consumers cfg
          then map_option (\<lambda>m. s\<lparr>poll_mutex := m, poll_main := QPush i\<rparr>) (mutex_lock (poll_mutex s) 0)
          else Some (s\<lparr>poll_main := QJoin 0 0\<rparr>)
      | QPush i \<Rightarrow>
          Some (s\<lparr>poll_queue := myqueue_push (poll_queue s) (element cfg i), poll_main := QUnlock i\<rparr>)
      | QUnlock i \<Rightarrow>
          map_option (\<lambda>m. s\<lparr>poll_mutex := m, poll_main := QLock (i + 1)\<rparr>) (mutex_unlock (poll_mutex s) 0)
      | QJoin i acc \<Rightarrow>
          if i < consumers cfg
          then if poll_at s i = PDone
               then Some (s\<lparr>poll_main := QJoin (i + 1) (to_int (acc + poll_sums s i))\<rparr>) else None
          else Some (s\<lparr>poll_main := QExit acc\<rparr>)
      | QExit v \<Rightarrow> None
      | QOutOfBounds \<Rightarrow> None)"

definition poll_consumer :: "poll_state \<Rightarrow> nat \<Rightarrow> poll_state option" where
  "poll_consumer s k =
     (case poll_at s k of
        PIdle \<Rightarrow>
          Some (s\<lparr>poll_at := (poll_at s)(k := if myqueue_is_empty (poll_queue s) then PIdle else PLock)\<rparr>)
      | PLock \<Rightarrow>
          map_option (\<lambda>m. s\<lparr>poll_mutex := m, poll_at := (poll_at s)(k := PTest)\<rparr>)
            (mutex_lock (poll_mutex s) (Suc k))
      | PTest \<Rightarrow>
          Some (s\<lparr>poll_at := (poll_at s)(k := if myqueue_is_empty (poll_queue s) then PUnlock 0 else PPop)\<rparr>)
      | PPop \<Rightarrow>
          (case myqueue_pop (poll_queue s) of
             None \<Rightarrow> None
           | Some (temp, q) \<Rightarrow> Some (s\<lparr>poll_queue := q, poll_at := (poll_at s)(k := PUnlock temp)\<rparr>))
      | PUnlock temp \<Rightarrow>
          map_option (\<lambda>m. s\<lparr>poll_mutex := m, poll_at := (poll_at s)(k := PCheck temp)\<rparr>)
            (mutex_unlock (poll_mutex s) (Suc k))
      | PCheck temp \<Rightarrow>
          if temp = INT_MAX then Some (s\<lparr>poll_at := (poll_at s)(k := PDone)\<rparr>)
          else Some (s\<lparr>poll_sums := (poll_sums s)(k := poll_sums s k + temp),
                       poll_at := (poll_at s)(k := PLock)\<rparr>)
      | PDone \<Rightarrow> None)"

text \<open>Event 0 is a step of main, event \<open>k + 1\<close> a step of consumer \<open>k\<close>.\<close>

definition poll_threads :: "sum_cfg \<Rightarrow> poll_state \<Rightarrow> nat" where
  "poll_threads cfg s = (case poll_main s of QCreate i \<Rightarrow> i | _ \<Rightarrow> consumers cfg)"

fun poll_next :: "sum_cfg \<Rightarrow> poll_state \<Rightarrow> nat \<Rightarrow> poll_state option" where
  "poll_next cfg s 0 = poll_producer cfg s"
| "poll_next cfg s (Suc k) = (if k < poll_threads cfg s then poll_consumer s k else None)"

section \<open>Simulation by the program with the condition variable\<close>

text \<open>
  A consumer that has found the queue empty is one that waits and wakes up spuriously.
\<close>

fun main_abs :: "poll_main_pc \<Rightarrow> producer_pc" where
  "main_abs (QCreate i) = Create i"
| "main_abs (QLock i) = Fill i FLock"
| "main_abs (QPush i) = Fill i FPush"
| "main_abs (QUnlock i) = Fill i FUnlock"
| "main_abs (QJoin i acc) = Join i acc"
| "main_abs (QExit v) = Exit v"
| "main_abs QOutOfBounds = OutOfBounds"

fun consumer_rel :: "poll_pc \<Rightarrow> consumer_pc \<Rightarrow> bool" where
  "consumer_rel PIdle c = (c = CLock)"
| "consumer_rel PLock c = (c = CLock \<or> c = CWoken)"
| "consumer_rel PTest c = (c = CTest)"
| "consumer_rel PPop c = (c = CPop)"
| "consumer_rel (PUnlock v) c = (c = (if v = 0 then CTest else CUnlock v))"
| "consumer_rel (PCheck v) c = (if v = 0 then c = CWait \<or> c = CWoken else c = CCheck v)"
| "consumer_rel PDone c = (c = CDone)"

definition poll_rel :: "poll_state \<Rightarrow> sum_state \<Rightarrow> bool" where
  "poll_rel s t \<longleftrightarrow> qmutex t = poll_mutex s \<and> queue t = poll_queue s \<and> sums t = poll_sums s
     \<and> ppc t = main_abs (poll_main s) \<and> (\<forall>k. consumer_rel (poll_at s k) (cpc t k))
     \<and> (\<forall>k. poll_at s k = PUnlock 0 \<longrightarrow> myqueue_is_empty (poll_queue s))"

lemma poll_rel_init: "poll_rel poll_init sum_init"
  by (simp add: poll_rel_def poll_init_def sum_init_def)

lemma poll_rel_threads: "poll_rel s t \<Longrightarrow> threads cfg t = poll_threads cfg s"
  by (cases "poll_main s") (auto simp: poll_rel_def threads_def poll_threads_def)

text \<open>The element a consumer pops is never 0.\<close>

lemma popped_not_zero:
  assumes "sum_inv cfg t" "myqueue_pop (queue t) = Some (v, q)"
  shows "v \<noteq> 0"
proof -
  have "myqueue_inv (queue t)" "set (myqueue_values (queue t)) \<subseteq> range (element cfg)"
    using assms(1) by (auto simp: sum_inv_def queue_part_def)
  with mq.contents_pop [OF this(1) assms(2)] show ?thesis
    by (auto simp: element_def number_def INT_MAX_def split: if_splits)
qed

text \<open>Two threads do not hold the mutex at the same time.\<close>

lemma holders_equal: "sum_inv cfg t \<Longrightarrow> holds t u \<Longrightarrow> holds t v \<Longrightarrow> u = v"
  unfolding sum_inv_def lock_inv_def by (metis option.inject)

lemma consumer_simulated:
  assumes rel: "poll_rel s t" and inv: "sum_inv cfg t" and k: "k < poll_threads cfg s"
    and step: "poll_consumer s k = Some s'"
  shows "\<exists>es t'. run (sum_next cfg) t es = Some t' \<and> poll_rel s' t'"
proof -
  have R: "qmutex t = poll_mutex s" "queue t = poll_queue s" "sums t = poll_sums s"
      "ppc t = main_abs (poll_main s)" "\<And>j. consumer_rel (poll_at s j) (cpc t j)"
      "\<And>j. poll_at s j = PUnlock 0 \<Longrightarrow> myqueue_is_empty (poll_queue s)"
    using rel by (auto simp: poll_rel_def)
  have th: "k < threads cfg t" using k poll_rel_threads [OF rel] by simp
  have stay: ?thesis if "poll_rel s' t" using that by (intro exI [of _ "[]"]) auto
  have move: ?thesis if "consumer t k = Some t'" "poll_rel s' t'" for t'
    using that th by (intro exI [of _ "[Consumer k]"]) auto
  have wake: ?thesis if "cpc t k = CWait" "poll_rel s' (t\<lparr>cpc := (cpc t)(k := CWoken)\<rparr>)"
    using that by (intro exI [of _ "[Spurious k]"]) auto
  have c: "consumer_rel (poll_at s k) (cpc t k)" by (rule R)
  show ?thesis
  proof (cases "poll_at s k")
    case PIdle
    with step c have "s' = s\<lparr>poll_at := (poll_at s)(k := if myqueue_is_empty (poll_queue s) then PIdle else PLock)\<rparr>"
      by (simp add: poll_consumer_def)
    with R c PIdle show ?thesis by (intro stay) (auto simp: poll_rel_def)
  next
    case PLock
    with step have m: "poll_mutex s = None" "s' = s\<lparr>poll_mutex := Some (Suc k), poll_at := (poll_at s)(k := PTest)\<rparr>"
      by (auto simp: poll_consumer_def)
    show ?thesis
      by (rule move [of "t\<lparr>qmutex := Some (Suc k), cpc := (cpc t)(k := CTest)\<rparr>"])
        (use R c PLock m in \<open>auto simp: consumer_def poll_rel_def\<close>)
  next
    case PTest
    show ?thesis
    proof (cases "myqueue_is_empty (poll_queue s)")
      case True
      with step PTest have "s' = s\<lparr>poll_at := (poll_at s)(k := PUnlock 0)\<rparr>" by (simp add: poll_consumer_def)
      with R c PTest True show ?thesis by (intro stay) (auto simp: poll_rel_def)
    next
      case False
      with step PTest have s': "s' = s\<lparr>poll_at := (poll_at s)(k := PPop)\<rparr>" by (simp add: poll_consumer_def)
      show ?thesis
        by (rule move [of "t\<lparr>cpc := (cpc t)(k := CPop)\<rparr>"])
          (use R c PTest False s' in \<open>auto simp: consumer_def poll_rel_def\<close>)
    qed
  next
    case PPop
    with step obtain v q where q: "myqueue_pop (poll_queue s) = Some (v, q)"
      and s': "s' = s\<lparr>poll_queue := q, poll_at := (poll_at s)(k := PUnlock v)\<rparr>"
      by (auto simp: poll_consumer_def split: option.splits)
    have v: "v \<noteq> 0" using popped_not_zero [OF inv] q R(2) by simp
    have no: "poll_at s j \<noteq> PUnlock 0" for j
    proof
      assume j: "poll_at s j = PUnlock 0"
      from R(5) [of j] j have "holds t (Suc j)" by simp
      moreover from c PPop have "holds t (Suc k)" by simp
      ultimately have "j = k" using holders_equal [OF inv] by blast
      with j PPop show False by simp
    qed
    show ?thesis
      by (rule move [of "t\<lparr>queue := q, cpc := (cpc t)(k := CUnlock v)\<rparr>"])
        (use R c PPop q s' v no in \<open>auto simp: consumer_def poll_rel_def\<close>)
  next
    case (PUnlock v)
    with step have m: "poll_mutex s = Some (Suc k)"
        "s' = s\<lparr>poll_mutex := None, poll_at := (poll_at s)(k := PCheck v)\<rparr>"
      by (auto simp: poll_consumer_def)
    show ?thesis
      by (rule move [of "t\<lparr>qmutex := None, cpc := (cpc t)(k := if v = 0 then CWait else CCheck v)\<rparr>"])
        (use R c PUnlock m in \<open>auto simp: consumer_def poll_rel_def split: if_splits\<close>)
  next
    case (PCheck v)
    consider (zero) "v = 0" | (pill) "v = INT_MAX" | (number) "v \<noteq> 0" "v \<noteq> INT_MAX" by blast
    then show ?thesis
    proof cases
      case zero
      with step PCheck have s': "s' = s\<lparr>poll_at := (poll_at s)(k := PLock)\<rparr>"
        by (simp add: poll_consumer_def INT_MAX_def)
      from c PCheck zero have "cpc t k = CWait \<or> cpc t k = CWoken" by simp
      then show ?thesis
      proof
        assume w: "cpc t k = CWait"
        show ?thesis by (rule wake [OF w]) (use R s' in \<open>auto simp: poll_rel_def\<close>)
      next
        assume "cpc t k = CWoken"
        with R s' show ?thesis by (intro stay) (auto simp: poll_rel_def)
      qed
    next
      case pill
      with step PCheck have s': "s' = s\<lparr>poll_at := (poll_at s)(k := PDone)\<rparr>" by (simp add: poll_consumer_def)
      have "cpc t k = CCheck INT_MAX" using c PCheck pill by (simp add: INT_MAX_def)
      then show ?thesis
        by (intro move [of "t\<lparr>cpc := (cpc t)(k := CDone)\<rparr>"])
          (use R s' in \<open>auto simp: consumer_def poll_rel_def\<close>)
    next
      case number
      with step PCheck have s': "s' = s\<lparr>poll_sums := (poll_sums s)(k := poll_sums s k + v),
          poll_at := (poll_at s)(k := PLock)\<rparr>" by (simp add: poll_consumer_def)
      have "cpc t k = CCheck v" using c PCheck number by simp
      then show ?thesis
        by (intro move [of "t\<lparr>sums := (sums t)(k := sums t k + v), cpc := (cpc t)(k := CLock)\<rparr>"])
          (use R s' number in \<open>auto simp: consumer_def poll_rel_def\<close>)
    qed
  qed (use step in \<open>simp add: poll_consumer_def\<close>)
qed

lemma producer_simulated:
  assumes rel: "poll_rel s t" and inv: "sum_inv cfg t" and step: "poll_producer cfg s = Some s'"
  shows "\<exists>es t'. run (sum_next cfg) t es = Some t' \<and> poll_rel s' t'"
proof -
  have R: "qmutex t = poll_mutex s" "queue t = poll_queue s" "sums t = poll_sums s"
      "ppc t = main_abs (poll_main s)" "\<And>j. consumer_rel (poll_at s j) (cpc t j)"
      "\<And>j. poll_at s j = PUnlock 0 \<Longrightarrow> myqueue_is_empty (poll_queue s)"
    using rel by (auto simp: poll_rel_def)
  have move: ?thesis if "producer cfg t 0 = Some t'" "poll_rel s' t'" for t'
    using that by (intro exI [of _ "[Main 0]"]) auto
  have move2: ?thesis if "producer cfg t 0 = Some u" "producer cfg u w = Some t'" "poll_rel s' t'" for u t' w
    using that by (intro exI [of _ "[Main 0, Main w]"]) auto
  have woken: "consumer_rel (poll_at s j) CWoken" if "cpc t j = CWait" for j
    using R(5) [of j] that by (cases "poll_at s j") (auto split: if_splits)
  show ?thesis
  proof (cases "poll_main s")
    case (QCreate i)
    define p where "p = (if i < consumers cfg then if i < elements cfg then QCreate (i + 1) else QOutOfBounds else QLock 0)"
    have s': "s' = s\<lparr>poll_main := p\<rparr>" using step QCreate by (simp add: poll_producer_def p_def split: if_splits)
    have "producer cfg t 0 = Some (t\<lparr>ppc := main_abs p\<rparr>)" using R(4) QCreate by (simp add: producer_def p_def)
    then show ?thesis by (rule move) (use R s' in \<open>auto simp: poll_rel_def\<close>)
  next
    case (QLock i)
    show ?thesis
    proof (cases "i < elements cfg + consumers cfg")
      case True
      with step QLock have m: "poll_mutex s = None" "s' = s\<lparr>poll_mutex := Some 0, poll_main := QPush i\<rparr>"
        by (auto simp: poll_producer_def)
      show ?thesis
        by (rule move [of "t\<lparr>qmutex := Some 0, ppc := Fill i FPush\<rparr>"])
          (use R QLock True m in \<open>auto simp: producer_def poll_rel_def\<close>)
    next
      case False
      with step QLock have s': "s' = s\<lparr>poll_main := QJoin 0 0\<rparr>" by (simp add: poll_producer_def)
      have w: "consumer_rel (poll_at s j) (wake (cpc t j))" for j
        using woken [of j] R(5) [of j] by (simp add: wake_def)
      show ?thesis
        by (rule move2 [of "t\<lparr>ppc := Broadcast\<rparr>" 0 "t\<lparr>ppc := Join 0 0, cpc := (\<lambda>j. wake (cpc t j))\<rparr>"])
          (use R QLock False s' w in \<open>auto simp: producer_def poll_rel_def\<close>)
    qed
  next
    case (QPush i)
    define q where "q = myqueue_push (poll_queue s) (element cfg i)"
    with step QPush have s': "s' = s\<lparr>poll_queue := q, poll_main := QUnlock i\<rparr>" by (simp add: poll_producer_def)
    have no: "poll_at s j \<noteq> PUnlock 0" for j
    proof
      assume j: "poll_at s j = PUnlock 0"
      from R(5) [of j] j have "holds t (Suc j)" by simp
      moreover from R(4) QPush have "holds t 0" by simp
      ultimately show False using holders_equal [OF inv] by blast
    qed
    let ?u = "t\<lparr>queue := q, ppc := Fill i FSignal\<rparr>"
    have u: "producer cfg t 0 = Some ?u" using R QPush by (simp add: producer_def q_def)
    show ?thesis
    proof (cases "list_ex (\<lambda>j. cpc t j = CWait) [0..<consumers cfg]")
      case True
      then obtain w where w: "cpc t w = CWait" by (auto simp: list_ex_iff)
      have "producer cfg ?u w = Some (?u\<lparr>cpc := (cpc t)(w := CWoken), ppc := Fill i FUnlock\<rparr>)"
        using True w by (simp add: producer_def)
      then show ?thesis by (rule move2 [OF u]) (use R s' no woken [OF w] in \<open>auto simp: poll_rel_def\<close>)
    next
      case False
      then have "producer cfg ?u 0 = Some (?u\<lparr>ppc := Fill i FUnlock\<rparr>)" by (simp add: producer_def)
      then show ?thesis by (rule move2 [OF u]) (use R s' no in \<open>auto simp: poll_rel_def\<close>)
    qed
  next
    case (QUnlock i)
    with step have m: "poll_mutex s = Some 0" "s' = s\<lparr>poll_mutex := None, poll_main := QLock (i + 1)\<rparr>"
      by (auto simp: poll_producer_def)
    show ?thesis
      by (rule move [of "t\<lparr>qmutex := None, ppc := Fill (i + 1) FLock\<rparr>"])
        (use R QUnlock m in \<open>auto simp: producer_def poll_rel_def\<close>)
  next
    case (QJoin i acc)
    define p where "p = (if i < consumers cfg then QJoin (i + 1) (to_int (acc + poll_sums s i)) else QExit acc)"
    have s': "s' = s\<lparr>poll_main := p\<rparr>" "i < consumers cfg \<longrightarrow> poll_at s i = PDone"
      using step QJoin by (simp_all add: poll_producer_def p_def split: if_splits)
    have "producer cfg t 0 = Some (t\<lparr>ppc := main_abs p\<rparr>)"
      using R(3,4) R(5) [of i] s'(2) QJoin by (auto simp: producer_def p_def)
    then show ?thesis by (rule move) (use R s' in \<open>auto simp: poll_rel_def\<close>)
  qed (use step in \<open>simp_all add: poll_producer_def\<close>)
qed

definition poll_inv :: "sum_cfg \<Rightarrow> poll_state \<Rightarrow> bool" where
  "poll_inv cfg s \<longleftrightarrow> (\<exists>t. reach (sum_next cfg) sum_init t \<and> sum_inv cfg t \<and> poll_rel s t)"

lemma poll_inv_init: "consumers cfg \<le> elements cfg \<Longrightarrow> poll_inv cfg poll_init"
  unfolding poll_inv_def by (intro exI [of _ sum_init] conjI reach_start sum_inv_init poll_rel_init)

lemma poll_inv_step:
  assumes "poll_inv cfg s" "poll_next cfg s e = Some s'"
  shows "poll_inv cfg s'"
proof -
  obtain t where t: "reach (sum_next cfg) sum_init t" "sum_inv cfg t" "poll_rel s t"
    using assms(1) by (auto simp: poll_inv_def)
  have "\<exists>es t'. run (sum_next cfg) t es = Some t' \<and> poll_rel s' t'"
  proof (cases e)
    case 0
    with assms(2) show ?thesis by (simp add: producer_simulated [OF t(3,2)])
  next
    case (Suc k)
    with assms(2) show ?thesis by (intro consumer_simulated [OF t(3,2), of k]) (auto split: if_splits)
  qed
  then obtain es t' where t': "run (sum_next cfg) t es = Some t'" "poll_rel s' t'" by blast
  have "reach (sum_next cfg) sum_init t'" "sum_inv cfg t'"
    by (rule reach_run_from [OF t(1) t'(1)], rule sumq.run_inv [OF t(2) t'(1)])
  with t'(2) show ?thesis unfolding poll_inv_def by blast
qed

interpretation polling: machine_inv "poll_next cfg" "\<lambda>s. consumers cfg \<le> elements cfg \<and> s = poll_init" "poll_inv cfg"
  for cfg
  by unfold_locales (auto intro: poll_inv_init poll_inv_step)

section \<open>Progress\<close>

fun poll_rank :: "poll_pc \<Rightarrow> nat" where
  "poll_rank PIdle = 2"
| "poll_rank PLock = 1"
| "poll_rank PTest = 4"
| "poll_rank PPop = 3"
| "poll_rank (PUnlock v) = (if v = 0 then 3 else 5)"
| "poll_rank (PCheck v) = (if v = 0 then 2 else 4)"
| "poll_rank PDone = 0"

fun poll_main_rank :: "sum_cfg \<Rightarrow> poll_main_pc \<Rightarrow> nat" where
  "poll_main_rank cfg (QCreate i) = consumers cfg - i + 9 * (elements cfg + consumers cfg) + consumers cfg + 3"
| "poll_main_rank cfg (QLock i) = 9 * (elements cfg + consumers cfg - i) + consumers cfg + 2"
| "poll_main_rank cfg (QPush i) = 9 * (elements cfg + consumers cfg - i) + consumers cfg + 1"
| "poll_main_rank cfg (QUnlock i) = 9 * (elements cfg + consumers cfg - i) + consumers cfg - 5"
| "poll_main_rank cfg (QJoin i acc) = consumers cfg - i + 1"
| "poll_main_rank cfg (QExit v) = 0"
| "poll_main_rank cfg QOutOfBounds = 0"

definition poll_measure :: "sum_cfg \<Rightarrow> poll_state \<Rightarrow> nat" where
  "poll_measure cfg s = poll_main_rank cfg (poll_main s) + 5 * length (myqueue_values (poll_queue s))
     + (\<Sum>k<consumers cfg. poll_rank (poll_at s k))"

text \<open>A consumer whose step changes the length of the queue by \<open>l - l'\<close>.\<close>

lemma poll_measure_consumer:
  assumes "k < consumers cfg" "poll_at s' = (poll_at s)(k := p)" "poll_main s' = poll_main s"
    and "5 * length (myqueue_values (poll_queue s')) + poll_rank p
       < 5 * length (myqueue_values (poll_queue s)) + poll_rank (poll_at s k)"
  shows "poll_measure cfg s' < poll_measure cfg s"
  using sum_upd [OF assms(1), of poll_rank "poll_at s" p] assms(2-4) by (simp add: poll_measure_def)

lemma poll_facts:
  assumes "poll_inv cfg s"
  shows "consumers cfg \<le> elements cfg" "myqueue_inv (poll_queue s)" "poll_main s \<noteq> QOutOfBounds"
    and "poll_mutex s = Some 0 \<longleftrightarrow> (\<exists>i. poll_main s = QPush i \<or> poll_main s = QUnlock i)"
    and "poll_mutex s = Some (Suc k) \<longleftrightarrow> poll_at s k \<in> {PTest, PPop} \<union> range PUnlock"
    and "poll_mutex s = Some (Suc k) \<Longrightarrow> k < poll_threads cfg s"
    and "poll_threads cfg s \<le> consumers cfg"
    and "poll_at s k = PPop \<Longrightarrow> \<not> myqueue_is_empty (poll_queue s)"
    and "poll_main s = QJoin i acc \<Longrightarrow> k < consumers cfg \<Longrightarrow> poll_at s k = PIdle \<or> poll_at s k = PLock
      \<Longrightarrow> \<not> myqueue_is_empty (poll_queue s)"
    and "poll_main s = QPush i \<or> poll_main s = QUnlock i \<Longrightarrow> i < elements cfg + consumers cfg"
proof -
  obtain t where inv: "sum_inv cfg t" and rel: "poll_rel s t" using assms by (auto simp: poll_inv_def)
  have R: "qmutex t = poll_mutex s" "queue t = poll_queue s" "ppc t = main_abs (poll_main s)"
      "\<And>j. consumer_rel (poll_at s j) (cpc t j)"
    using rel by (auto simp: poll_rel_def)
  have I: "consumers cfg \<le> elements cfg" "lock_inv t" "queue_part cfg t" "consumer_part cfg t"
      "main_part cfg t (ppc t)" using inv by (simp_all add: sum_inv_def)
  show "consumers cfg \<le> elements cfg" by (rule I)
  show q: "myqueue_inv (poll_queue s)" using I(3) R(2) by (simp add: queue_part_def)
  show "poll_main s \<noteq> QOutOfBounds" using I(5) R(3) by auto
  have h: "poll_mutex s = Some u \<longleftrightarrow> holds t u" for u using I(2) R(1) by (simp add: lock_inv_def)
  show "poll_mutex s = Some 0 \<longleftrightarrow> (\<exists>i. poll_main s = QPush i \<or> poll_main s = QUnlock i)"
    unfolding h using R(3) by (cases "poll_main s") auto
  show "poll_mutex s = Some (Suc k) \<longleftrightarrow> poll_at s k \<in> {PTest, PPop} \<union> range PUnlock"
    unfolding h using R(4) [of k] by (cases "poll_at s k") (auto split: if_splits)
  show "poll_threads cfg s \<le> consumers cfg"
    using threads_le [OF inv] poll_rel_threads [OF rel] by simp
  have out: "cpc t k = CLock" if "threads cfg t \<le> k" using I(4) that by (simp add: consumer_part_def)
  have pop: "myqueue_values (queue t) \<noteq> []" if "cpc t k = CPop" using I(4) that by (simp add: consumer_part_def)
  show "poll_at s k = PPop \<Longrightarrow> \<not> myqueue_is_empty (poll_queue s)"
    using pop R(4) [of k] R(2) mq.is_emp_iff [OF q] by simp
  show "poll_main s = QPush i \<or> poll_main s = QUnlock i \<Longrightarrow> i < elements cfg + consumers cfg"
    using I(5) R(3) by auto
  show "poll_mutex s = Some (Suc k) \<Longrightarrow> k < poll_threads cfg s"
    unfolding h using out poll_rel_threads [OF rel, of cfg] by (cases "k < threads cfg t") auto
  show "\<not> myqueue_is_empty (poll_queue s)"
    if join: "poll_main s = QJoin i acc" and k: "k < consumers cfg" and pc: "poll_at s k = PIdle \<or> poll_at s k = PLock"
  proof
    assume "myqueue_is_empty (poll_queue s)"
    then have "popped cfg t = elements cfg + consumers cfg"
      using join R mq.is_emp_iff [OF q] by (simp add: popped_def)
    from all_pills [OF inv this k] R(4) [of k] pc show False by auto
  qed
qed

text \<open>A step of a consumer that does not poll.\<close>

lemma consumer_advances:
  assumes inv: "poll_inv cfg s" and k: "k < poll_threads cfg s"
    and pc: "poll_at s k \<in> {PTest, PPop} \<union> range PUnlock \<longrightarrow> poll_mutex s = Some (Suc k)"
      "poll_at s k = PIdle \<longrightarrow> \<not> myqueue_is_empty (poll_queue s)" "poll_at s k \<noteq> PLock" "poll_at s k \<noteq> PDone"
  shows "\<exists>u. poll_next cfg s (Suc k) = Some u \<and> poll_measure cfg u < poll_measure cfg s"
proof -
  have K: "k < consumers cfg" using k poll_facts(7) [OF inv] by simp
  note m = poll_measure_consumer [OF K]
  have "\<exists>u. poll_consumer s k = Some u"
    using pc mq.pop_defined [OF poll_facts(2) [OF inv]] poll_facts(8) [OF inv, of k]
    by (cases "poll_at s k") (auto simp: poll_consumer_def split: option.splits)
  then obtain u where u: "poll_consumer s k = Some u" ..
  have "poll_measure cfg u < poll_measure cfg s"
  proof (cases "poll_at s k")
    case PPop
    with u obtain v q where q: "myqueue_pop (poll_queue s) = Some (v, q)"
      and u': "u = s\<lparr>poll_queue := q, poll_at := (poll_at s)(k := PUnlock v)\<rparr>"
      by (auto simp: poll_consumer_def split: option.splits)
    show ?thesis
      by (rule m [where p = "PUnlock v"])
        (use mq.contents_pop [OF poll_facts(2) [OF inv] q] PPop in \<open>auto simp: u'\<close>)
  next
    case PIdle
    with u pc show ?thesis by (intro m [where p = PLock]) (auto simp: poll_consumer_def)
  next
    case PTest
    with u show ?thesis
      by (intro m [where p = "if myqueue_is_empty (poll_queue s) then PUnlock 0 else PPop"])
        (auto simp: poll_consumer_def)
  next
    case (PUnlock v)
    with u show ?thesis by (intro m [where p = "PCheck v"]) (auto simp: poll_consumer_def)
  next
    case (PCheck v)
    with u show ?thesis
      by (intro m [where p = "if v = INT_MAX then PDone else PLock"])
        (auto simp: poll_consumer_def INT_MAX_def split: if_splits)
  qed (use pc in auto)
  with u k show ?thesis by auto
qed

lemma producer_advances:
  assumes inv: "poll_inv cfg s" and step: "poll_producer cfg s = Some u"
  shows "poll_measure cfg u < poll_measure cfg s"
proof -
  note q = poll_facts(2) [OF inv] and oob = poll_facts(1) [OF inv]
  show ?thesis
  proof (cases "poll_main s")
    case (QPush i)
    with poll_facts(10) [OF inv, of i] step mq.contents_push [OF q] show ?thesis
      by (auto simp: poll_producer_def poll_measure_def)
  next
    case (QUnlock i)
    with poll_facts(10) [OF inv, of i] step show ?thesis by (auto simp: poll_producer_def poll_measure_def)
  qed (use step oob in \<open>auto simp: poll_producer_def poll_measure_def split: if_splits\<close>)
qed

text \<open>The last consumers take the mutex, look and pop in a row.\<close>

lemma lock_and_pop:
  assumes inv: "poll_inv cfg s" and k: "k < poll_threads cfg s"
    and s: "poll_at s k = PLock" "poll_mutex s = None" "\<not> myqueue_is_empty (poll_queue s)"
  shows "\<exists>u. run (poll_next cfg) s [Suc k, Suc k, Suc k] = Some u \<and> poll_measure cfg u < poll_measure cfg s"
proof -
  have K: "k < consumers cfg" using k poll_facts(7) [OF inv] by simp
  have q: "myqueue_inv (poll_queue s)" by (rule poll_facts(2) [OF inv])
  obtain v q' where p: "myqueue_pop (poll_queue s) = Some (v, q')" using mq.pop_defined [OF q] s(3) by auto
  define u where "u = s\<lparr>poll_mutex := Some (Suc k), poll_queue := q', poll_at := (poll_at s)(k := PUnlock v)\<rparr>"
  have "run (poll_next cfg) s [Suc k, Suc k, Suc k] = Some u"
    using k s p by (simp add: poll_consumer_def poll_threads_def u_def)
  moreover have "poll_measure cfg u < poll_measure cfg s"
    by (rule poll_measure_consumer [OF K, where p = "PUnlock v"])
      (use mq.contents_pop [OF q p] s in \<open>auto simp: u_def\<close>)
  ultimately show ?thesis by blast
qed

lemma poll_advance:
  assumes inv: "poll_inv cfg s" and ne: "\<nexists>v. poll_main s = QExit v"
  shows "\<exists>es u. run (poll_next cfg) s es = Some u \<and> poll_measure cfg u < poll_measure cfg s"
proof -
  have main: ?thesis if "\<exists>u. poll_producer cfg s = Some u"
  proof -
    from that obtain u where "poll_producer cfg s = Some u" ..
    with producer_advances [OF inv] have "run (poll_next cfg) s [0] = Some u \<and> poll_measure cfg u < poll_measure cfg s"
      by simp
    then show ?thesis by blast
  qed
  have one: ?thesis if "\<exists>u. poll_next cfg s e = Some u \<and> poll_measure cfg u < poll_measure cfg s" for e
  proof -
    from that obtain u where "run (poll_next cfg) s [e] = Some u \<and> poll_measure cfg u < poll_measure cfg s"
      by auto
    then show ?thesis by blast
  qed
  show ?thesis
  proof (cases "poll_mutex s")
    case (Some w)
    show ?thesis
    proof (cases w)
      case 0
      with Some poll_facts(4) [OF inv] show ?thesis by (intro main) (auto simp: poll_producer_def)
    next
      case (Suc k)
      with Some have h: "poll_mutex s = Some (Suc k)" by simp
      with poll_facts(5,6) [OF inv, of k] show ?thesis
        by (intro one [of "Suc k"] consumer_advances [OF inv]) auto
    qed
  next
    case None
    note free = poll_facts(4,5) [OF inv] and join = poll_facts(9) [OF inv]
    show ?thesis
    proof (cases "\<exists>i acc. poll_main s = QJoin i acc \<and> i < consumers cfg \<and> poll_at s i \<noteq> PDone")
      case False
      with None ne free(1) poll_facts(3) [OF inv] show ?thesis
        by (intro main) (cases "poll_main s"; auto simp: poll_producer_def)
    next
      case True
      then obtain i acc where j: "poll_main s = QJoin i acc" "i < consumers cfg" "poll_at s i \<noteq> PDone" by blast
      then have k: "i < poll_threads cfg s" by (simp add: poll_threads_def)
      show ?thesis
      proof (cases "poll_at s i = PLock")
        case True
        with lock_and_pop [OF inv k True None] join [OF j(1,2)] show ?thesis by blast
      next
        case False
        with None free(2) [of i] join [OF j(1,2)] j(3) k show ?thesis
          by (intro one [of "Suc i"] consumer_advances [OF inv]) auto
      qed
    qed
  qed
qed

interpretation polling_can: machine_can "poll_next cfg"
  "\<lambda>s. consumers cfg \<le> elements cfg \<and> s = poll_init" "poll_inv cfg" "poll_measure cfg"
  "\<lambda>s. \<exists>v. poll_main s = QExit v" for cfg
  by unfold_locales (use poll_advance in blast)

section \<open>Properties\<close>

text \<open>C27: Whatever the schedule, the polling program computes what the program with the condition
  variable does: each of its reachable states corresponds to one of that program (with spurious
  wake-ups), with the same queue, mutex and sums; so when main exits, all consumers have ended, the
  printed sum is the parity of the number of elements, and the queue's memory has been released.\<close>

theorem polling_refines:
  assumes "0 < consumers cfg" "consumers cfg \<le> elements cfg" "reach (poll_next cfg) poll_init s"
  shows "(\<exists>t. reach (sum_next cfg) sum_init t \<and> poll_rel s t)
    \<and> (\<forall>v. poll_main s = QExit v \<longrightarrow> v = int (elements cfg mod 2)
         \<and> (\<forall>k. k < consumers cfg \<longrightarrow> poll_at s k = PDone) \<and> cells (poll_queue s) = Map.empty)"
proof -
  have "poll_inv cfg s" using polling.reach_inv [OF assms(3)] assms(2) by simp
  then obtain t where t: "reach (sum_next cfg) sum_init t" "sum_inv cfg t" "poll_rel s t"
    by (auto simp: poll_inv_def)
  have "v = int (elements cfg mod 2) \<and> (\<forall>k. k < consumers cfg \<longrightarrow> poll_at s k = PDone)
      \<and> cells (poll_queue s) = Map.empty" if v: "poll_main s = QExit v" for v
  proof -
    have r: "ppc t = Exit v" "queue t = poll_queue s" "\<And>k. consumer_rel (poll_at s k) (cpc t k)"
      using t(3) v by (auto simp: poll_rel_def)
    note e = exit_result [OF assms(1) t(2) r(1)]
    have "poll_at s k = PDone" if "k < consumers cfg" for k
      using e r(3) [of k] that by (cases "poll_at s k") (auto split: if_splits)
    with e r(2) show ?thesis by simp
  qed
  with t show ?thesis by blast
qed

text \<open>The polling program cannot get stuck: from every reachable state there is a schedule under
  which main exits.\<close>

theorem polling_finishes:
  assumes "consumers cfg \<le> elements cfg" "reach (poll_next cfg) poll_init s"
  shows "\<exists>es t v. run (poll_next cfg) s es = Some t \<and> poll_main t = QExit v"
  using polling_can.finishes_reach [OF assms(2)] assms(1) by blast

theorem polling_finishes_witness:
  "\<exists>es t v. run (poll_next sum_example) poll_init es = Some t \<and> poll_main t = QExit v"
  using polling_finishes [of sum_example, OF _ reach_start] by (simp add: sum_example_def)

theorem polling_refines_witness:
  "\<exists>s. reach (poll_next sum_example) poll_init s \<and> poll_main s = QExit 1"
proof -
  have le: "consumers sum_example \<le> elements sum_example" by (simp add: sum_example_def)
  obtain es s v where s: "run (poll_next sum_example) poll_init es = Some s" "poll_main s = QExit v"
    using polling_can.finishes [OF poll_inv_init [OF le]] by blast
  have "v = 1" using polling_refines [OF _ le run_reach [OF s(1)]] s(2) by (simp add: sum_example_def)
  with run_reach [OF s(1)] s(2) show ?thesis by blast
qed

end
