(* ===== verification/Forks.thy ===== *)
theory Forks
  imports CString
begin

text \<open>
  Two programs that fork: the dice simulation \<^verbatim>\<open>exercise02/task3/task3.c\<close> and the counter of a
  process and a thread, \<^verbatim>\<open>exercise03/task3/task3a.c\<close>. The results of \<^verbatim>\<open>fork\<close> are scripts; the
  random numbers are a parameter: \<open>srand\<close> gives the state for a seed, \<open>rand\<close> a number and the next
  state. Times are left out.
\<close>

section \<open>The dice simulation\<close>

definition roll :: "('r \<Rightarrow> nat \<times> 'r) \<Rightarrow> 'r \<Rightarrow> nat \<times> 'r" where
  "roll rand r = (case rand r of (n, r) \<Rightarrow> (n mod 6 + 1, r))"

text \<open>The loop of \<^verbatim>\<open>DR_p\<close>, with the number of rounds left.\<close>

fun dr_loop :: "('r \<Rightarrow> nat \<times> 'r) \<Rightarrow> nat \<Rightarrow> nat \<Rightarrow> nat \<Rightarrow> 'r \<Rightarrow> nat \<times> 'r" where
  "dr_loop rand target 0 hit_count r = (hit_count, r)"
| "dr_loop rand target (Suc left) hit_count r =
     (case roll rand r of (n, r) \<Rightarrow> dr_loop rand target left (if n = target then hit_count + 1 else hit_count) r)"

text \<open>The quotient that \<^verbatim>\<open>DR_p\<close> returns, as its two numbers; 0 / 0 is not a number.\<close>

definition DR_p :: "('r \<Rightarrow> nat \<times> 'r) \<Rightarrow> nat \<Rightarrow> int \<Rightarrow> 'r \<Rightarrow> (nat \<times> int) \<times> 'r" where
  "DR_p rand target steps r =
     (case dr_loop rand target (nat steps) 0 r of (hit_count, r) \<Rightarrow> ((hit_count, steps), r))"

text \<open>What a child prints: its index, its process id, the number it looks for, and the quotient.\<close>

record report =
  child :: nat
  pid :: nat
  target_num :: nat
  quotient :: "nat \<times> int"

definition child_process :: "(nat \<Rightarrow> 'r) \<Rightarrow> ('r \<Rightarrow> nat \<times> 'r) \<Rightarrow> int \<Rightarrow> nat \<Rightarrow> nat \<Rightarrow> report" where
  "child_process srand rand steps i p =
     (case roll rand (srand p) of
        (target, r) \<Rightarrow> \<lparr>child = i, pid = p, target_num = target, quotient = fst (DR_p rand target steps r)\<rparr>)"

text \<open>The \<^verbatim>\<open>for\<close> loop of the parent: \<open>None\<close> in \<open>forks\<close> is a fork that fails. The flag says whether
  all children have been created.\<close>

fun fork_loop :: "(nat \<Rightarrow> 'r) \<Rightarrow> ('r \<Rightarrow> nat \<times> 'r) \<Rightarrow> int \<Rightarrow> nat \<Rightarrow> nat \<Rightarrow> nat option list \<Rightarrow> report list \<times> bool" where
  "fork_loop srand rand steps i 0 forks = ([], True)"
| "fork_loop srand rand steps i (Suc left) forks =
     (case forks of
        Some p # forks \<Rightarrow>
          (case fork_loop srand rand steps (i + 1) left forks of
             (reports, ok) \<Rightarrow> (child_process srand rand steps i p # reports, ok))
      | _ \<Rightarrow> ([], False))"

datatype simulation = BadUsage | ForkFailed "report list" | SimulationDone "report list" nat

text \<open>\<open>SimulationDone\<close> holds the reports and how often the parent has called \<^verbatim>\<open>wait\<close>.\<close>

definition simulation_main :: "(nat \<Rightarrow> 'r) \<Rightarrow> ('r \<Rightarrow> nat \<times> 'r) \<Rightarrow> cstring list \<Rightarrow> nat option list \<Rightarrow> simulation" where
  "simulation_main srand rand argv forks =
     (if length argv \<noteq> 3 then BadUsage
      else let amount_childs = to_int (strtol (argv ! 1)); steps = to_int (strtol (argv ! 2))
           in case fork_loop srand rand steps 0 (nat amount_childs) forks of
                (reports, False) \<Rightarrow> ForkFailed reports
              | (reports, True) \<Rightarrow> SimulationDone reports (nat amount_childs))"

subsection \<open>What is counted\<close>

text \<open>The first \<open>n\<close> rolls.\<close>

fun rolls_of :: "('r \<Rightarrow> nat \<times> 'r) \<Rightarrow> nat \<Rightarrow> 'r \<Rightarrow> nat list" where
  "rolls_of rand 0 r = []"
| "rolls_of rand (Suc n) r = (case roll rand r of (m, r) \<Rightarrow> m # rolls_of rand n r)"

lemma roll_range: "fst (roll rand r) \<in> {1..6}"
  by (auto simp: roll_def case_prod_unfold less_Suc_eq_le [symmetric])

lemma rolls_range: "set (rolls_of rand n r) \<subseteq> {1..6}"
proof (induction n arbitrary: r)
  case (Suc n)
  with roll_range [of rand r] show ?case by (simp add: case_prod_unfold)
qed simp

lemma length_rolls: "length (rolls_of rand n r) = n"
  by (induction n arbitrary: r) (auto split: prod.splits)

lemma dr_loop_counts: "fst (dr_loop rand target n c r) = c + count_list (rolls_of rand n r) target"
  by (induction n arbitrary: c r) (auto split: prod.splits)

lemma count_faces: "set xs \<subseteq> A \<Longrightarrow> finite A \<Longrightarrow> (\<Sum>t\<in>A. count_list xs t) = length xs"
  by (rule sum_count_set)

text \<open>One call of \<^verbatim>\<open>DR_p\<close> per face of the die, on the same random numbers: the hits add up to the
  number of steps.\<close>

theorem frequencies_add_up:
  "(\<Sum>t\<in>{1..6}. fst (fst (DR_p rand t steps r))) = nat steps"
proof -
  have "fst (fst (DR_p rand t steps r)) = count_list (rolls_of rand (nat steps) r) t" for t
    using dr_loop_counts [of rand t "nat steps" 0 r] by (simp add: DR_p_def case_prod_unfold)
  then show ?thesis
    using count_faces [OF rolls_range, of rand "nat steps" r] by (simp add: length_rolls)
qed

lemma fork_loop_success:
  "fork_loop srand rand steps i n (map Some ps) =
     (map (\<lambda>(j, p). child_process srand rand steps j p) (zip [i..<i + n] (take n ps)), n \<le> length ps)"
proof (induction n arbitrary: i ps)
  case (Suc n)
  show ?case
  proof (cases ps)
    case (Cons p ps')
    have "[i..<i + Suc n] = i # [i + 1..<i + 1 + n]" by (simp add: upt_conv_Cons)
    with Cons Suc show ?thesis by simp
  qed simp
qed simp

lemma child_process_counts:
  "quotient (child_process srand rand steps i p) =
     (count_list (rolls_of rand (nat steps) (snd (roll rand (srand p)))) (target_num (child_process srand rand steps i p)),
      steps)"
  "target_num (child_process srand rand steps i p) = fst (roll rand (srand p))"
  using dr_loop_counts [of rand _ "nat steps" 0]
  by (simp_all add: child_process_def DR_p_def case_prod_unfold)

text \<open>When no fork fails the program waits as often as it has children, and every child reports
  once, in its own name: the number it looks for is a face of the die, drawn from the sequence its
  process id seeds, and the hits are the occurrences of that number among the \<open>steps\<close> rolls that
  follow.\<close>

theorem simulation_reports:
  assumes "length argv = 3" "to_int (strtol (argv ! 1)) = int (length pids)" "to_int (strtol (argv ! 2)) = steps"
  shows "\<exists>reports. simulation_main srand rand argv (map Some pids) = SimulationDone reports (length pids)
    \<and> map child reports = [0..<length pids] \<and> map pid reports = pids
    \<and> (\<forall>r \<in> set reports. target_num r = fst (roll rand (srand (pid r))) \<and> target_num r \<in> {1..6}
         \<and> quotient r = (count_list (rolls_of rand (nat steps) (snd (roll rand (srand (pid r))))) (target_num r), steps)
         \<and> fst (quotient r) \<le> nat steps)"
proof -
  let ?c = "\<lambda>(j, p). child_process srand rand steps j p"
  define reports where "reports = map ?c (zip [0..<length pids] pids)"
  have id: "child (child_process srand rand steps j p) = j" "pid (child_process srand rand steps j p) = p" for j p
    by (simp_all add: child_process_def split: prod.splits)
  have "simulation_main srand rand argv (map Some pids) = SimulationDone reports (length pids)"
    using assms fork_loop_success [of srand rand steps 0 "length pids" pids]
    by (simp add: simulation_main_def reports_def)
  moreover have "map child reports = [0..<length pids]" "map pid reports = pids"
    by (auto simp: reports_def id intro!: nth_equalityI)
  moreover have "target_num r = fst (roll rand (srand (pid r))) \<and> target_num r \<in> {1..6}
         \<and> quotient r = (count_list (rolls_of rand (nat steps) (snd (roll rand (srand (pid r))))) (target_num r), steps)
         \<and> fst (quotient r) \<le> nat steps" if "r \<in> set reports" for r
  proof -
    from that obtain j p where r: "r = child_process srand rand steps j p" by (auto simp: reports_def)
    have "count_list xs t \<le> length xs" for xs :: "nat list" and t by (rule count_le_length)
    from this [of "rolls_of rand (nat steps) (snd (roll rand (srand p)))"]
    show ?thesis using child_process_counts [of srand rand steps j p] roll_range [of rand "srand p"]
      unfolding r by (simp add: id length_rolls)
  qed
  ultimately show ?thesis by blast
qed

section \<open>The counter of a process and a thread\<close>

text \<open>
  \<^verbatim>\<open>int8_t counter\<close> is copied by \<^verbatim>\<open>fork\<close>. The result: what the parent prints (\<open>None\<close> when it exits
  with an error before the end), and the counter of the child when it exits.
\<close>

datatype fork_result = ForkError | Forked

record counting =
  printed :: "8 word list"
  exit_ok :: bool
  child_counter :: "8 word option"

definition counting_main :: "bool \<Rightarrow> fork_result \<Rightarrow> bool \<Rightarrow> counting" where
  "counting_main debug fork created =
     (let counter = 1
      in case fork of
           ForkError \<Rightarrow> \<lparr>printed = [counter], exit_ok = False, child_counter = None\<rparr>
         | Forked \<Rightarrow>
             (let child = Some (counter + 1)
              in if debug then \<lparr>printed = [counter, counter, counter], exit_ok = True, child_counter = child\<rparr>
                 else if \<not> created then \<lparr>printed = [counter, counter], exit_ok = False, child_counter = child\<rparr>
                 else let thread = counter + 1
                      in \<lparr>printed = [counter, counter, thread], exit_ok = True, child_counter = child\<rparr>))"

text \<open>The process the comment speaks of: the parent ends with 2, as it says, and so does the child,
  which the comment expects to end with 3.\<close>

theorem counting_result:
  "counting_main False Forked True = \<lparr>printed = [1, 1, 2], exit_ok = True, child_counter = Some 2\<rparr>"
  by (simp add: counting_main_def)

section \<open>An instance\<close>

theorem simulation_reports_witness:
  "\<exists>reports. simulation_main (\<lambda>seed. seed) (\<lambda>r. (r, r + 1)) (map bytes [''sim'', ''2'', ''6'']) (map Some [10, 11])
      = SimulationDone reports 2
    \<and> map pid reports = [10, 11] \<and> (\<forall>r \<in> set reports. target_num r \<in> {1..6})"
proof -
  have "to_int (strtol (bytes ''2'')) = 2" "to_int (strtol (bytes ''6'')) = 6" by code_simp+
  with simulation_reports [of "map bytes [''sim'', ''2'', ''6'']" "[10, 11]" 6 "\<lambda>seed. seed" "\<lambda>r. (r, r + 1)"]
  show ?thesis by auto
qed

end
