(* ===== verification/BeehiveMain.thy ===== *)
theory BeehiveMain
  imports Beehive CString
begin

text \<open>
  The frame of \<^verbatim>\<open>exercise11/task3/beehive.c\<close> around the bees of \<open>Beehive\<close>: the arguments, the time a
  bee sleeps, the report and the clean-up, in which tasks 1 and 2 differ.
\<close>

section \<open>Arguments and sleeping\<close>

text \<open>
  The arguments go through \<^verbatim>\<open>atoi\<close>, which gives an \<^verbatim>\<open>int\<close>; a negative one becomes a large \<^verbatim>\<open>size_t\<close>.
  \<open>Inl\<close> is the exit code.
\<close>

definition hive_args :: "cstring list \<Rightarrow> int + (field_geometry option \<times> u64)" where
  "hive_args argv =
     (if length argv \<noteq> 4 then Inl 1
      else let num = (\<lambda>i. to_int (strtol (argv ! i)))
           in Inr (global_field (num 1) (num 2), word_of_int (num 3)))"

definition WORK_MAX :: int where "WORK_MAX = 500"
definition WORK_MIN :: int where "WORK_MIN = 100"
definition HIVE_MAX :: int where "HIVE_MAX = 500"
definition HIVE_MIN :: int where "HIVE_MIN = 100"

datatype sleep_enum = HIVE | WORK

text \<open>The argument of \<^verbatim>\<open>usleep\<close> for the result \<open>r\<close> of \<^verbatim>\<open>rand\<close>.\<close>

definition sleep_func :: "sleep_enum \<Rightarrow> int \<Rightarrow> int" where
  "sleep_func var r =
     (let max = (if var = WORK then WORK_MAX else HIVE_MAX);
          min = (if var = WORK then WORK_MIN else HIVE_MIN);
          random_number = r mod (max - min + 1) + min
      in random_number * 1000)"

lemma sleep_func_range:
  assumes "0 \<le> r"
  shows "sleep_func var r \<in> {100000..500000}" "in_int (sleep_func var r)"
proof -
  have "0 \<le> r mod 401" "r mod 401 < 401" by simp_all
  then show "sleep_func var r \<in> {100000..500000}" "in_int (sleep_func var r)"
    by (cases var; simp add: sleep_func_def WORK_MAX_def WORK_MIN_def HIVE_MAX_def HIVE_MIN_def in_int_def INT_MAX_def INT_MIN_def)+
qed

section \<open>The end of main\<close>

text \<open>The numbers that are printed: bees, collected flowers, all flowers.\<close>

datatype report = Harvested u64 u64 u64 | Lost u64 u64 u64

definition hive_report :: "hive_cfg \<Rightarrow> u64 \<Rightarrow> hive \<Rightarrow> report" where
  "hive_report cfg number_of_bees s =
     (if destroyed s then Lost number_of_bees (collected s) (number_flowers (geometry cfg))
      else Harvested number_of_bees (collected s) (number_flowers (geometry cfg)))"

text \<open>
  What main has allocated and initialised, as flags that say whether it is still there; the queue
  has one more block for every entry.
\<close>

record hive_memory =
  field_block :: bool
  data_block :: bool
  thread_block :: bool
  queue_block :: bool
  queue_entries :: nat
  mutexes :: bool
  barrier :: bool

definition cleanup :: "hive_memory \<Rightarrow> hive_memory" where
  "cleanup m = m\<lparr>field_block := False, data_block := False, thread_block := False, queue_block := False,
     mutexes := False, barrier := False\<rparr>"

text \<open>The version of tasks 1 and 2, which are the same file: the queue is not freed.\<close>

definition task1_cleanup :: "hive_memory \<Rightarrow> hive_memory" where
  "task1_cleanup m = m\<lparr>field_block := False, data_block := False, thread_block := False,
     mutexes := False, barrier := False\<rparr>"

definition hive_memory_of :: "hive \<Rightarrow> hive_memory" where
  "hive_memory_of s = \<lparr>field_block = True, data_block = True, thread_block = True, queue_block = True,
     queue_entries = length (myqueue_values (hqueue s)), mutexes = True, barrier = True\<rparr>"

text \<open>
  The normal end, and the end when \<^verbatim>\<open>pthread_create\<close> fails, which frees everything although the
  bees created before are still running: the exit code and what is left.
\<close>

definition hive_end :: "hive \<Rightarrow> int \<times> hive_memory" where
  "hive_end s = (0, cleanup (hive_memory_of s))"

definition spawn_failure :: "hive \<Rightarrow> int \<times> hive_memory" where
  "spawn_failure s = (1, cleanup (hive_memory_of s))"

text \<open>The blocks that have not been freed.\<close>

definition live_blocks :: "hive_memory \<Rightarrow> nat" where
  "live_blocks m = of_bool (field_block m) + of_bool (data_block m) + of_bool (thread_block m)
     + of_bool (queue_block m) + queue_entries m"

text \<open>The entries of the queue are never freed, in tasks 1 and 2 the queue is not either.\<close>

lemma cleanup_leaks:
  "live_blocks (snd (hive_end s)) = length (myqueue_values (hqueue s))"
  "live_blocks (task1_cleanup (hive_memory_of s)) = length (myqueue_values (hqueue s)) + 1"
  by (simp_all add: live_blocks_def hive_end_def cleanup_def task1_cleanup_def hive_memory_of_def)

text \<open>A bee that has been created uses the queue's mutex after the failure has destroyed it.\<close>

lemma spawn_failure_race:
  assumes "hpc s = HSpawn i" "0 < i" "bpc s 0 = BLockQueue" "queue_mutex s = None"
  shows "\<exists>u. hive_next cfg s (Bee 0 r1 r2) = Some u \<and> bpc u 0 = BTest \<and> \<not> mutexes (snd (spawn_failure s))"
  using assms by (simp add: bee_step_def spawned_def spawn_failure_def cleanup_def Let_def)

end
