(* ===== verification/Messages.thy ===== *)
theory Messages
  imports CString "HOL-Library.Monad_Syntax"
begin

text \<open>
  The messages of the broadcasting servers under \<^verbatim>\<open>trys/exercise9_hetzenauer\<close>: how the server takes
  a whisper apart, what it writes into the 265 bytes of \<^verbatim>\<open>msg\<close> and what the clients print of the
  256 bytes they are sent.
\<close>

section \<open>Arrays of characters\<close>

definition MSG_BUFFER_SIZE :: nat where "MSG_BUFFER_SIZE = 128"

text \<open>The size of \<^verbatim>\<open>msg\<close>.\<close>

definition MSG_SIZE :: nat where "MSG_SIZE = 265"

text \<open>The string at \<^verbatim>\<open>buf + i\<close>; \<open>None\<close> when the array has no terminator there.\<close>

definition string_at :: "u8 list \<Rightarrow> nat \<Rightarrow> cstring option" where
  "string_at buf i = (if 0 \<in> set (drop i buf) then Some (cstr (drop i buf)) else None)"

text \<open>\<^verbatim>\<open>sprintf(d, "%.*s", p, buf + i)\<close>: at most \<open>p\<close> bytes, the whole string when \<open>p\<close> is negative.\<close>

definition print_prec :: "u8 list \<Rightarrow> nat \<Rightarrow> int \<Rightarrow> cstring option" where
  "print_prec buf i p =
     (if 0 \<le> p \<and> nat p \<le> length (cstr (drop i buf)) then Some (take (nat p) (drop i buf))
      else string_at buf i)"

section \<open>Whispers\<close>

text \<open>
  The loop of \<^verbatim>\<open>get_message\<close>, which looks for the second separator without looking for the end of
  the string; \<open>None\<close>: it leaves the array. \<open>first\<close> is \<^verbatim>\<open>data[0]\<close>.
\<close>

function get_loop :: "u8 list \<Rightarrow> u8 \<Rightarrow> nat \<Rightarrow> nat \<Rightarrow> nat \<Rightarrow> cstring option \<Rightarrow> (nat \<times> cstring option) option" where
  "get_loop str sep x start stop first =
     (if length str \<le> stop then None
      else if str ! stop \<noteq> sep then get_loop str sep x start (stop + 1) first
      else (case (if x \<noteq> 0 then map_option Some (print_prec str start (int stop - int start)) else Some first) of
              None \<Rightarrow> None
            | Some first \<Rightarrow>
                if x + 1 = 2 then Some (stop + 1, first)
                else get_loop str sep (x + 1) (stop + 1) (stop + 1) first))"
  by pat_completeness auto

termination by (relation "measure (\<lambda>(str, sep, x, start, stop, first). length str - stop)") auto

declare get_loop.simps [simp del]

text \<open>The two halves of \<^verbatim>\<open>data\<close>; \<open>None\<close>: a read behind the end of the array.\<close>

definition get_message :: "u8 list \<Rightarrow> u8 \<Rightarrow> (cstring \<times> cstring) option" where
  "get_message str sep =
     do { (start, first) \<leftarrow> get_loop str sep 0 0 0 None;
          a \<leftarrow> first;
          whole \<leftarrow> string_at str 0;
          b \<leftarrow> print_prec str start (int (length whole) - int start);
          Some (a, b) }"

text \<open>\<^verbatim>\<open>strncpy(copy, in_buffer, 2)\<close> into three bytes, of which the last is zero.\<close>

definition is_whisper :: "u8 list \<Rightarrow> bool" where
  "is_whisper buf \<longleftrightarrow> cstr (take 2 (cstr buf @ [0, 0]) @ [0]) = bytes ''/w''"

text \<open>\<^verbatim>\<open>sprintf\<close> into \<^verbatim>\<open>msg\<close>: \<open>None\<close> when the text does not fit.\<close>

definition sprintf_msg :: "u8 list \<Rightarrow> cstring \<Rightarrow> u8 list option" where
  "sprintf_msg msg t = (if length t < length msg then Some (read_into msg (t @ [0])) else None)"

definition whisper_text :: "u8 list \<Rightarrow> cstring \<Rightarrow> cstring option" where
  "whisper_text name t = map_option (\<lambda>n. n @ bytes '' (whispers): '' @ t) (string_at name 0)"

definition say_text :: "u8 list \<Rightarrow> u8 list \<Rightarrow> cstring option" where
  "say_text name buf =
     do { n \<leftarrow> string_at name 0;
          b \<leftarrow> string_at buf 0;
          Some (n @ bytes '': '' @ b) }"

text \<open>The commands, compared with \<^verbatim>\<open>strcmp\<close>.\<close>

definition is_quit :: "u8 list \<Rightarrow> bool" where
  "is_quit buf \<longleftrightarrow> cstr buf = bytes ''/quit'' @ [10]"

definition is_shutdown :: "u8 list \<Rightarrow> bool" where
  "is_shutdown buf \<longleftrightarrow> cstr buf = bytes ''/shutdown'' @ [10]"

text \<open>An input buffer that was cleared before \<open>s\<close> was read into it.\<close>

definition packet :: "u8 list \<Rightarrow> u8 list" where
  "packet s = read_into (replicate MSG_BUFFER_SIZE 0) s"

section \<open>The parser\<close>

lemma packet_append: "length s < MSG_BUFFER_SIZE \<Longrightarrow> packet s = s @ 0 # replicate (MSG_BUFFER_SIZE - length s - 1) 0"
  by (simp add: packet_def read_into_def flip: replicate_Suc)

lemma length_packet [simp]: "length s \<le> MSG_BUFFER_SIZE \<Longrightarrow> length (packet s) = MSG_BUFFER_SIZE"
  by (simp add: packet_def)

lemma cstr_packet [simp]: "c_string s \<Longrightarrow> length s < MSG_BUFFER_SIZE \<Longrightarrow> cstr (packet s) = s"
  by (simp add: packet_append)

lemma get_loop_none:
  assumes "sep \<notin> set (drop stop str)"
  shows "get_loop str sep x start stop first = None"
  using assms
proof (induction "length str - stop" arbitrary: stop)
  case 0
  then show ?case by (subst get_loop.simps) simp
next
  case (Suc n)
  then have "drop stop str = str ! stop # drop (Suc stop) str" by (simp add: Cons_nth_drop_Suc)
  with Suc have "str ! stop \<noteq> sep" "get_loop str sep x start (stop + 1) first = None" by auto
  then show ?case by (subst get_loop.simps) simp
qed

lemma get_loop_skip:
  assumes "sep \<notin> set w"
  shows "get_loop (p @ w @ q) sep x start (length p) first = get_loop (p @ w @ q) sep x start (length (p @ w)) first"
  using assms
proof (induction w arbitrary: p)
  case (Cons a w)
  have "get_loop (p @ a # w @ q) sep x start (length p) first
      = get_loop (p @ a # w @ q) sep x start (Suc (length p)) first"
    using Cons.prems by (subst get_loop.simps) auto
  also have "\<dots> = get_loop (p @ a # w @ q) sep x start (Suc (length p + length w)) first"
    using Cons.IH [of "p @ [a]"] Cons.prems by simp
  finally show ?case by simp
qed simp

lemma get_loop_found:
  assumes "sep \<notin> set w" "sep \<notin> set a" "c_string a"
  shows "get_loop (w @ sep # a @ sep # q) sep 0 0 0 None = Some (length w + length a + 2, Some a)"
proof -
  let ?s = "w @ sep # a @ sep # q"
  have "get_loop ?s sep 0 0 0 None = get_loop ?s sep 0 0 (length w) None"
    using get_loop_skip [OF assms(1), of "[]"] by simp
  also have "\<dots> = get_loop ?s sep 1 (Suc (length w)) (Suc (length w)) None"
    by (subst get_loop.simps) simp
  also have "\<dots> = get_loop ?s sep 1 (Suc (length w)) (Suc (length w + length a)) None"
    using get_loop_skip [OF assms(2), of "w @ [sep]" "sep # q"] by simp
  also have "\<dots> = Some (length w + length a + 2, Some a)"
  proof -
    have "length a \<le> length (cstr (a @ sep # q))"
      using assms(3) by (auto simp: cstr_def c_string_def takeWhile_append)
    then have "print_prec ?s (Suc (length w)) (int (Suc (length w + length a)) - int (Suc (length w))) = Some a"
      by (simp add: print_prec_def)
    moreover have "?s ! Suc (length w + length a) = sep" by (simp add: nth_append)
    ultimately show ?thesis by (subst get_loop.simps) simp
  qed
  finally show ?thesis .
qed

lemma split_once: "sep \<in> set s \<Longrightarrow> \<exists>w r. s = w @ sep # r \<and> sep \<notin> set w"
  by (metis split_list_first)

lemma split_unique:
  assumes "c \<notin> set w" "c \<notin> set w'" "w @ c # r = w' @ c # r'"
  shows "w = w' \<and> r = r'"
  using assms by (induction w arbitrary: w') (auto simp: Cons_eq_append_conv)

lemma get_message_found:
  assumes "sep \<notin> set w" "sep \<notin> set a" "c_string a" "c_string w" "c_string b" "sep \<noteq> 0"
  shows "get_message (w @ sep # a @ sep # b @ 0 # rest) sep = Some (a, b)"
proof -
  let ?s = "w @ sep # a @ sep # b"
  have c: "c_string ?s" using assms by (auto simp: c_string_def)
  have whole: "string_at (?s @ 0 # rest) 0 = Some ?s" using cstr_id [OF c, of rest] by (simp add: string_at_def)
  have "drop (length w + length a + 2) (?s @ 0 # rest) = b @ 0 # rest" by simp
  then have "print_prec (?s @ 0 # rest) (length w + length a + 2) (int (length ?s) - int (length w + length a + 2)) = Some b"
    using assms(5) by (simp add: print_prec_def)
  with get_loop_found [OF assms(1-3), of "b @ 0 # rest"] whole show ?thesis
    by (simp add: get_message_def)
qed

lemma two_separators:
  "(\<exists>w x y. s = w @ c # x @ c # y \<and> c \<notin> set w \<and> c \<notin> set x) \<longleftrightarrow> 2 \<le> count_list s c"
proof
  assume two: "2 \<le> count_list s c"
  then have "c \<in> set s" using count_notin [of c s] by fastforce
  then obtain w r where w: "s = w @ c # r" "c \<notin> set w" using split_once by metis
  with two have "c \<in> set r" using count_notin [of c r] by (fastforce simp: count_notin)
  with w show "\<exists>w x y. s = w @ c # x @ c # y \<and> c \<notin> set w \<and> c \<notin> set x" using split_once [of c r] by auto
qed auto

text \<open>What \<^verbatim>\<open>get_message\<close> gives on a message of a client, for all messages.\<close>

lemma get_message_cases:
  assumes "c_string s" "length s < MSG_BUFFER_SIZE"
  shows "get_message (packet s) 32 = Some (a, b) \<longleftrightarrow> (\<exists>w. s = w @ 32 # a @ 32 # b \<and> 32 \<notin> set w \<and> 32 \<notin> set a)"
proof -
  obtain z where p: "packet s = s @ 0 # z" and z: "32 \<notin> set z"
    by (rule that [OF packet_append [OF assms(2)]]) simp
  have none: "get_message (packet s) 32 = None" if "get_loop (packet s) 32 0 0 0 None = None"
    using that by (simp add: get_message_def)
  consider (0) "32 \<notin> set s" | (1) w r where "s = w @ 32 # r" "32 \<notin> set w" "32 \<notin> set r"
    | (2) w x y where "s = w @ 32 # x @ 32 # y" "32 \<notin> set w" "32 \<notin> set x"
    using split_once [of 32] by metis
  then show ?thesis
  proof cases
    case 0
    then have "get_loop (packet s) 32 0 0 0 None = None" unfolding p using z by (intro get_loop_none) auto
    with none 0 show ?thesis by auto
  next
    case 1
    have p1: "packet s = w @ 32 # r @ 0 # z" using p 1(1) by simp
    have "get_loop (packet s) 32 0 0 0 None = get_loop (packet s) 32 0 0 (length w) None"
      using get_loop_skip [OF 1(2), of "[]" "32 # r @ 0 # z"] by (simp add: p1)
    also have "\<dots> = get_loop (packet s) 32 1 (Suc (length w)) (Suc (length w)) None"
      unfolding p1 by (subst get_loop.simps) simp
    also have "\<dots> = None" unfolding p1 using 1(3) z by (intro get_loop_none) auto
    finally have "get_message (packet s) 32 = None" by (rule none)
    moreover have "s \<noteq> w' @ 32 # a @ 32 # b" if "32 \<notin> set w'" for w'
    proof
      assume "s = w' @ 32 # a @ 32 # b"
      then have "count_list s 32 \<ge> 2" by simp
      moreover have "count_list s 32 = 1" using 1 by (simp add: count_notin)
      ultimately show False by simp
    qed
    ultimately show ?thesis by auto
  next
    case 2
    have "c_string w" "c_string x" "c_string y" using assms(1) 2(1) by (simp_all add: c_string_def)
    moreover have "packet s = w @ 32 # x @ 32 # y @ 0 # z" using p 2(1) by simp
    ultimately have "get_message (packet s) 32 = Some (x, y)" using get_message_found [OF 2(2,3)] by simp
    moreover have "w = w' \<and> x = a \<and> y = b" if "s = w' @ 32 # a @ 32 # b" "32 \<notin> set w'" "32 \<notin> set a" for w'
      using that 2 split_unique [of 32 w w' "x @ 32 # y" "a @ 32 # b"] split_unique [of 32 x a y b] by simp
    ultimately show ?thesis using 2 by (metis option.inject prod.inject)
  qed
qed

lemma string_at_packet: "c_string s \<Longrightarrow> length s < MSG_BUFFER_SIZE \<Longrightarrow> string_at (packet s) 0 = Some s"
  by (simp add: string_at_def packet_append)

section \<open>Bounds\<close>

lemma length_cstr_less: "0 \<in> set buf \<Longrightarrow> length (cstr buf) < length buf"
  by (induction buf) (auto simp: cstr_def)

lemma string_at_bound: "string_at buf i = Some s \<Longrightarrow> i + length s < length buf"
  using length_cstr_less [of "drop i buf"] by (auto simp: string_at_def split: if_splits)

lemma print_prec_bound:
  assumes "print_prec buf i p = Some s" "i + nat p < n" "length buf \<le> n"
  shows "i + length s < n"
  using assms string_at_bound [of buf i s] by (auto simp: print_prec_def split: if_splits)

lemma get_loop_bound:
  assumes "get_loop str sep x start stop first = Some (st, f)" "x < 2" "start \<le> stop" "length str \<le> n"
    "\<And>w. first = Some w \<Longrightarrow> length w < n"
  shows "stop + (2 - x) \<le> st \<and> (\<forall>w. f = Some w \<longrightarrow> length w < n)"
  using assms
proof (induction str sep x start stop first rule: get_loop.induct)
  case (1 str sep x start stop first)
  note unfold = 1(3) [unfolded get_loop.simps [of str sep x start stop first]]
  show ?case
  proof (cases "str ! stop = sep")
    case False
    with unfold have "stop < length str" "get_loop str sep x start (stop + 1) first = Some (st, f)"
      by (auto split: if_splits)
    then show ?thesis using 1(1) False 1(4-7) by fastforce
  next
    case True
    with unfold obtain g where g: "stop < length str"
      "(if x \<noteq> 0 then map_option Some (print_prec str start (int stop - int start)) else Some first) = Some g"
      "(if x + 1 = 2 then Some (stop + 1, g) else get_loop str sep (x + 1) (stop + 1) (stop + 1) g) = Some (st, f)"
      by (auto split: if_splits option.splits)
    have len: "length w < n" if "g = Some w" for w
    proof (cases "x = 0")
      case False
      then have p: "print_prec str start (int stop - int start) = Some w" using g(2) that by auto
      have "start + nat (int stop - int start) < n" using g(1) 1(5,6) by simp
      from print_prec_bound [OF p this 1(6)] show ?thesis by simp
    qed (use g(2) that 1(7) in auto)
    show ?thesis
    proof (cases "x + 1 = 2")
      case True
      with g(3) len show ?thesis by auto
    next
      case False
      with g(3) have "get_loop str sep (x + 1) (stop + 1) (stop + 1) g = Some (st, f)" by simp
      from 1(2) [OF _ _ g(2) False this] g(1) True False 1(4,6) len show ?thesis by fastforce
    qed
  qed
qed

lemma get_message_bound:
  assumes len: "length buf = MSG_BUFFER_SIZE" and w: "is_whisper buf" and m: "get_message buf 32 = Some (a, b)"
  shows "length a < MSG_BUFFER_SIZE \<and> length b < MSG_BUFFER_SIZE - 4"
proof -
  obtain c d rest where buf: "buf = c # d # rest"
    using len by (cases buf; cases "tl buf") (auto simp: MSG_BUFFER_SIZE_def)
  have "c = 47" "d = 119" using w by (auto simp: is_whisper_def buf bytes_def cstr_def split: if_splits)
  then have "32 \<notin> set [c, d]" by simp
  from get_loop_skip [OF this, of "[]" rest 0 0 None]
  have "get_loop buf 32 0 0 0 None = get_loop buf 32 0 0 (Suc (Suc 0)) None" by (simp add: buf)
  moreover obtain st whole where st: "get_loop buf 32 0 0 0 None = Some (st, Some a)" "string_at buf 0 = Some whole"
      "print_prec buf st (int (length whole) - int st) = Some b"
    using m by (auto simp: get_message_def split: bind_splits)
  ultimately have "get_loop buf 32 0 0 (Suc (Suc 0)) None = Some (st, Some a)" by simp
  from get_loop_bound [OF this, of MSG_BUFFER_SIZE] have "4 \<le> st" "length a < MSG_BUFFER_SIZE"
    using len by simp_all
  moreover have "length whole < MSG_BUFFER_SIZE" using string_at_bound [OF st(2)] len by simp
  then have "length b < MSG_BUFFER_SIZE - 4"
    using st(3) string_at_bound [of buf st b] len \<open>4 \<le> st\<close> by (auto simp: print_prec_def split: if_splits)
  ultimately show ?thesis by simp
qed

text \<open>The texts fit into \<^verbatim>\<open>msg\<close>.\<close>

lemma say_text_bound:
  assumes "length name = MSG_BUFFER_SIZE" "length buf = MSG_BUFFER_SIZE" "say_text name buf = Some t"
  shows "length t + 1 \<le> 257" "c_string t"
  using assms string_at_bound [of name 0] string_at_bound [of buf 0]
  by (auto simp: say_text_def bytes_def MSG_BUFFER_SIZE_def string_at_def c_string_def cstr_def
      dest: set_takeWhileD split: bind_splits if_splits)

lemma whisper_text_bound:
  assumes "length name = MSG_BUFFER_SIZE" "length buf = MSG_BUFFER_SIZE" "is_whisper buf"
    "get_message buf 32 = Some (a, b)" "whisper_text name b = Some t"
  shows "length t + 1 \<le> MSG_SIZE - 1"
  using assms(5) string_at_bound [of name 0] get_message_bound [OF assms(2-4)] assms(1)
  by (auto simp: whisper_text_def bytes_def MSG_BUFFER_SIZE_def MSG_SIZE_def)

section \<open>Properties\<close>

text \<open>C29: 
  The command \<^verbatim>\<open>/w name text\<close> is taken apart into the name and the text, blanks in the text
  included; a whisper with a single blank makes the server read behind its buffer.
\<close>

theorem whisper_round_trip:
  assumes "c_string s" "length s < MSG_BUFFER_SIZE"
  shows "(get_message (packet s) 32 = Some (a, b) \<longleftrightarrow> (\<exists>w. s = w @ 32 # a @ 32 # b \<and> 32 \<notin> set w \<and> 32 \<notin> set a))
    \<and> (get_message (packet s) 32 = None \<longleftrightarrow> count_list s 32 < 2)"
proof -
  have "get_message (packet s) 32 \<noteq> None \<longleftrightarrow> (\<exists>x y. get_message (packet s) 32 = Some (x, y))"
    by (cases "get_message (packet s) 32") auto
  also have "\<dots> \<longleftrightarrow> (\<exists>w x y. s = w @ 32 # x @ 32 # y \<and> 32 \<notin> set w \<and> 32 \<notin> set x)"
    using get_message_cases [OF assms] by blast
  also have "\<dots> \<longleftrightarrow> 2 \<le> count_list s 32" by (rule two_separators)
  finally show ?thesis using get_message_cases [OF assms] by (metis linorder_not_le)
qed

theorem whisper_round_trip_witness:
  "get_message (packet (bytes ''/w Bob see you'')) 32 = Some (bytes ''Bob'', bytes ''see you'')
    \<and> get_message (packet (bytes ''/w Bob'')) 32 = None"
  using whisper_round_trip [of "bytes ''/w Bob see you''" "bytes ''Bob''" "bytes ''see you''"]
    whisper_round_trip [of "bytes ''/w Bob''" "[]" "[]"]
  by (auto simp: bytes_def c_string_def MSG_BUFFER_SIZE_def intro: exI [of _ "[47, 119]"])


text \<open>
  No buffer of the server overflows, whatever bytes a client sends, as long as name and message
  have terminators: the two halves of a whisper fit into \<^verbatim>\<open>data\<close> and both kinds of text into \<^verbatim>\<open>msg\<close>,
  a whisper of the greatest length with one byte to spare.
\<close>

theorem message_fits:
  assumes name: "length name = MSG_BUFFER_SIZE" and buf: "length buf = MSG_BUFFER_SIZE"
  shows "(say_text name buf = Some t \<longrightarrow> length t + 1 \<le> 257)
    \<and> (is_whisper buf \<and> get_message buf 32 = Some (a, b) \<longrightarrow>
         length a < MSG_BUFFER_SIZE \<and> length b < MSG_BUFFER_SIZE
         \<and> (whisper_text name b = Some t \<longrightarrow> length t + 1 \<le> MSG_SIZE - 1))"
  using say_text_bound(1) [OF name buf, of t] whisper_text_bound [OF name buf, of a b t] get_message_bound [OF buf, of a b]
  by auto


theorem message_fits_witness:
  "length (bytes ''Bob (whispers): hi all'') + 1 \<le> MSG_SIZE - 1 \<and> length (bytes ''Bob: hi'') + 1 \<le> 257"
proof -
  have len: "length (packet (bytes ''Bob'')) = MSG_BUFFER_SIZE" "length (packet (bytes ''/w Al hi all'')) = MSG_BUFFER_SIZE"
      "length (packet (bytes ''hi'')) = MSG_BUFFER_SIZE" by (simp_all add: bytes_def MSG_BUFFER_SIZE_def packet_def)
  have short: "c_string (bytes ''Bob'')" "c_string (bytes ''hi'')" "c_string (bytes ''/w Al hi all'')"
      "length (bytes ''Bob'') < MSG_BUFFER_SIZE" "length (bytes ''hi'') < MSG_BUFFER_SIZE"
      "length (bytes ''/w Al hi all'') < MSG_BUFFER_SIZE" by (simp_all add: bytes_def c_string_def MSG_BUFFER_SIZE_def)
  have name: "string_at (packet (bytes ''Bob'')) 0 = Some (bytes ''Bob'')" "string_at (packet (bytes ''hi'')) 0 = Some (bytes ''hi'')"
    using short by (simp_all add: string_at_packet)
  have "is_whisper (packet (bytes ''/w Al hi all''))"
    using short by (simp add: is_whisper_def) (simp add: bytes_def cstr_def)
  moreover have "get_message (packet (bytes ''/w Al hi all'')) 32 = Some (bytes ''Al'', bytes ''hi all'')"
    unfolding get_message_cases [OF short(3,6)] by (rule exI [of _ "bytes ''/w''"]) (simp add: bytes_def)
  moreover have "whisper_text (packet (bytes ''Bob'')) (bytes ''hi all'') = Some (bytes ''Bob (whispers): hi all'')"
    by (simp add: whisper_text_def name) (simp add: bytes_def)
  moreover have "say_text (packet (bytes ''Bob'')) (packet (bytes ''hi'')) = Some (bytes ''Bob: hi'')"
    by (simp add: say_text_def name) (simp add: bytes_def)
  ultimately show ?thesis
    using message_fits [OF len(1,2), of "bytes ''Bob (whispers): hi all''" "bytes ''Al''" "bytes ''hi all''"]
      message_fits [OF len(1,3), of "bytes ''Bob: hi''"] by blast
qed

text \<open>One \<^verbatim>\<open>read\<close> of a client and its \<^verbatim>\<open>printf("%s", in_buffer)\<close>.\<close>

definition client_prints :: "u8 list \<Rightarrow> cstring option" where
  "client_prints bs = string_at (packet bs) 0"

lemma client_prints_full:
  "length bs = MSG_BUFFER_SIZE \<Longrightarrow> bs = t @ 0 # rest \<Longrightarrow> c_string t \<Longrightarrow> client_prints bs = Some t"
  by (simp add: client_prints_def packet_def read_into_def string_at_def)




end
