(* ===== verification/Broadcast.thy ===== *)
theory Broadcast
  imports Pthread Messages
begin

text \<open>
  The servers \<^verbatim>\<open>server.c\<close> of the three tasks under \<^verbatim>\<open>trys/exercise9_hetzenauer\<close>. A listener thread
  accepts up to 32 clients, main starts a thread for each, and a client's \<^verbatim>\<open>/shutdown\<close> cancels the
  listener. The tasks differ in what a thread does with an ordinary message.
\<close>

section \<open>State\<close>

definition CLIENT_NUM :: nat where "CLIENT_NUM = 32"

text \<open>Task 1 prints the messages, task 2 sends them to the others, task 3 has whispers as well.\<close>

datatype task = Shows | Broadcasts | Whispers

text \<open>
  \<open>BTest wh i\<close>: the loop over the clients, for a whisper to the name \<open>wh\<close> or for all. The flag of
  the last points says whether the client leaves with \<^verbatim>\<open>/shutdown\<close>.
\<close>

datatype bclient_pc = BLoad | BStore int | BName | BRead | BHandle "u8 list"
  | BTest "cstring option" nat | BWrite "cstring option" nat
  | BCount bool | BUncount bool int | BClose bool | BClear bool | BStop | BCancel | BReport | BDone bool

datatype blistener_pc = NLock nat | NAccept nat | NPopSignal nat | NPopUnlock nat | NSignal nat
  | NUnlock nat | NSleep nat | NCleanSignal | NCleanUnlock | NDone

datatype bmain_pc = OFor nat | OTest nat | OWait nat | OWake nat | OSd nat | OCreate nat | OUnlock nat
  | OJoinListener | OJoin nat | OExit

text \<open>
  \<open>cfd\<close> is the array main allocates, \<open>names\<close> its array \<^verbatim>\<open>client_names\<close>, \<open>msgs t\<close> the buffer \<^verbatim>\<open>msg\<close> on
  the stack of client thread \<open>t\<close>; \<open>created\<close> counts the client threads. \<open>opened\<close> are the open
  descriptors, \<open>sent\<close> what has been written to the sockets, \<open>out\<close> what has been printed. \<open>misuse\<close>:
  a mutex was unlocked by a thread that did not own it; \<open>ub\<close>: any other undefined behaviour.
\<close>

record server =
  sd :: int
  active_clients :: int
  mutex :: pmutex
  cfd :: "int list"
  names :: "u8 list list"
  msgs :: "nat \<Rightarrow> u8 list"
  bpc :: "nat \<Rightarrow> bclient_pc"
  npc :: blistener_pc
  ncancelled :: bool
  opc :: bmain_pc
  created :: nat
  opened :: "int list"
  sent :: "(int \<times> u8 list) list"
  out :: "cstring list"
  waiting_for :: "int option"
  misuse :: bool
  ub :: bool
  exited :: "int option"

text \<open>
  What the arrays hold before the program writes to them is a parameter: \<^verbatim>\<open>malloc\<close> and the stack
  give memory with any content. The descriptors 0 to 3 are the standard ones and \<^verbatim>\<open>*sfd\<close>.
\<close>

definition server_init :: "int list \<Rightarrow> u8 list list \<Rightarrow> (nat \<Rightarrow> u8 list) \<Rightarrow> server" where
  "server_init cfds ns ms =
     \<lparr>sd = 0, active_clients = 0, mutex = mutex_init, cfd = cfds, names = ns, msgs = ms,
      bpc = (\<lambda>_. BLoad), npc = NLock 0, ncancelled = False, opc = OFor 0, created = 0,
      opened = [0, 1, 2, 3], sent = [], out = [], waiting_for = None, misuse = False, ub = False,
      exited = None\<rparr>"

text \<open>
  The start of \<^verbatim>\<open>main\<close>: the results of \<^verbatim>\<open>socket\<close>, \<^verbatim>\<open>setsockopt\<close>, \<^verbatim>\<open>bind\<close>, \<^verbatim>\<open>listen\<close> and
  \<^verbatim>\<open>pthread_create\<close>. The result is an exit code or the port and the first state.
\<close>

definition server_setup :: "cstring list \<Rightarrow> int \<Rightarrow> int \<Rightarrow> int \<Rightarrow> int \<Rightarrow> int \<Rightarrow> server \<Rightarrow> int + 16 word \<times> server" where
  "server_setup argv sock opt bound listening thread s =
     (if length argv < 2 then Inl 1
      else if sock < 0 then Inl 1
      else if opt < 0 then Inl 1
      else if bound < 0 then Inl 1
      else if listening < 0 then Inl 1
      else if thread \<noteq> 0 then Inl 0
      else Inr (of_int (strtol (argv ! 1)), s))"

text \<open>What the kernel answers. \<open>Spurious\<close> wakes main without a signal, \<open>Sigpipe\<close> is a broken connection.\<close>

datatype answer = Done | Fd int | Data "u8 list" | Error | Sigpipe | Spurious

section \<open>Mutex and condition variable\<close>

text \<open>
  POSIX leaves it undefined to unlock a mutex one does not own. The model goes on as the usual
  implementation does, which sets the mutex free whoever owns it, and records it in \<open>misuse\<close>.
\<close>

definition unlock :: "nat \<Rightarrow> server \<Rightarrow> server" where
  "unlock who s = s\<lparr>mutex := None, misuse := (misuse s \<or> mutex s \<noteq> Some who)\<rparr>"

text \<open>Main is the only thread that waits for the condition.\<close>

definition cond_signal :: "server \<Rightarrow> server" where
  "cond_signal s = s\<lparr>opc := (case opc s of OWait i \<Rightarrow> OWake i | p \<Rightarrow> p)\<rparr>"

section \<open>The listener\<close>

text \<open>
  Thread 1. The handler popped with \<^verbatim>\<open>pthread_cleanup_pop(1)\<close> signals and unlocks, and the code after
  it does both again. \<^verbatim>\<open>accept\<close> and \<^verbatim>\<open>sleep\<close> are cancellation points, the second without a handler.
\<close>

definition listener_step :: "server \<Rightarrow> answer \<Rightarrow> server option" where
  "listener_step s k =
     (case npc s of
        NLock i \<Rightarrow>
          if i < CLIENT_NUM then map_option (\<lambda>m. s\<lparr>mutex := m, npc := NAccept i\<rparr>) (mutex_lock (mutex s) 1)
          else Some (s\<lparr>npc := NDone\<rparr>)
      | NAccept i \<Rightarrow>
          if ncancelled s then Some (s\<lparr>npc := NCleanSignal\<rparr>)
          else (case k of
                  Fd fd \<Rightarrow>
                    if 0 \<le> fd \<and> fd \<notin> set (opened s)
                    then Some (s\<lparr>cfd := (cfd s)[i := fd], opened := fd # opened s, npc := NPopSignal i\<rparr>)
                    else None
                | Error \<Rightarrow> Some (s\<lparr>exited := Some 1\<rparr>)
                | _ \<Rightarrow> None)
      | NPopSignal i \<Rightarrow> Some ((cond_signal s)\<lparr>npc := NPopUnlock i\<rparr>)
      | NPopUnlock i \<Rightarrow> Some ((unlock 1 s)\<lparr>npc := NSignal i\<rparr>)
      | NSignal i \<Rightarrow> Some ((cond_signal s)\<lparr>npc := NUnlock i\<rparr>)
      | NUnlock i \<Rightarrow> Some ((unlock 1 s)\<lparr>npc := NSleep i\<rparr>)
      | NSleep i \<Rightarrow> Some (s\<lparr>npc := if ncancelled s then NDone else NLock (i + 1)\<rparr>)
      | NCleanSignal \<Rightarrow> Some ((cond_signal s)\<lparr>npc := NCleanUnlock\<rparr>)
      | NCleanUnlock \<Rightarrow> Some ((unlock 1 s)\<lparr>npc := NDone\<rparr>)
      | NDone \<Rightarrow> None)"

section \<open>The client threads\<close>

definition goto :: "nat \<Rightarrow> bclient_pc \<Rightarrow> server \<Rightarrow> server" where
  "goto t p s = s\<lparr>bpc := (bpc s)(t := p)\<rparr>"

text \<open>Printing or formatting a string without a terminator is undefined.\<close>

definition undefined_unless :: "'b option \<Rightarrow> server \<Rightarrow> ('b \<Rightarrow> server) \<Rightarrow> server" where
  "undefined_unless x s f = (case x of None \<Rightarrow> s\<lparr>ub := True\<rparr> | Some v \<Rightarrow> f v)"

text \<open>\<^verbatim>\<open>sprintf(msg, ...)\<close> and the start of the loop over the clients.\<close>

definition compose :: "nat \<Rightarrow> cstring option \<Rightarrow> cstring option \<Rightarrow> server \<Rightarrow> server" where
  "compose t wh txt s =
     undefined_unless (Option.bind txt (sprintf_msg (msgs s t))) s
       (\<lambda>m. goto t (BTest wh 0) (s\<lparr>msgs := (msgs s)(t := m)\<rparr>))"

text \<open>An ordinary message, in the three tasks.\<close>

definition task1_message :: "server \<Rightarrow> nat \<Rightarrow> u8 list \<Rightarrow> server" where
  "task1_message s t buf =
     undefined_unless (string_at (names s ! t) 0) s
       (\<lambda>n. undefined_unless (string_at buf 0) s
         (\<lambda>b. goto t BRead (s\<lparr>out := out s @ [n @ bytes '' '' @ b @ bytes '' '' @ [10]]\<rparr>)))"

definition task2_message :: "server \<Rightarrow> nat \<Rightarrow> u8 list \<Rightarrow> server" where
  "task2_message s t buf = compose t None (say_text (names s ! t) buf) s"

definition task3_message :: "server \<Rightarrow> nat \<Rightarrow> u8 list \<Rightarrow> server" where
  "task3_message s t buf =
     (if is_whisper buf
      then undefined_unless (get_message buf 32) s
             (\<lambda>(to, b). compose t (Some to) (whisper_text (names s ! t) b) s)
      else compose t None (say_text (names s ! t) buf) s)"

fun message :: "task \<Rightarrow> server \<Rightarrow> nat \<Rightarrow> u8 list \<Rightarrow> server" where
  "message Shows = task1_message"
| "message Broadcasts = task2_message"
| "message Whispers = task3_message"

text \<open>
  A message in \<^verbatim>\<open>in_buffer\<close>. A client that leaves prints its name first; in task 1 after the counter,
  which makes no difference.
\<close>

definition handle :: "task \<Rightarrow> server \<Rightarrow> nat \<Rightarrow> u8 list \<Rightarrow> server" where
  "handle v s t buf =
     (if is_quit buf \<or> is_shutdown buf
      then undefined_unless (string_at (names s ! t) 0) s
             (\<lambda>n. goto t (BCount (is_shutdown buf)) (s\<lparr>out := out s @ [n @ bytes '' disconnected'' @ [10]]\<rparr>))
      else message v s t buf)"

text \<open>Whom slot \<open>i\<close>'s test lets through: the name of a whisper, or any other connected client.\<close>

definition addressed :: "server \<Rightarrow> nat \<Rightarrow> cstring option \<Rightarrow> nat \<Rightarrow> bool" where
  "addressed s t wh i \<longleftrightarrow>
     (case wh of
        Some to \<Rightarrow> cstr (names s ! i) = to
      | None \<Rightarrow> cfd s ! i \<noteq> 0 \<and> cfd s ! i \<noteq> cfd s ! t)"

text \<open>
  Thread \<open>t\<close>. The counter is changed without the mutex, in a read and a write. \<^verbatim>\<open>write\<close>'s result is not
  looked at; a broken connection ends the process with SIGPIPE.
\<close>

definition client_step :: "task \<Rightarrow> server \<Rightarrow> nat \<Rightarrow> answer \<Rightarrow> server option" where
  "client_step v s t k =
     (case bpc s t of
        BLoad \<Rightarrow> Some (goto t (BStore (active_clients s)) s)
      | BStore n \<Rightarrow> Some (goto t BName (s\<lparr>active_clients := n + 1\<rparr>))
      | BName \<Rightarrow>
          (case k of
             Data bs \<Rightarrow>
               if MSG_BUFFER_SIZE < length bs then None
               else (let s = s\<lparr>names := (names s)[t := read_into (names s ! t) bs]\<rparr>
                     in Some (if v = Shows
                              then undefined_unless (string_at (names s ! t) 0) s
                                     (\<lambda>n. goto t BRead (s\<lparr>out := out s @ [n @ bytes '' conntected '' @ [10]]\<rparr>))
                              else goto t BRead s))
           | Error \<Rightarrow> Some (s\<lparr>exited := Some 1\<rparr>)
           | _ \<Rightarrow> None)
      | BRead \<Rightarrow>
          (case k of
             Data bs \<Rightarrow> if MSG_BUFFER_SIZE < length bs then None else Some (goto t (BHandle (packet bs)) s)
           | Error \<Rightarrow> Some (s\<lparr>exited := Some 1\<rparr>)
           | _ \<Rightarrow> None)
      | BHandle buf \<Rightarrow> Some (handle v s t buf)
      | BTest wh i \<Rightarrow>
          Some (if CLIENT_NUM \<le> i then goto t BRead s
                else if addressed s t wh i then goto t (BWrite wh i) s
                else goto t (BTest wh (i + 1)) s)
      | BWrite wh i \<Rightarrow>
          (case k of
             Sigpipe \<Rightarrow> Some (s\<lparr>exited := Some 141\<rparr>)
           | Error \<Rightarrow> Some (goto t (BTest wh (i + 1)) s)
           | Done \<Rightarrow> Some (goto t (BTest wh (i + 1))
                            (s\<lparr>sent := sent s @ [(cfd s ! i, take (2 * MSG_BUFFER_SIZE) (msgs s t))]\<rparr>))
           | _ \<Rightarrow> None)
      | BCount q \<Rightarrow> Some (goto t (BUncount q (active_clients s)) s)
      | BUncount q n \<Rightarrow> Some (goto t (BClose q) (s\<lparr>active_clients := n - 1\<rparr>))
      | BClose q \<Rightarrow> Some (goto t (BClear q) (s\<lparr>opened := filter (\<lambda>fd. fd \<noteq> cfd s ! t) (opened s)\<rparr>))
      | BClear q \<Rightarrow> Some (goto t (if q then BStop else BDone False) (s\<lparr>cfd := (cfd s)[t := 0]\<rparr>))
      | BStop \<Rightarrow> Some (goto t BCancel (s\<lparr>sd := 1\<rparr>))
      | BCancel \<Rightarrow> Some (goto t BReport (s\<lparr>ncancelled := True\<rparr>))
      | BReport \<Rightarrow> Some (goto t (BDone True) (s\<lparr>waiting_for := Some (active_clients s)\<rparr>))
      | BDone q \<Rightarrow> None)"

section \<open>Main\<close>

text \<open>
  Thread 0, from its loop on. \<^verbatim>\<open>break\<close> leaves the loop with the mutex held. Joining a thread that has
  not been created is undefined.
\<close>

definition main_step :: "server \<Rightarrow> answer \<Rightarrow> server option" where
  "main_step s k =
     (case opc s of
        OFor i \<Rightarrow>
          if i < CLIENT_NUM then map_option (\<lambda>m. s\<lparr>mutex := m, opc := OTest i\<rparr>) (mutex_lock (mutex s) 0)
          else Some (s\<lparr>opc := OJoinListener\<rparr>)
      | OTest i \<Rightarrow>
          Some (if cfd s ! i = 0 \<and> sd s = 0 then (unlock 0 s)\<lparr>opc := OWait i\<rparr> else s\<lparr>opc := OSd i\<rparr>)
      | OWait i \<Rightarrow> if k = Spurious then Some (s\<lparr>opc := OWake i\<rparr>) else None
      | OWake i \<Rightarrow> map_option (\<lambda>m. s\<lparr>mutex := m, opc := OTest i\<rparr>) (mutex_lock (mutex s) 0)
      | OSd i \<Rightarrow> Some (if sd s = 1 then s\<lparr>sd := int i, opc := OJoinListener\<rparr> else s\<lparr>opc := OCreate i\<rparr>)
      | OCreate i \<Rightarrow>
          (case k of
             Done \<Rightarrow> Some (goto i BLoad (s\<lparr>created := i + 1, opc := OUnlock i\<rparr>))
           | Error \<Rightarrow> Some (s\<lparr>exited := Some 0\<rparr>)
           | _ \<Rightarrow> None)
      | OUnlock i \<Rightarrow> Some ((unlock 0 s)\<lparr>opc := OFor (i + 1)\<rparr>)
      | OJoinListener \<Rightarrow> if npc s = NDone then Some (s\<lparr>opc := OJoin 0\<rparr>) else None
      | OJoin i \<Rightarrow>
          if int i < sd s
          then (if created s \<le> i then Some (s\<lparr>ub := True\<rparr>)
                else if bpc s i \<in> {BDone False, BDone True} then Some (s\<lparr>opc := OJoin (i + 1)\<rparr>) else None)
          else Some (s\<lparr>opc := OExit, exited := Some 0\<rparr>)
      | OExit \<Rightarrow> None)"

datatype bevent = Listener answer | Client nat answer | Main answer

fun server_next :: "task \<Rightarrow> server \<Rightarrow> bevent \<Rightarrow> server option" where
  "server_next v s e =
     (if ub s \<or> exited s \<noteq> None then None
      else case e of
        Listener k \<Rightarrow> listener_step s k
      | Client t k \<Rightarrow> if t < created s then client_step v s t k else None
      | Main k \<Rightarrow> main_step s k)"

declare server_next.simps [simp del]

text \<open>The three programs.\<close>

definition task1_server :: "server \<Rightarrow> bevent \<Rightarrow> server option" where
  "task1_server = server_next Shows"

definition task2_server :: "server \<Rightarrow> bevent \<Rightarrow> server option" where
  "task2_server = server_next Broadcasts"

definition task3_server :: "server \<Rightarrow> bevent \<Rightarrow> server option" where
  "task3_server = server_next Whispers"

section \<open>The invariant of the sockets\<close>

fun closing :: "bclient_pc \<Rightarrow> bool" where
  "closing (BClear q) = True"
| "closing _ = False"

fun cleared :: "bclient_pc \<Rightarrow> bool" where
  "cleared BStop = True"
| "cleared BCancel = True"
| "cleared BReport = True"
| "cleared (BDone q) = True"
| "cleared _ = False"

text \<open>Slot \<open>i\<close> holds a client; between \<^verbatim>\<open>close(*cfd)\<close> and \<^verbatim>\<open>*cfd = 0\<close> it does not count.\<close>

definition connected :: "server \<Rightarrow> nat \<Rightarrow> bool" where
  "connected s i \<longleftrightarrow> i < CLIENT_NUM \<and> cfd s ! i \<noteq> 0 \<and> \<not> (i < created s \<and> closing (bpc s i))"

text \<open>How many slots the listener has filled.\<close>

fun filled :: "blistener_pc \<Rightarrow> nat" where
  "filled (NLock i) = i"
| "filled (NAccept i) = i"
| "filled (NPopSignal i) = Suc i"
| "filled (NPopUnlock i) = Suc i"
| "filled (NSignal i) = Suc i"
| "filled (NUnlock i) = Suc i"
| "filled (NSleep i) = Suc i"
| "filled NCleanSignal = CLIENT_NUM"
| "filled NCleanUnlock = CLIENT_NUM"
| "filled NDone = CLIENT_NUM"

definition slots_inv :: "server \<Rightarrow> bool" where
  "slots_inv s \<longleftrightarrow> length (cfd s) = CLIENT_NUM \<and> {0, 1, 2, 3} \<subseteq> set (opened s)
     \<and> (\<forall>i. connected s i \<longrightarrow> cfd s ! i \<in> set (opened s) \<and> 3 < cfd s ! i)
     \<and> (\<forall>i j. connected s i \<and> connected s j \<and> i \<noteq> j \<longrightarrow> cfd s ! i \<noteq> cfd s ! j)
     \<and> (\<forall>t < created s. cfd s ! t \<noteq> 0 \<longleftrightarrow> \<not> cleared (bpc s t))"

definition filled_inv :: "server \<Rightarrow> bool" where
  "filled_inv s \<longleftrightarrow> created s \<le> filled (npc s) \<and> filled (npc s) \<le> CLIENT_NUM
     \<and> (\<forall>i < CLIENT_NUM. filled (npc s) \<le> i \<longrightarrow> cfd s ! i = 0)
     \<and> (\<forall>i. npc s = NAccept i \<longrightarrow> i < CLIENT_NUM)"

text \<open>Main's loop: the number of threads it has created, and what its tests have established.\<close>

fun loop_index :: "bmain_pc \<Rightarrow> nat option" where
  "loop_index (OFor i) = Some i"
| "loop_index (OTest i) = Some i"
| "loop_index (OWait i) = Some i"
| "loop_index (OWake i) = Some i"
| "loop_index (OSd i) = Some i"
| "loop_index (OCreate i) = Some i"
| "loop_index (OUnlock i) = Some (Suc i)"
| "loop_index _ = None"

fun in_body :: "bmain_pc \<Rightarrow> bool" where
  "in_body (OTest i) = True"
| "in_body (OWait i) = True"
| "in_body (OWake i) = True"
| "in_body (OSd i) = True"
| "in_body (OCreate i) = True"
| "in_body _ = False"

definition loop_inv :: "server \<Rightarrow> bool" where
  "loop_inv s \<longleftrightarrow>
     (\<forall>i. loop_index (opc s) = Some i \<longrightarrow> created s = i \<and> (sd s = 0 \<or> sd s = 1))
     \<and> (in_body (opc s) \<longrightarrow> created s < CLIENT_NUM)
     \<and> (\<forall>i. opc s = OSd i \<longrightarrow> sd s = 1 \<or> cfd s ! i \<noteq> 0)
     \<and> (\<forall>i. opc s = OCreate i \<longrightarrow> cfd s ! i \<noteq> 0)"

definition server_inv :: "server \<Rightarrow> bool" where
  "server_inv s \<longleftrightarrow> slots_inv s \<and> filled_inv s \<and> loop_inv s"

lemma init_inv: "server_inv (server_init (replicate CLIENT_NUM 0) ns ms)"
  by (simp add: server_inv_def slots_inv_def filled_inv_def loop_inv_def server_init_def connected_def CLIENT_NUM_def)

lemma cond_signal_keeps [simp]:
  "cfd (cond_signal s) = cfd s" "opened (cond_signal s) = opened s" "created (cond_signal s) = created s"
  "bpc (cond_signal s) = bpc s" "sd (cond_signal s) = sd s" "npc (cond_signal s) = npc s"
  "loop_index (opc (cond_signal s)) = loop_index (opc s)" "in_body (opc (cond_signal s)) = in_body (opc s)"
  "opc (cond_signal s) = OSd i \<longleftrightarrow> opc s = OSd i" "opc (cond_signal s) = OCreate i \<longleftrightarrow> opc s = OCreate i"
  "mutex (cond_signal s) = mutex s" "names (cond_signal s) = names s"
  by (auto simp: cond_signal_def split: bmain_pc.splits)

lemma unlock_keeps [simp]:
  "cfd (unlock w s) = cfd s" "opened (unlock w s) = opened s" "created (unlock w s) = created s"
  "bpc (unlock w s) = bpc s" "sd (unlock w s) = sd s" "npc (unlock w s) = npc s" "opc (unlock w s) = opc s"
  "names (unlock w s) = names s" "mutex (unlock w s) = None"
  by (simp_all add: unlock_def)

text \<open>All steps of the listener but the one that takes a client.\<close>

lemma listener_frame:
  assumes "listener_step s k = Some u" "\<forall>i. npc s \<noteq> NAccept i"
  shows "cfd u = cfd s" "opened u = opened s" "created u = created s" "bpc u = bpc s" "sd u = sd s"
    "loop_index (opc u) = loop_index (opc s)" "in_body (opc u) = in_body (opc s)"
    "opc u = OSd i \<longleftrightarrow> opc s = OSd i" "opc u = OCreate i \<longleftrightarrow> opc s = OCreate i"
    "filled (npc s) \<le> CLIENT_NUM \<Longrightarrow> filled (npc u) = filled (npc s) \<or> filled (npc s) \<le> filled (npc u) \<and> filled (npc u) = CLIENT_NUM"
    "npc u = NAccept i \<Longrightarrow> i < CLIENT_NUM"
  using assms by (cases "npc s"; auto simp: listener_step_def split: if_splits)+

lemma connected_cong:
  assumes "cfd u = cfd s" "created u = created s" "\<And>t. closing (bpc u t) = closing (bpc s t)"
  shows "connected u = connected s"
  using assms by (auto simp: connected_def fun_eq_iff)

lemma slots_cong:
  assumes "cfd u = cfd s" "opened u = opened s" "created u = created s"
    "\<And>t. closing (bpc u t) = closing (bpc s t)" "\<And>t. cleared (bpc u t) = cleared (bpc s t)"
  shows "slots_inv u = slots_inv s"
  using assms connected_cong [OF assms(1,3,4)] by (simp add: slots_inv_def)

lemma accept_inv:
  assumes inv: "server_inv s" and i: "npc s = NAccept i" and fd: "0 \<le> fd" "fd \<notin> set (opened s)"
  shows "server_inv (s\<lparr>cfd := (cfd s)[i := fd], opened := fd # opened s, npc := NPopSignal i\<rparr>)"
proof -
  let ?u = "s\<lparr>cfd := (cfd s)[i := fd], opened := fd # opened s, npc := NPopSignal i\<rparr>"
  have s: "slots_inv s" "filled_inv s" "loop_inv s" using inv by (simp_all add: server_inv_def)
  have len: "length (cfd s) = CLIENT_NUM" "i < CLIENT_NUM" "created s \<le> i" "cfd s ! i = 0" "3 < fd"
  proof -
    show "length (cfd s) = CLIENT_NUM" using s(1) by (simp add: slots_inv_def)
    show "i < CLIENT_NUM" "created s \<le> i" using s(2) i by (simp_all add: filled_inv_def)
    then show "cfd s ! i = 0" using s(2) i by (simp add: filled_inv_def)
    have "fd \<noteq> 0" "fd \<noteq> 1" "fd \<noteq> 2" "fd \<noteq> 3" using s(1) fd(2) by (auto simp: slots_inv_def)
    with fd(1) show "3 < fd" by simp
  qed
  have conn: "connected ?u j \<longleftrightarrow> j = i \<or> connected s j" for j
    using len fd by (auto simp: connected_def nth_list_update)
  have "slots_inv ?u"
    unfolding slots_inv_def
  proof (intro conjI allI impI)
    fix j k assume "connected ?u j \<and> connected ?u k \<and> j \<noteq> k"
    then show "cfd ?u ! j \<noteq> cfd ?u ! k"
      using s(1) len fd(2) by (auto simp: conn slots_inv_def nth_list_update)
  qed (use s(1) len in \<open>auto simp: conn slots_inv_def nth_list_update\<close>)
  moreover have "filled_inv ?u" using s(2) i len by (auto simp: filled_inv_def nth_list_update)
  moreover have "loop_inv ?u" using s(3) len by (auto simp: loop_inv_def nth_list_update)
  ultimately show ?thesis by (simp add: server_inv_def)
qed

lemma listener_inv:
  assumes inv: "server_inv s" and step: "listener_step s k = Some u"
  shows "server_inv u"
proof (cases "\<exists>i. npc s = NAccept i")
  case True
  then obtain i where i: "npc s = NAccept i" ..
  from step i consider (cancel) "u = s\<lparr>npc := NCleanSignal\<rparr>" | (exit) "u = s\<lparr>exited := Some 1\<rparr>"
    | (new) fd where "0 \<le> fd" "fd \<notin> set (opened s)"
        "u = s\<lparr>cfd := (cfd s)[i := fd], opened := fd # opened s, npc := NPopSignal i\<rparr>"
    by (auto simp: listener_step_def split: if_splits answer.splits)
  then show ?thesis
  proof cases
    case new
    then show ?thesis using accept_inv [OF inv i] by simp
  qed (use inv i in \<open>auto simp: server_inv_def slots_inv_def filled_inv_def loop_inv_def connected_def CLIENT_NUM_def\<close>)
next
  case False
  then have "\<forall>i. npc s \<noteq> NAccept i" by blast
  note f = listener_frame [OF step this]
  have "slots_inv u = slots_inv s" using f(1-4) by (intro slots_cong) auto
  moreover have "filled_inv s \<Longrightarrow> filled_inv u" using f(1,3,10,11) by (auto simp: filled_inv_def)
  moreover have "loop_inv u = loop_inv s" unfolding loop_inv_def f(1,3,5-9) ..
  ultimately show ?thesis using inv by (simp add: server_inv_def)
qed

text \<open>What every step of a client thread leaves alone, and what all but two do.\<close>

lemma goto_fields [simp]:
  "cfd (goto t p s) = cfd s" "opened (goto t p s) = opened s" "created (goto t p s) = created s" "sd (goto t p s) = sd s"
  "npc (goto t p s) = npc s" "opc (goto t p s) = opc s" "names (goto t p s) = names s" "mutex (goto t p s) = mutex s"
  "bpc (goto t p s) = (bpc s)(t := p)" "ub (goto t p s) = ub s" "exited (goto t p s) = exited s" "sent (goto t p s) = sent s"
  "msgs (goto t p s) = msgs s" "active_clients (goto t p s) = active_clients s" "ncancelled (goto t p s) = ncancelled s"
  by (simp_all add: goto_def)

lemma undefined_unless_cases:
  obtains "undefined_unless x s f = s\<lparr>ub := True\<rparr>" | y where "x = Some y" "undefined_unless x s f = f y"
  by (cases x) (auto simp: undefined_unless_def)

text \<open>An answer to a message changes neither descriptors nor flags.\<close>

definition only_thread :: "nat \<Rightarrow> server \<Rightarrow> server \<Rightarrow> bool" where
  "only_thread t s u \<longleftrightarrow> cfd u = cfd s \<and> opened u = opened s \<and> created u = created s \<and> sd u = sd s
     \<and> npc u = npc s \<and> opc u = opc s \<and> (\<forall>t'. t' \<noteq> t \<longrightarrow> bpc u t' = bpc s t')
     \<and> \<not> closing (bpc u t) \<and> (cleared (bpc u t) \<longrightarrow> cleared (bpc s t))
     \<and> mutex u = mutex s \<and> ncancelled u = ncancelled s"

lemma only_thread_ub [simp]: "only_thread t s (s\<lparr>ub := True\<rparr>) \<longleftrightarrow> \<not> closing (bpc s t)"
  by (auto simp: only_thread_def)

lemma only_thread_goto [simp]:
  "only_thread t s (goto t p s) \<longleftrightarrow> \<not> closing p \<and> (cleared p \<longrightarrow> cleared (bpc s t))"
  "only_thread t s (goto t p (s\<lparr>out := os\<rparr>)) \<longleftrightarrow> \<not> closing p \<and> (cleared p \<longrightarrow> cleared (bpc s t))"
  "only_thread t s (goto t p (s\<lparr>msgs := ms\<rparr>)) \<longleftrightarrow> \<not> closing p \<and> (cleared p \<longrightarrow> cleared (bpc s t))"
  "only_thread t s (goto t p (s\<lparr>sent := ws\<rparr>)) \<longleftrightarrow> \<not> closing p \<and> (cleared p \<longrightarrow> cleared (bpc s t))"
  by (auto simp: only_thread_def)

lemma only_thread_handle: "\<not> closing (bpc s t) \<Longrightarrow> only_thread t s (handle v s t buf)"
  by (cases v)
     (auto simp: handle_def task1_message_def task2_message_def task3_message_def compose_def undefined_unless_def
       split: option.splits)

lemma client_frame:
  assumes "client_step v s t k = Some u" "\<And>q. bpc s t \<noteq> BClose q" "\<And>q. bpc s t \<noteq> BClear q"
  shows "cfd u = cfd s" "opened u = opened s" "created u = created s" "npc u = npc s" "opc u = opc s"
    "\<And>t'. t' \<noteq> t \<Longrightarrow> bpc u t' = bpc s t'" "\<not> closing (bpc u t)" "cleared (bpc u t) = cleared (bpc s t)"
    "sd u = (if bpc s t = BStop then 1 else sd s)" "mutex u = mutex s"
  using assms only_thread_handle [of s t v]
  by (cases "bpc s t"; auto simp: client_step_def undefined_unless_def Let_def only_thread_def
        split: if_splits option.splits answer.splits)+

lemma close_inv:
  assumes inv: "server_inv s" and t: "t < created s" "bpc s t = BClose q"
  shows "server_inv (goto t (BClear q) (s\<lparr>opened := filter (\<lambda>fd. fd \<noteq> cfd s ! t) (opened s)\<rparr>))"
    (is "server_inv ?u")
proof -
  have s: "slots_inv s" "filled_inv s" "loop_inv s" using inv by (simp_all add: server_inv_def)
  then have "t < CLIENT_NUM" using t(1) by (auto simp: filled_inv_def)
  moreover have "cfd s ! t \<noteq> 0" using s(1) t by (auto simp: slots_inv_def)
  ultimately have ct: "connected s t" using t(2) by (simp add: connected_def)
  have conn: "connected ?u j \<longleftrightarrow> connected s j \<and> j \<noteq> t" for j using t by (auto simp: connected_def)
  have "3 < cfd s ! t" using s(1) ct by (simp add: slots_inv_def)
  then have "slots_inv ?u" using s(1) ct t by (auto simp: slots_inv_def conn)
  moreover have "filled_inv ?u" "loop_inv ?u" using s(2,3) by (simp_all add: filled_inv_def loop_inv_def)
  ultimately show ?thesis by (simp add: server_inv_def)
qed

lemma clear_inv:
  assumes inv: "server_inv s" and t: "t < created s" "bpc s t = BClear q" and p: "cleared p" "\<not> closing p"
  shows "server_inv (goto t p (s\<lparr>cfd := (cfd s)[t := 0]\<rparr>))"
    (is "server_inv ?u")
proof -
  have s: "slots_inv s" "filled_inv s" "loop_inv s" using inv by (simp_all add: server_inv_def)
  then have len: "t < CLIENT_NUM" "length (cfd s) = CLIENT_NUM" using t(1) by (auto simp: filled_inv_def slots_inv_def)
  have conn: "connected ?u j \<longleftrightarrow> connected s j \<and> j \<noteq> t" for j
    using t p(2) len by (auto simp: connected_def nth_list_update)
  have "slots_inv ?u" using s(1) t p len by (auto simp: slots_inv_def conn nth_list_update)
  moreover have "filled_inv ?u" using s(2) len by (auto simp: filled_inv_def nth_list_update)
  moreover have "loop_inv ?u" using s(3) t(1) len by (auto simp: loop_inv_def nth_list_update)
  ultimately show ?thesis by (simp add: server_inv_def)
qed

lemma client_inv:
  assumes inv: "server_inv s" and t: "t < created s" and step: "client_step v s t k = Some u"
  shows "server_inv u"
proof -
  consider (close) q where "bpc s t = BClose q" | (clear) q where "bpc s t = BClear q"
    | (other) "\<And>q. bpc s t \<noteq> BClose q" "\<And>q. bpc s t \<noteq> BClear q" by blast
  then show ?thesis
  proof cases
    case close
    then have "u = goto t (BClear q) (s\<lparr>opened := filter (\<lambda>fd. fd \<noteq> cfd s ! t) (opened s)\<rparr>)"
      using step by (simp add: client_step_def)
    then show ?thesis using close_inv [OF inv t close] by simp
  next
    case clear
    then have "u = goto t (if q then BStop else BDone False) (s\<lparr>cfd := (cfd s)[t := 0]\<rparr>)"
      using step by (simp add: client_step_def)
    then show ?thesis using clear_inv [OF inv t clear, of "if q then BStop else BDone False"] by simp
  next
    case other
    note f = client_frame [OF step other]
    have pcs: "closing (bpc u t') = closing (bpc s t')" "cleared (bpc u t') = cleared (bpc s t')" for t'
    proof -
      have "\<not> closing (bpc s t)" using other(2) by (cases "bpc s t") auto
      with f(6-8) show "closing (bpc u t') = closing (bpc s t')" "cleared (bpc u t') = cleared (bpc s t')"
        by (cases "t' = t"; simp)+
    qed
    have "slots_inv u = slots_inv s" using f(1-3) pcs by (intro slots_cong) auto
    moreover have "filled_inv u = filled_inv s" by (simp add: filled_inv_def f)
    moreover have "loop_inv s \<Longrightarrow> loop_inv u" using f(1,3,5,9) by (auto simp: loop_inv_def)
    ultimately show ?thesis using inv by (simp add: server_inv_def)
  qed
qed

lemma main_frame:
  assumes "main_step s k = Some u" "\<And>i. opc s \<noteq> OCreate i"
  shows "cfd u = cfd s" "opened u = opened s" "created u = created s" "bpc u = bpc s" "npc u = npc s"
  using assms by (cases "opc s"; auto simp: main_step_def split: if_splits)+

lemma main_inv:
  assumes inv: "server_inv s" and step: "main_step s k = Some u"
  shows "server_inv u"
proof -
  have s: "slots_inv s" "filled_inv s" "loop_inv s" using inv by (simp_all add: server_inv_def)
  show ?thesis
  proof (cases "\<exists>i. opc s = OCreate i")
    case True
    then obtain i where i: "opc s = OCreate i" ..
    from step i consider (fail) "u = s\<lparr>exited := Some 0\<rparr>"
      | (new) "u = goto i BLoad (s\<lparr>created := i + 1, opc := OUnlock i\<rparr>)"
      by (auto simp: main_step_def split: answer.splits)
    then show ?thesis
    proof cases
      case fail
      then show ?thesis using inv
        by (simp add: server_inv_def slots_inv_def filled_inv_def loop_inv_def connected_def)
    next
      case new
      have c: "created s = i" "i < CLIENT_NUM" "cfd s ! i \<noteq> 0" using s(3) i by (simp_all add: loop_inv_def)
      then have "i < filled (npc s)" using s(2) by (auto simp: filled_inv_def not_less [symmetric])
      moreover have "connected u j = connected s j" for j
        using c by (auto simp: new connected_def less_Suc_eq)
      ultimately show ?thesis using s c i
        by (auto simp: server_inv_def slots_inv_def filled_inv_def loop_inv_def new less_Suc_eq)
    qed
  next
    case False
    then have "\<And>i. opc s \<noteq> OCreate i" by blast
    note f = main_frame [OF step this]
    have "slots_inv u = slots_inv s" using f(1-4) by (intro slots_cong) auto
    moreover have "filled_inv u = filled_inv s" by (simp add: filled_inv_def f)
    moreover have "loop_inv u"
      using s(3) step False by (cases "opc s"; auto simp: main_step_def loop_inv_def split: if_splits)
    ultimately show ?thesis using s by (simp add: server_inv_def)
  qed
qed

lemma server_inv_step:
  "server_inv s \<Longrightarrow> server_next v s e = Some u \<Longrightarrow> server_inv u"
  by (cases e) (auto simp: server_next.simps split: if_splits intro: listener_inv client_inv main_inv)

section \<open>The sizes of the arrays\<close>

definition well_sized :: "server \<Rightarrow> bool" where
  "well_sized s \<longleftrightarrow> (\<forall>t. length (msgs s t) = MSG_SIZE) \<and> length (names s) = CLIENT_NUM
     \<and> (\<forall>n \<in> set (names s). length n = MSG_BUFFER_SIZE)
     \<and> (\<forall>t buf. bpc s t = BHandle buf \<longrightarrow> length buf = MSG_BUFFER_SIZE)
     \<and> (\<forall>t wh i. bpc s t = BWrite wh i \<longrightarrow> i < CLIENT_NUM)"

lemma well_sized_goto:
  "well_sized s \<Longrightarrow> (\<And>buf. p = BHandle buf \<Longrightarrow> length buf = MSG_BUFFER_SIZE)
    \<Longrightarrow> (\<And>wh i. p = BWrite wh i \<Longrightarrow> i < CLIENT_NUM) \<Longrightarrow> well_sized (goto t p s)"
  by (simp add: well_sized_def goto_def)

lemma well_sized_thread:
  assumes "well_sized s" "msgs u = msgs s" "names u = names s" "\<And>t'. t' \<noteq> t \<Longrightarrow> bpc u t' = bpc s t'"
    "\<And>buf. bpc u t = BHandle buf \<Longrightarrow> length buf = MSG_BUFFER_SIZE" "\<And>wh i. bpc u t = BWrite wh i \<Longrightarrow> i < CLIENT_NUM"
  shows "well_sized u"
proof -
  have "length buf = MSG_BUFFER_SIZE" if "bpc u t' = BHandle buf" for t' buf
    using assms(1,4,5) that by (cases "t' = t") (auto simp: well_sized_def)
  moreover have "i < CLIENT_NUM" if "bpc u t' = BWrite wh i" for t' wh i
    using assms(1,4,6) that by (cases "t' = t") (auto simp: well_sized_def)
  ultimately show ?thesis using assms(1-3) by (simp add: well_sized_def)
qed

lemma well_sized_exit [simp]: "well_sized (s\<lparr>exited := e\<rparr>) = well_sized s"
  by (simp add: well_sized_def)

lemma well_sized_unless:
  "well_sized s \<Longrightarrow> (\<And>y. x = Some y \<Longrightarrow> well_sized (f y)) \<Longrightarrow> well_sized (undefined_unless x s f)"
  by (cases x) (auto simp: undefined_unless_def well_sized_def)

lemma well_sized_compose:
  assumes "well_sized s"
  shows "well_sized (compose t wh txt s)"
  unfolding compose_def
proof (rule well_sized_unless [OF assms])
  fix m assume "Option.bind txt (sprintf_msg (msgs s t)) = Some m"
  then have "length m = length (msgs s t)" by (auto simp: sprintf_msg_def split: bind_splits if_splits)
  with assms have "well_sized (s\<lparr>msgs := (msgs s)(t := m)\<rparr>)" by (simp add: well_sized_def)
  then show "well_sized (goto t (BTest wh 0) (s\<lparr>msgs := (msgs s)(t := m)\<rparr>))" by (rule well_sized_goto) simp_all
qed

lemma well_sized_out [simp]: "well_sized (s\<lparr>out := os\<rparr>) = well_sized s"
  by (simp add: well_sized_def)

lemma well_sized_handle: "well_sized s \<Longrightarrow> well_sized (handle v s t buf)"
  by (cases v)
     (auto simp: handle_def task1_message_def task2_message_def task3_message_def
       intro!: well_sized_unless well_sized_compose well_sized_goto)

lemma well_sized_client:
  assumes ws: "well_sized s" and t: "t < CLIENT_NUM" and step: "client_step v s t k = Some u"
  shows "well_sized u"
proof (cases "\<exists>buf. bpc s t = BHandle buf")
  case True
  then show ?thesis using step well_sized_handle [OF ws, of v t] by (auto simp: client_step_def)
next
  case False
  have read: "well_sized (s\<lparr>names := (names s)[t := read_into (names s ! t) bs]\<rparr>)" if "length bs \<le> MSG_BUFFER_SIZE" for bs
  proof -
    have "length (read_into (names s ! t) bs) = MSG_BUFFER_SIZE" using ws t that by (simp add: well_sized_def)
    with ws show ?thesis by (auto simp: well_sized_def dest!: set_update_subset_insert [THEN subsetD])
  qed
  show ?thesis
  proof (cases "bpc s t = BName")
    case True
    then show ?thesis using step ws read
      by (auto simp: client_step_def Let_def not_less split: answer.splits if_splits
          intro!: well_sized_unless well_sized_goto)
  next
    case no_name: False
    then have "msgs u = msgs s" "names u = names s" "\<And>t'. t' \<noteq> t \<Longrightarrow> bpc u t' = bpc s t'"
      "\<And>buf. bpc u t = BHandle buf \<Longrightarrow> length buf = MSG_BUFFER_SIZE"
      using step False by (cases "bpc s t"; auto simp: client_step_def split: answer.splits if_splits)+
    moreover have "i < CLIENT_NUM" if "bpc u t = BWrite wh i" for wh i
    proof (rule ccontr)
      assume i: "\<not> i < CLIENT_NUM"
      then have "bpc s t \<noteq> BWrite wh i" using ws by (auto simp: well_sized_def)
      with i step that no_name False show False
        by (cases "bpc s t") (auto simp: client_step_def split: answer.splits if_splits)
    qed
    ultimately show ?thesis using well_sized_thread [OF ws] by metis
  qed
qed

lemma well_sized_step:
  assumes "server_inv s" "well_sized s" "server_next v s e = Some u"
  shows "well_sized u"
proof (cases e)
  case (Listener k)
  then have "msgs u = msgs s" "names u = names s" "bpc u = bpc s"
    using assms(3) by (cases "npc s"; auto simp: server_next.simps listener_step_def cond_signal_def unlock_def
        split: if_splits answer.splits)+
  with assms(2) show ?thesis by (simp add: well_sized_def)
next
  case (Client t k)
  then have step: "t < created s" "client_step v s t k = Some u"
    using assms(3) by (auto simp: server_next.simps split: if_splits)
  have "t < CLIENT_NUM" using assms(1) step(1) by (simp add: server_inv_def filled_inv_def)
  from well_sized_client [OF assms(2) this step(2)] show ?thesis .
next
  case (Main k)
  then have step: "main_step s k = Some u" using assms(3) by (auto simp: server_next.simps split: if_splits)
  have "msgs u = msgs s" "names u = names s"
    using step by (cases "opc s"; auto simp: main_step_def unlock_def goto_def split: if_splits answer.splits)+
  moreover have "bpc s t = BHandle buf" if "bpc u t = BHandle buf" for t buf
    using step that by (cases "opc s"; auto simp: main_step_def split: if_splits answer.splits)
  moreover have "bpc s t = BWrite wh i" if "bpc u t = BWrite wh i" for t wh i
    using step that by (cases "opc s"; auto simp: main_step_def split: if_splits answer.splits)
  ultimately show ?thesis using assms(2) unfolding well_sized_def by metis
qed

text \<open>The first states: main's array is zero, what the other arrays hold does not matter.\<close>

definition server_start :: "server \<Rightarrow> bool" where
  "server_start s \<longleftrightarrow> well_sized s \<and> (\<exists>ns ms. s = server_init (replicate CLIENT_NUM 0) ns ms)"

interpretation broadcast: machine_inv "server_next v" server_start "\<lambda>s. server_inv s \<and> well_sized s"
  by unfold_locales (auto simp: server_start_def intro: init_inv server_inv_step well_sized_step)

section \<open>Delivery\<close>

definition running :: "nat \<Rightarrow> server \<Rightarrow> bool" where
  "running t s \<longleftrightarrow> \<not> ub s \<and> exited s = None \<and> t < created s"

lemma client_runs: "running t s \<Longrightarrow> server_next v s (Client t k) = client_step v s t k"
  by (simp add: running_def server_next.simps)

lemma addressed_cong: "cfd u = cfd s \<Longrightarrow> names u = names s \<Longrightarrow> addressed u = addressed s"
  by (auto simp: addressed_def fun_eq_iff split: option.splits)

text \<open>The loop over the clients, when the thread runs on its own and no connection is broken.\<close>

lemma send_loop:
  assumes "running t s" "bpc s t = BTest wh i" "i \<le> CLIENT_NUM"
  shows "\<exists>n. run (server_next v) s (replicate n (Client t Done)) = Some (goto t BRead
    (s\<lparr>sent := sent s @ map (\<lambda>j. (cfd s ! j, take (2 * MSG_BUFFER_SIZE) (msgs s t)))
      (filter (addressed s t wh) [i..<CLIENT_NUM])\<rparr>))"
  using assms
proof (induction "CLIENT_NUM - i" arbitrary: s i)
  case 0
  then have "run (server_next v) s (replicate 1 (Client t Done)) = Some (goto t BRead s)"
    by (simp add: client_runs client_step_def)
  with 0 show ?case by (intro exI [of _ 1]) simp
next
  case (Suc d)
  then have i: "i < CLIENT_NUM" "[i..<CLIENT_NUM] = i # [i + 1..<CLIENT_NUM]" by (simp_all add: upt_conv_Cons)
  have d: "d = CLIENT_NUM - (i + 1)" and i': "i + 1 \<le> CLIENT_NUM" using Suc.hyps(2) i by simp_all
  let ?m = "take (2 * MSG_BUFFER_SIZE) (msgs s t)"
  show ?case
  proof (cases "addressed s t wh i")
    case True
    let ?s1 = "goto t (BWrite wh i) s"
    let ?s2 = "goto t (BTest wh (i + 1)) (s\<lparr>sent := sent s @ [(cfd s ! i, ?m)]\<rparr>)"
    have "server_next v s (Client t Done) = Some ?s1"
      using Suc i True by (simp add: client_runs client_step_def)
    moreover have "server_next v ?s1 (Client t Done) = Some ?s2"
      using Suc by (simp add: server_next.simps running_def client_step_def) (simp add: goto_def)
    moreover have "addressed ?s2 = addressed s" by (rule addressed_cong) simp_all
    moreover obtain n where "run (server_next v) ?s2 (replicate n (Client t Done)) = Some (goto t BRead
        (?s2\<lparr>sent := sent ?s2 @ map (\<lambda>j. (cfd ?s2 ! j, take (2 * MSG_BUFFER_SIZE) (msgs ?s2 t)))
          (filter (addressed ?s2 t wh) [i + 1..<CLIENT_NUM])\<rparr>))"
      using Suc.hyps(1) [OF d, of ?s2] Suc.prems(1) i' by (auto simp: running_def simp del: Suc_eq_plus1)
    ultimately show ?thesis using i True
      by (intro exI [of _ "Suc (Suc n)"]) (simp add: goto_def)
  next
    case False
    let ?s1 = "goto t (BTest wh (i + 1)) s"
    have "server_next v s (Client t Done) = Some ?s1"
      using Suc i False by (simp add: client_runs client_step_def)
    moreover have "addressed ?s1 = addressed s" by (rule addressed_cong) simp_all
    moreover obtain n where "run (server_next v) ?s1 (replicate n (Client t Done)) = Some (goto t BRead
        (?s1\<lparr>sent := sent ?s1 @ map (\<lambda>j. (cfd ?s1 ! j, take (2 * MSG_BUFFER_SIZE) (msgs ?s1 t)))
          (filter (addressed ?s1 t wh) [i + 1..<CLIENT_NUM])\<rparr>))"
      using Suc.hyps(1) [OF d, of ?s1] Suc.prems(1) i' by (auto simp: running_def simp del: Suc_eq_plus1)
    ultimately show ?thesis using i False
      by (intro exI [of _ "Suc n"]) (simp add: goto_def)
  qed
qed

text \<open>The message that is sent is the text, its terminator and what the buffer held behind it.\<close>

lemma compose_delivers:
  assumes run: "running t s" and x: "length x < length (msgs s t)"
  shows "\<exists>n. run (server_next v) (compose t wh (Some x) s) (replicate n (Client t Done)) = Some (goto t BRead
    (s\<lparr>msgs := (msgs s)(t := read_into (msgs s t) (x @ [0])),
       sent := sent s @ map (\<lambda>j. (cfd s ! j, take (2 * MSG_BUFFER_SIZE) (read_into (msgs s t) (x @ [0]))))
      (filter (addressed s t wh) [0..<CLIENT_NUM])\<rparr>))"
proof -
  let ?m = "read_into (msgs s t) (x @ [0])"
  let ?s = "goto t (BTest wh 0) (s\<lparr>msgs := (msgs s)(t := ?m)\<rparr>)"
  have c: "compose t wh (Some x) s = ?s" using x by (simp add: compose_def sprintf_msg_def undefined_unless_def)
  have "running t ?s" "bpc ?s t = BTest wh 0" using run by (simp_all add: running_def)
  from send_loop [OF this, of v] obtain n where
    "run (server_next v) ?s (replicate n (Client t Done)) = Some (goto t BRead
      (?s\<lparr>sent := sent ?s @ map (\<lambda>j. (cfd ?s ! j, take (2 * MSG_BUFFER_SIZE) (msgs ?s t)))
        (filter (addressed ?s t wh) [0..<CLIENT_NUM])\<rparr>))" by auto
  moreover have "addressed ?s = addressed s" by (rule addressed_cong) simp_all
  ultimately show ?thesis unfolding c by (intro exI [of _ n]) (simp add: goto_def)
qed

definition delivered :: "server \<Rightarrow> nat \<Rightarrow> cstring option \<Rightarrow> cstring \<Rightarrow> server" where
  "delivered s t wh x =
     (let m = read_into (msgs s t) (x @ [0])
      in goto t BRead (s\<lparr>msgs := (msgs s)(t := m), sent := sent s @ map (\<lambda>j. (cfd s ! j, take (2 * MSG_BUFFER_SIZE) m))
           (filter (addressed s t wh) [0..<CLIENT_NUM])\<rparr>))"

lemma handle_delivers:
  assumes "running t s" "bpc s t = BHandle buf" "handle v s t buf = compose t wh (Some x) s" "length x < length (msgs s t)"
  shows "\<exists>n. run (server_next v) s (replicate n (Client t Done)) = Some (delivered s t wh x)"
proof -
  have "server_next v s (Client t Done) = Some (compose t wh (Some x) s)"
    using assms(1-3) by (simp add: client_runs client_step_def)
  moreover obtain n where
    "run (server_next v) (compose t wh (Some x) s) (replicate n (Client t Done)) = Some (delivered s t wh x)"
    using compose_delivers [OF assms(1,4), of v wh] by (auto simp: delivered_def Let_def)
  ultimately show ?thesis by (intro exI [of _ "Suc n"]) simp
qed

lemma reach_sizes:
  assumes "reach (server_next v) s0 s" "server_start s0" "running t s" "bpc s t = BHandle buf"
  shows "t < CLIENT_NUM" "length (names s ! t) = MSG_BUFFER_SIZE" "length buf = MSG_BUFFER_SIZE" "length (msgs s t) = MSG_SIZE"
proof -
  have inv: "filled_inv s" "well_sized s" using broadcast.reach_inv [OF assms(1,2)] by (simp_all add: server_inv_def)
  show t: "t < CLIENT_NUM" using assms(3) inv(1) by (auto simp: running_def filled_inv_def)
  then show "length (names s ! t) = MSG_BUFFER_SIZE" "length buf = MSG_BUFFER_SIZE" "length (msgs s t) = MSG_SIZE"
    using inv(2) assms(4) by (auto simp: well_sized_def)
qed

section \<open>A run\<close>

text \<open>
  Two clients, \<^verbatim>\<open>A\<close> and \<^verbatim>\<open>B\<close>, on the descriptors 4 and 5. Main and the listener first, as far as the
  clients' threads; then the clients' names and the message \<open>bs\<close> of the first one.
\<close>

definition example_start :: server where
  "example_start = server_init (replicate CLIENT_NUM 0) (replicate CLIENT_NUM (replicate MSG_BUFFER_SIZE 0))
     (\<lambda>_. replicate MSG_SIZE 0)"

definition connect_schedule :: "int \<Rightarrow> bevent list" where
  "connect_schedule fd =
     [Listener Done, Listener (Fd fd), Listener Done, Listener Done, Listener Done, Listener Done]"

definition create_schedule :: "bevent list" where
  "create_schedule = replicate 7 (Main Done)"

definition name_schedule :: "nat \<Rightarrow> u8 \<Rightarrow> bevent list" where
  "name_schedule t c = [Client t Done, Client t Done, Client t (Data [c])]"

definition two_clients :: "bevent list" where
  "two_clients = connect_schedule 4 @ create_schedule @ [Listener Done] @ connect_schedule 5 @ create_schedule
     @ name_schedule 0 65 @ name_schedule 1 66"

lemma example_starts: "server_start example_start"
  by (auto simp: server_start_def example_start_def well_sized_def server_init_def)

text \<open>The two clients are connected and main waits for the third.\<close>

definition two_connected :: "server \<Rightarrow> bool" where
  "two_connected s \<longleftrightarrow> ub s = False \<and> exited s = None \<and> created s = 2 \<and> opc s = OWait 2 \<and> npc s = NSleep 1
     \<and> cfd s = (replicate CLIENT_NUM 0)[0 := 4, 1 := 5] \<and> mutex s = None \<and> ncancelled s = False \<and> sd s = 0
     \<and> names s = (replicate CLIENT_NUM (replicate MSG_BUFFER_SIZE 0))[0 := packet [65], 1 := packet [66]]
     \<and> sent s = []"

lemma one_byte: "\<not> MSG_BUFFER_SIZE < Suc 0"
  by (simp add: MSG_BUFFER_SIZE_def)

lemma example_run:
  assumes "length bs \<le> MSG_BUFFER_SIZE"
  shows "\<exists>s. run (server_next Whispers) example_start (two_clients @ [Client 0 (Data bs)]) = Some s
    \<and> two_connected s \<and> bpc s 0 = BHandle (packet bs) \<and> bpc s 1 = BRead"
  using assms one_byte
  by (simp add: two_clients_def connect_schedule_def create_schedule_def name_schedule_def example_start_def
      server_init_def server_next.simps listener_step_def main_step_def client_step_def cond_signal_def unlock_def
      goto_def mutex_init_def eval_nat_numeral CLIENT_NUM_def two_connected_def packet_def read_into_def)

lemma example_message:
  assumes "length bs \<le> MSG_BUFFER_SIZE"
  obtains s where "reach (server_next Whispers) example_start s" "two_connected s" "running 0 s"
    "bpc s 0 = BHandle (packet bs)" "bpc s 1 = BRead" "names s ! 0 = packet [65]" "names s ! 1 = packet [66]"
    "cfd s ! 0 = 4" "cfd s ! 1 = 5"
  using example_run [OF assms] run_reach [of "server_next Whispers"] that
  by (force simp: two_connected_def running_def CLIENT_NUM_def)

section \<open>Safety\<close>





section \<open>Messages to all, whispers\<close>

lemma message_run:
  assumes reach: "reach (server_next v) s0 s" "server_start s0" and run: "running t s"
    and v: "v = Broadcasts \<or> v = Whispers \<and> \<not> is_whisper buf"
    and pc: "bpc s t = BHandle buf" and cmd: "\<not> is_quit buf" "\<not> is_shutdown buf"
    and say: "say_text (names s ! t) buf = Some txt" and unclosed: "\<forall>u < created s. \<not> closing (bpc s u)"
  shows "\<exists>n u m. run (server_next v) s (replicate n (Client t Done)) = Some u \<and> bpc u t = BRead
    \<and> sent u = sent s @ map (\<lambda>j. (cfd s ! j, m)) (filter (\<lambda>j. cfd s ! j \<noteq> 0 \<and> j \<noteq> t) [0..<CLIENT_NUM])
    \<and> distinct (map (\<lambda>j. cfd s ! j) (filter (\<lambda>j. cfd s ! j \<noteq> 0) [0..<CLIENT_NUM]))
    \<and> length m = 2 * MSG_BUFFER_SIZE
    \<and> (length txt < MSG_BUFFER_SIZE \<longrightarrow> client_prints (take MSG_BUFFER_SIZE m) = Some txt)"
proof -
  have inv: "slots_inv s" using broadcast.reach_inv [OF reach] by (simp add: server_inv_def)
  note size = reach_sizes [OF reach run pc]
  let ?m = "read_into (msgs s t) (txt @ [0])"
  have len: "length txt < length (msgs s t)" "c_string txt"
    using say_text_bound [OF size(2,3) say] size(4) by (simp_all add: MSG_SIZE_def)
  have "handle v s t buf = compose t None (Some txt) s"
    using v cmd say by (auto simp: handle_def task2_message_def task3_message_def)
  from handle_delivers [OF run pc this len(1)]
  obtain n where n: "run (server_next v) s (replicate n (Client t Done)) = Some (delivered s t None txt)" by blast
  have conn: "connected s j \<longleftrightarrow> j < CLIENT_NUM \<and> cfd s ! j \<noteq> 0" for j
    using unclosed by (auto simp: connected_def)
  then have "addressed s t None j \<longleftrightarrow> cfd s ! j \<noteq> 0 \<and> j \<noteq> t" if "j < CLIENT_NUM" for j
    using that inv size(1) run pc by (auto simp: addressed_def slots_inv_def running_def)
  then have "filter (addressed s t None) [0..<CLIENT_NUM] = filter (\<lambda>j. cfd s ! j \<noteq> 0 \<and> j \<noteq> t) [0..<CLIENT_NUM]"
    by (intro filter_cong) auto
  moreover have "distinct (map (\<lambda>j. cfd s ! j) (filter (\<lambda>j. cfd s ! j \<noteq> 0) [0..<CLIENT_NUM]))"
    using inv conn by (auto simp: distinct_map slots_inv_def inj_on_def)
  moreover have "client_prints (take MSG_BUFFER_SIZE (take (2 * MSG_BUFFER_SIZE) ?m)) = Some txt"
    if "length txt < MSG_BUFFER_SIZE"
  proof (rule client_prints_full [OF _ _ len(2)])
    show "length (take MSG_BUFFER_SIZE (take (2 * MSG_BUFFER_SIZE) ?m)) = MSG_BUFFER_SIZE"
      using size(4) len(1) by (simp add: MSG_SIZE_def MSG_BUFFER_SIZE_def)
    show "take MSG_BUFFER_SIZE (take (2 * MSG_BUFFER_SIZE) ?m)
        = txt @ 0 # take (MSG_BUFFER_SIZE - Suc (length txt)) (drop (Suc (length txt)) (msgs s t))"
      using that by (simp add: read_into_def take_Cons' min_def)
  qed
  moreover have "length (take (2 * MSG_BUFFER_SIZE) ?m) = 2 * MSG_BUFFER_SIZE"
    using size(4) len(1) by (simp add: MSG_SIZE_def MSG_BUFFER_SIZE_def)
  ultimately show ?thesis using n
    by (intro exI [of _ n] exI [of _ "delivered s t None txt"] exI [of _ "take (2 * MSG_BUFFER_SIZE) ?m"])
      (simp add: delivered_def Let_def)
qed



lemma whisper_no_command: "is_whisper buf \<Longrightarrow> \<not> is_quit buf \<and> \<not> is_shutdown buf"
  by (auto simp: is_whisper_def is_quit_def is_shutdown_def bytes_def cstr_def)

text \<open>C35: 
  A whisper goes to the slots with the name, whether their clients are there or not: for a client
  that has left it is written to descriptor 0.
\<close>

theorem whisper_delivered:
  assumes reach: "reach (server_next Whispers) s0 s" "server_start s0" and run: "running t s"
    and pc: "bpc s t = BHandle buf" and whisper: "is_whisper buf" "get_message buf 32 = Some (to, b)"
    and say: "whisper_text (names s ! t) b = Some txt"
  shows "\<exists>n u m. run (server_next Whispers) s (replicate n (Client t Done)) = Some u \<and> bpc u t = BRead
    \<and> sent u = sent s @ map (\<lambda>j. (cfd s ! j, m)) (filter (\<lambda>j. cstr (names s ! j) = to) [0..<CLIENT_NUM])
    \<and> (\<forall>j < created s. cleared (bpc s j) \<and> cstr (names s ! j) = to \<longrightarrow> (0, m) \<in> set (sent u))"
proof -
  have inv: "slots_inv s" "filled_inv s" using broadcast.reach_inv [OF reach] by (simp_all add: server_inv_def)
  note size = reach_sizes [OF reach run pc]
  have "length txt < length (msgs s t)"
    using whisper_text_bound [OF size(2,3) whisper say] size(4) by (simp add: MSG_SIZE_def)
  moreover have "handle Whispers s t buf = compose t (Some to) (Some txt) s"
    using whisper_no_command [OF whisper(1)] whisper say by (simp add: handle_def task3_message_def undefined_unless_def)
  ultimately obtain n where n: "run (server_next Whispers) s (replicate n (Client t Done)) = Some (delivered s t (Some to) txt)"
    using handle_delivers [OF run pc] by blast
  let ?u = "delivered s t (Some to) txt" and ?m = "take (2 * MSG_BUFFER_SIZE) (read_into (msgs s t) (txt @ [0]))"
  have sent: "sent ?u = sent s @ map (\<lambda>j. (cfd s ! j, ?m)) (filter (\<lambda>j. cstr (names s ! j) = to) [0..<CLIENT_NUM])"
    by (simp add: delivered_def Let_def addressed_def [abs_def])
  have "(0, ?m) \<in> set (sent ?u)" if "j < created s" "cleared (bpc s j)" "cstr (names s ! j) = to" for j
  proof -
    have "cfd s ! j = 0" "j < CLIENT_NUM" using that inv by (auto simp: slots_inv_def filled_inv_def)
    with that(3) show ?thesis unfolding sent by (auto intro!: image_eqI [of _ _ j])
  qed
  moreover have "bpc ?u t = BRead" by (simp add: delivered_def Let_def)
  ultimately show ?thesis using n sent by blast
qed

theorem whisper_delivered_witness:
  "\<exists>s n u m. reach (server_next Whispers) example_start s \<and> bpc s 0 = BHandle (packet (bytes ''/w B hi''))
    \<and> run (server_next Whispers) s (replicate n (Client 0 Done)) = Some u \<and> (5, m) \<in> set (sent u)"
proof -
  let ?b = "bytes ''/w B hi''"
  have bs: "length ?b \<le> MSG_BUFFER_SIZE" "c_string ?b" "length ?b < MSG_BUFFER_SIZE"
    by (simp_all add: bytes_def MSG_BUFFER_SIZE_def c_string_def)
  have a: "c_string [65]" "length [65 :: u8] < MSG_BUFFER_SIZE" and b: "c_string [66]" "length [66 :: u8] < MSG_BUFFER_SIZE"
    by (simp_all add: c_string_def MSG_BUFFER_SIZE_def)
  obtain s where s: "reach (server_next Whispers) example_start s" "two_connected s" "running 0 s"
      "bpc s 0 = BHandle (packet ?b)" "bpc s 1 = BRead" "names s ! 0 = packet [65]" "names s ! 1 = packet [66]"
      "cfd s ! 1 = 5" by (rule example_message [OF bs(1)])
  have w: "is_whisper (packet ?b)" using cstr_packet [OF bs(2,3)] by (simp add: is_whisper_def) (simp add: bytes_def cstr_def)
  have g: "get_message (packet ?b) 32 = Some ([66], bytes ''hi'')"
    unfolding get_message_cases [OF bs(2,3)] by (rule exI [of _ "bytes ''/w''"]) (simp add: bytes_def)
  have t: "whisper_text (names s ! 0) (bytes ''hi'') = Some (bytes ''A (whispers): hi'')"
    using string_at_packet [OF a] by (simp add: whisper_text_def s(6)) (simp add: bytes_def)
  from whisper_delivered [OF s(1) example_starts s(3,4) w g t]
  obtain n u m where u: "run (server_next Whispers) s (replicate n (Client 0 Done)) = Some u"
      "sent u = sent s @ map (\<lambda>j. (cfd s ! j, m)) (filter (\<lambda>j. cstr (names s ! j) = [66]) [0..<CLIENT_NUM])" by blast
  have "1 < CLIENT_NUM" "cstr (names s ! 1) = [66]" using s(7) b by (simp_all add: CLIENT_NUM_def)
  then have "(5, m) \<in> set (sent u)" unfolding u(2) using s(8) by (auto intro!: image_eqI [of _ _ 1])
  with s(1,4) u(1) show ?thesis by blast
qed

end
