(* ===== verification/BroadcastShutdown.thy ===== *)
theory BroadcastShutdown
  imports Broadcast
begin

text \<open>
  How the broadcasting servers end: \<^verbatim>\<open>/shutdown\<close> sets \<^verbatim>\<open>sd\<close> and cancels the listener; main leaves its
  loop, joins the listener and as many client threads as \<^verbatim>\<open>sd\<close> says.
\<close>

section \<open>Which threads main joins\<close>

text \<open>The thread has asked for the shutdown.\<close>

fun stopped :: "bclient_pc \<Rightarrow> bool" where
  "stopped BCancel = True"
| "stopped BReport = True"
| "stopped (BDone q) = q"
| "stopped _ = False"

definition stoppers :: "server \<Rightarrow> nat set" where
  "stoppers s = {t. t < created s \<and> stopped (bpc s t)}"

definition several :: "nat set \<Rightarrow> bool" where
  "several S \<longleftrightarrow> (\<exists>t u. t \<noteq> u \<and> t \<in> S \<and> u \<in> S)"

definition finished :: "bclient_pc \<Rightarrow> bool" where
  "finished p \<longleftrightarrow> p = BDone False \<or> p = BDone True"

definition join_inv :: "server \<Rightarrow> bool" where
  "join_inv s \<longleftrightarrow>
     (loop_index (opc s) \<noteq> None \<longrightarrow> (sd s = 1 \<longleftrightarrow> stoppers s \<noteq> {}))
     \<and> (loop_index (opc s) = None \<longrightarrow> created s = CLIENT_NUM
          \<or> stoppers s \<noteq> {} \<and> (sd s = int (created s) \<or> several (stoppers s)))
     \<and> (\<forall>i. opc s = OJoin i \<longrightarrow> (\<forall>t < i. finished (bpc s t)))
     \<and> (opc s = OExit \<longrightarrow> exited s \<noteq> None \<and> (\<forall>t. int t < sd s \<longrightarrow> finished (bpc s t)))"

lemma join_init: "join_inv (server_init cfds ns ms)"
  by (simp add: join_inv_def server_init_def stoppers_def)

lemma stopped_cleared: "stopped p \<Longrightarrow> cleared p"
  by (cases p) auto

lemma stopped_step:
  assumes step: "client_step v s t k = Some u" and "bpc s t \<noteq> BStop"
  shows "stopped (bpc u t) = stopped (bpc s t)"
proof (cases "\<exists>buf. bpc s t = BHandle buf")
  case True
  then have "\<not> cleared (bpc u t)"
    using step only_thread_handle [of s t v] by (auto simp: client_step_def only_thread_def)
  with True stopped_cleared show ?thesis by auto
next
  case False
  with assms show ?thesis
    by (cases "bpc s t"; auto simp: client_step_def undefined_unless_def Let_def
        split: if_splits option.splits answer.splits)
qed

lemma client_frame_all:
  assumes step: "client_step v s t k = Some u"
  shows "created u = created s" "opc u = opc s" "\<And>t'. t' \<noteq> t \<Longrightarrow> bpc u t' = bpc s t'"
    "sd u = (if bpc s t = BStop then 1 else sd s)"
proof -
  have "created u = created s \<and> opc u = opc s \<and> (\<forall>t'. t' \<noteq> t \<longrightarrow> bpc u t' = bpc s t')
      \<and> sd u = (if bpc s t = BStop then 1 else sd s)"
  proof (cases "\<exists>q. bpc s t = BClose q \<or> bpc s t = BClear q")
    case True
    then show ?thesis using step by (auto simp: client_step_def)
  next
    case False
    then have "\<And>q. bpc s t \<noteq> BClose q" "\<And>q. bpc s t \<noteq> BClear q" by blast+
    from client_frame [OF step this] show ?thesis by simp
  qed
  then show "created u = created s" "opc u = opc s" "\<And>t'. t' \<noteq> t \<Longrightarrow> bpc u t' = bpc s t'"
    "sd u = (if bpc s t = BStop then 1 else sd s)" by blast+
qed

lemma client_npc: "client_step v s t k = Some u \<Longrightarrow> npc u = npc s"
  using only_thread_handle [of s t v] 
  by (cases "bpc s t"; auto simp: client_step_def undefined_unless_def Let_def only_thread_def
      split: if_splits option.splits answer.splits)

lemma client_join:
  assumes inv: "join_inv s" and ex: "exited s = None" and t: "t < created s" and step: "client_step v s t k = Some u"
  shows "join_inv u"
proof -
  note frame = client_frame_all [OF step]
  have "\<not> finished (bpc s t)" using step by (auto simp: client_step_def finished_def)
  then have fin: "finished (bpc u t')" if "finished (bpc s t')" for t' using that frame(3) by metis
  have "opc s \<noteq> OExit" using inv ex by (auto simp: join_inv_def)
  show ?thesis
  proof (cases "bpc s t = BStop")
    case True
    then have "u = goto t BCancel (s\<lparr>sd := 1\<rparr>)" using step by (simp add: client_step_def)
    then have st: "stoppers u = insert t (stoppers s)" "t \<notin> stoppers s" using t True by (auto simp: stoppers_def)
    have several: "several (stoppers u)" if ne: "stoppers s \<noteq> {}"
    proof -
      obtain x where x: "x \<in> stoppers s" using ne by blast
      with st have "x \<noteq> t" "x \<in> stoppers u" "t \<in> stoppers u" by auto
      then show ?thesis unfolding several_def by blast
    qed
    have "stoppers u \<noteq> {}" "sd u = 1" using st frame(4) True by auto
    then show ?thesis using inv frame(1,2) fin several \<open>opc s \<noteq> OExit\<close> by (simp add: join_inv_def) blast
  next
    case False
    have "stopped (bpc u t') = stopped (bpc s t')" for t'
      using stopped_step [OF step False] frame(3) [of t'] by (cases "t' = t") auto
    then have "stoppers u = stoppers s" using frame(1) by (simp add: stoppers_def)
    then show ?thesis using inv frame(1,2,4) fin False \<open>opc s \<noteq> OExit\<close> by (simp add: join_inv_def)
  qed
qed

lemma stoppers_cong: "bpc u = bpc s \<Longrightarrow> created u = created s \<Longrightarrow> stoppers u = stoppers s"
  by (simp add: stoppers_def)

lemma listener_join:
  assumes inv: "join_inv s" and ex: "exited s = None" and step: "listener_step s k = Some u"
  shows "join_inv u"
proof -
  have "opc s \<noteq> OExit" using inv ex by (auto simp: join_inv_def)
  have frame: "created u = created s" "bpc u = bpc s" "sd u = sd s" "loop_index (opc u) = loop_index (opc s)"
      "\<And>i. opc u = OJoin i \<longleftrightarrow> opc s = OJoin i" "opc u \<noteq> OExit"
    using step \<open>opc s \<noteq> OExit\<close>
    by (cases "npc s"; auto simp: listener_step_def cond_signal_def split: if_splits answer.splits bmain_pc.splits)+
  then show ?thesis using inv stoppers_cong [OF frame(2,1)] by (simp add: join_inv_def)
qed

lemma main_join:
  assumes inv: "join_inv s" "server_inv s" and ex: "exited s = None" and step: "main_step s k = Some u"
  shows "join_inv u"
proof (cases "\<exists>i. opc s = OCreate i")
  case True
  then obtain i where i: "opc s = OCreate i" ..
  then have c: "created s = i" using inv(2) by (simp add: server_inv_def loop_inv_def)
  from step i consider (fail) "u = s\<lparr>exited := Some 0\<rparr>"
    | (new) "u = goto i BLoad (s\<lparr>created := i + 1, opc := OUnlock i\<rparr>)"
    by (auto simp: main_step_def split: answer.splits)
  then show ?thesis
  proof cases
    case fail
    then show ?thesis using inv(1) i by (simp add: join_inv_def stoppers_def)
  next
    case new
    then have "stoppers u = stoppers s" using c by (auto simp: stoppers_def less_Suc_eq)
    with new i inv(1) show ?thesis by (simp add: join_inv_def)
  qed
next
  case False
  then have "\<And>i. opc s \<noteq> OCreate i" by blast
  note f = main_frame [OF step this]
  have st: "stoppers u = stoppers s" using stoppers_cong [OF f(4,3)] .
  have loop: "loop_inv s" "created s \<le> CLIENT_NUM" using inv(2) by (auto simp: server_inv_def filled_inv_def)
  show ?thesis
  proof (cases "loop_index (opc s)")
    case None
    with inv(1) step st f(3,4) ex show ?thesis
      by (cases "opc s"; auto simp: main_step_def join_inv_def finished_def [symmetric] less_Suc_eq split: if_splits)
  next
    case (Some i)
    then have i: "created s = i" "sd s = 1 \<longleftrightarrow> stoppers s \<noteq> {}"
      using loop(1) inv(1) by (simp_all add: loop_inv_def join_inv_def)
    then have "loop_index (opc u) \<noteq> None \<longrightarrow> (sd u = 1 \<longleftrightarrow> stoppers u \<noteq> {})" "\<forall>j. opc u \<noteq> OJoin j" "opc u \<noteq> OExit"
        "loop_index (opc u) = None \<longrightarrow> created s = CLIENT_NUM \<or> stoppers s \<noteq> {} \<and> sd u = int (created s)"
      using step Some st loop(2) by (cases "opc s"; auto simp: main_step_def unlock_def split: if_splits answer.splits)+
    then show ?thesis using st f(3) by (auto simp: join_inv_def)
  qed
qed

lemma join_inv_step:
  assumes "join_inv s" "server_inv s" "server_next v s e = Some u"
  shows "join_inv u"
proof -
  have "exited s = None" using assms(3) by (auto simp: server_next.simps split: if_splits)
  with assms show ?thesis
    by (cases e) (auto simp: server_next.simps split: if_splits intro: listener_join client_join main_join)
qed

interpretation shutdown: machine_inv "server_next v" server_start "\<lambda>s. server_inv s \<and> join_inv s"
  by unfold_locales (auto simp: server_start_def intro: init_inv join_init server_inv_step join_inv_step)


section \<open>Shutdown while the listener accepts, and while it sleeps\<close>

text \<open>The client's steps from the message to its end.\<close>

definition shut_down :: "nat \<Rightarrow> cstring \<Rightarrow> server \<Rightarrow> server" where
  "shut_down t n s =
     s\<lparr>sd := 1, active_clients := active_clients s - 1, cfd := (cfd s)[t := 0], bpc := (bpc s)(t := BDone True),
       ncancelled := True, opened := filter (\<lambda>fd. fd \<noteq> cfd s ! t) (opened s),
       out := out s @ [n @ bytes '' disconnected'' @ [10]], waiting_for := Some (active_clients s - 1)\<rparr>"

lemma shutdown_not_quit: "is_shutdown buf \<Longrightarrow> \<not> is_quit buf"
  by (auto simp: is_shutdown_def is_quit_def bytes_def)

lemma client_shuts_down:
  assumes "running t s" "bpc s t = BHandle buf" "is_shutdown buf" "string_at (names s ! t) 0 = Some n"
  shows "run (server_next v) s (replicate 8 (Client t Done)) = Some (shut_down t n s)"
  using assms
  by (simp add: eval_nat_numeral running_def server_next.simps client_step_def handle_def shutdown_not_quit
      undefined_unless_def goto_def shut_down_def)

text \<open>Main joins threads that have ended.\<close>

lemma join_loop:
  assumes "opc s = OJoin i" "\<not> ub s" "exited s = None" "i \<le> n" "sd s = int n" "n \<le> created s"
    "\<forall>t < n. finished (bpc s t)"
  shows "\<exists>es u. run (server_next v) s es = Some u \<and> opc u = OExit \<and> exited u = Some 0"
  using assms
proof (induction "n - i" arbitrary: s i)
  case 0
  then have "run (server_next v) s [Main Done] = Some (s\<lparr>opc := OExit, exited := Some 0\<rparr>)"
    by (simp add: server_next.simps main_step_def)
  then show ?case by fastforce
next
  case (Suc d)
  let ?s = "s\<lparr>opc := OJoin (i + 1)\<rparr>"
  have "finished (bpc s i)" using Suc by simp
  then have "server_next v s (Main Done) = Some ?s"
    using Suc by (auto simp: server_next.simps main_step_def finished_def)
  moreover have "d = n - (i + 1)" using Suc.hyps(2) by simp
  from Suc.hyps(1) [OF this, of ?s] obtain es u where
    "run (server_next v) ?s es = Some u" "opc u = OExit" "exited u = Some 0" using Suc.prems Suc.hyps(2) by force
  ultimately have "run (server_next v) s (Main Done # es) = Some u" "opc u = OExit" "exited u = Some 0" by simp_all
  then show ?case by blast
qed

text \<open>While the listener waits in \<^verbatim>\<open>accept\<close>, its clean-up handler wakes main, which joins everything and
  ends, provided that the other clients have left.
\<close>

theorem shutdown_while_accepting:
  assumes reach: "reach (server_next v) s0 s" "server_start s0" and run: "running t s"
    and pc: "bpc s t = BHandle buf" "is_shutdown buf" "string_at (names s ! t) 0 \<noteq> None"
    and main: "opc s = OWait j" and listener: "npc s = NAccept i"
    and others: "\<And>u. u < created s \<Longrightarrow> u \<noteq> t \<Longrightarrow> finished (bpc s u)"
  shows "\<exists>es u. run (server_next v) s es = Some u \<and> opc u = OExit \<and> exited u = Some 0"
proof -
  obtain n where n: "string_at (names s ! t) 0 = Some n" using pc(3) by blast
  have "loop_inv s" using broadcast.reach_inv [OF reach] by (simp add: server_inv_def)
  then have j: "created s = j" "t < j" using main run by (auto simp: loop_inv_def running_def)
  let ?s1 = "shut_down t n s"
  let ?s2 = "?s1\<lparr>opc := OWake j, npc := NDone, mutex := None, misuse := (misuse s \<or> mutex s \<noteq> Some 1)\<rparr>"
  let ?s3 = "?s2\<lparr>mutex := Some 0, opc := OJoin 0, sd := int j\<rparr>"
  have 1: "run (server_next v) s (replicate 8 (Client t Done)) = Some ?s1"
    by (rule client_shuts_down [OF run pc(1,2) n])
  have 2: "run (server_next v) ?s1 (replicate 3 (Listener Done)) = Some ?s2"
    using run main listener
    by (simp add: eval_nat_numeral shut_down_def running_def server_next.simps listener_step_def cond_signal_def unlock_def)
  have 3: "run (server_next v) ?s2 (replicate 4 (Main Done)) = Some ?s3"
    using run by (simp add: eval_nat_numeral shut_down_def running_def server_next.simps main_step_def)
  have "opc ?s3 = OJoin 0" "\<not> ub ?s3" "exited ?s3 = None" "0 \<le> j" "sd ?s3 = int j" "j \<le> created ?s3"
    using run j by (simp_all add: shut_down_def running_def)
  moreover have "\<forall>u < j. finished (bpc ?s3 u)"
    using others j by (auto simp: shut_down_def finished_def)
  ultimately obtain es u where es: "run (server_next v) ?s3 es = Some u" "opc u = OExit" "exited u = Some 0"
    using join_loop by blast
  have "run (server_next v) s (replicate 8 (Client t Done) @ replicate 3 (Listener Done) @ replicate 4 (Main Done) @ es) = Some u"
    by (simp only: run_append 1 2 3 es(1) option.case)
  with es(2,3) show ?thesis by blast
qed

lemma waits_for_ever:
  assumes "run (server_next v) s es = Some u" "Main Spurious \<notin> set es" "opc s = OWait j" "npc s = NDone"
  shows "opc u = OWait j"
  using assms
proof (induction es arbitrary: s)
  case Nil
  then show ?case by simp
next
  case (Cons e es)
  then obtain w where w: "server_next v s e = Some w" "run (server_next v) w es = Some u" by (auto split: option.splits)
  have "opc w = OWait j \<and> npc w = NDone"
  proof (cases e)
    case (Listener k)
    then show ?thesis using w(1) Cons.prems by (simp add: server_next.simps listener_step_def split: if_splits)
  next
    case (Client t k)
    then have "client_step v s t k = Some w" using w(1) by (auto simp: server_next.simps split: if_splits)
    with client_frame_all [OF this] Cons.prems show ?thesis by (simp add: client_npc)
  next
    case (Main k)
    then show ?thesis using w(1) Cons.prems by (auto simp: server_next.simps main_step_def split: if_splits)
  qed
  with Cons.IH [OF w(2)] Cons.prems(2) show ?case by simp
qed

text \<open>In the second in which the listener sleeps after a client has come it has no handler: nobody
  wakes main, which waits for ever, however the clients go on.
\<close>

theorem shutdown_while_sleeping:
  assumes run: "running t s" and pc: "bpc s t = BHandle buf" "is_shutdown buf" "string_at (names s ! t) 0 \<noteq> None"
    and main: "opc s = OWait j" and listener: "npc s = NSleep i"
  shows "\<exists>es u. run (server_next v) s es = Some u \<and> sd u = 1 \<and> bpc u t = BDone True
    \<and> (\<forall>fs w. run (server_next v) u fs = Some w \<and> Main Spurious \<notin> set fs \<longrightarrow> opc w = OWait j)"
proof -
  obtain n where n: "string_at (names s ! t) 0 = Some n" using pc(3) by blast
  let ?u = "(shut_down t n s)\<lparr>npc := NDone\<rparr>"
  have 1: "run (server_next v) s (replicate 8 (Client t Done)) = Some (shut_down t n s)"
    by (rule client_shuts_down [OF run pc(1,2) n])
  have 2: "run (server_next v) (shut_down t n s) [Listener Done] = Some ?u"
    using run listener by (simp add: shut_down_def running_def server_next.simps listener_step_def)
  have "run (server_next v) s (replicate 8 (Client t Done) @ [Listener Done]) = Some ?u"
    by (simp only: run_append 1 2 option.case)
  moreover have "opc ?u = OWait j" "npc ?u = NDone" "sd ?u = 1" "bpc ?u t = BDone True"
    using main by (simp_all add: shut_down_def)
  ultimately show ?thesis using waits_for_ever by blast
qed

section \<open>Runs\<close>

text \<open>\<^verbatim>\<open>/shutdown\<close> as a client sends it.\<close>

definition shutdown_line :: cstring where
  "shutdown_line = bytes ''/shutdown'' @ [10]"

lemma shutdown_line:
  "length shutdown_line \<le> MSG_BUFFER_SIZE" "is_shutdown (packet shutdown_line)" "\<not> is_quit (packet shutdown_line)"
proof -
  have "c_string shutdown_line" "length shutdown_line < MSG_BUFFER_SIZE"
    by (simp_all add: shutdown_line_def bytes_def c_string_def MSG_BUFFER_SIZE_def)
  then show "length shutdown_line \<le> MSG_BUFFER_SIZE" "is_shutdown (packet shutdown_line)"
    by (simp_all add: is_shutdown_def shutdown_line_def [symmetric])
  then show "\<not> is_quit (packet shutdown_line)" by (metis shutdown_not_quit)
qed

lemma name_A: "string_at (packet [65]) 0 = Some [65]"
  by (rule string_at_packet) (simp_all add: c_string_def MSG_BUFFER_SIZE_def)

theorem shutdown_while_sleeping_witness:
  "\<exists>s es u. reach (server_next Whispers) example_start s \<and> run (server_next Whispers) s es = Some u \<and> sd u = 1
    \<and> (\<forall>fs w. run (server_next Whispers) u fs = Some w \<and> Main Spurious \<notin> set fs \<longrightarrow> opc w = OWait 2)"
proof -
  obtain s where s: "reach (server_next Whispers) example_start s" "two_connected s" "running 0 s"
      "bpc s 0 = BHandle (packet shutdown_line)" "bpc s 1 = BRead" "names s ! 0 = packet [65]"
    by (rule example_message [OF shutdown_line(1)])
  have "string_at (names s ! 0) 0 \<noteq> None" by (simp add: s(6) name_A)
  moreover have "opc s = OWait 2" "npc s = NSleep 1" using s(2) by (simp_all add: two_connected_def)
  ultimately show ?thesis using shutdown_while_sleeping [OF s(3,4) shutdown_line(2), of 2 1 Whispers] s(1) by blast
qed

text \<open>One client, and the listener back in \<^verbatim>\<open>accept\<close>.\<close>

definition one_client :: "bevent list" where
  "one_client = connect_schedule 4 @ create_schedule @ name_schedule 0 65 @ [Listener Done, Listener Done]
     @ [Client 0 (Data shutdown_line)]"

lemma one_client_run:
  "\<exists>s. run (server_next Whispers) example_start one_client = Some s \<and> running 0 s \<and> created s = 1 \<and> opc s = OWait 1
    \<and> npc s = NAccept 1 \<and> bpc s 0 = BHandle (packet shutdown_line) \<and> names s ! 0 = packet [65]"
  using shutdown_line(1) one_byte
  by (simp add: one_client_def connect_schedule_def create_schedule_def name_schedule_def example_start_def
      server_init_def server_next.simps listener_step_def main_step_def client_step_def cond_signal_def unlock_def
      goto_def mutex_init_def eval_nat_numeral CLIENT_NUM_def running_def packet_def read_into_def)

theorem shutdown_while_accepting_witness:
  "\<exists>es u. run (server_next Whispers) example_start (one_client @ es) = Some u \<and> opc u = OExit \<and> exited u = Some 0"
proof -
  obtain s where s: "run (server_next Whispers) example_start one_client = Some s" "running 0 s" "created s = 1"
      "opc s = OWait 1" "npc s = NAccept 1" "bpc s 0 = BHandle (packet shutdown_line)" "names s ! 0 = packet [65]"
    using one_client_run by blast
  have "string_at (names s ! 0) 0 \<noteq> None" by (simp add: s(7) name_A)
  from shutdown_while_accepting [OF run_reach [OF s(1)] example_starts s(2,6) shutdown_line(2) this s(4,5)] s(3)
  obtain es u where "run (server_next Whispers) s es = Some u" "opc u = OExit" "exited u = Some 0" by auto
  moreover from this(1) s(1) have "run (server_next Whispers) example_start (one_client @ es) = Some u"
    by (simp add: run_append)
  ultimately show ?thesis by blast
qed

text \<open>The same run to its end.\<close>

definition to_the_end :: "bevent list" where
  "to_the_end = replicate 8 (Client 0 Done) @ replicate 3 (Listener Done) @ replicate 6 (Main Done)"

lemma one_client_end:
  "\<exists>s. run (server_next Whispers) example_start (one_client @ to_the_end) = Some s \<and> opc s = OExit \<and> created s = 1"
  using shutdown_line one_byte name_A
  by (simp add: one_client_def to_the_end_def connect_schedule_def create_schedule_def name_schedule_def example_start_def
      server_init_def server_next.simps listener_step_def main_step_def client_step_def cond_signal_def unlock_def
      goto_def mutex_init_def eval_nat_numeral CLIENT_NUM_def packet_def read_into_def handle_def undefined_unless_def)


section \<open>Flaws of the set-up\<close>

text \<open>
  Popping the clean-up handler runs it, so that the listener unlocks the mutex a second time for
  every client, when it does not own it.
\<close>

fun after_pop :: "blistener_pc \<Rightarrow> bool" where
  "after_pop (NSignal i) = True"
| "after_pop (NUnlock i) = True"
| "after_pop _ = False"

fun asleep :: "blistener_pc \<Rightarrow> bool" where
  "asleep (NSleep i) = True"
| "asleep _ = False"

definition unlock_inv :: "server \<Rightarrow> bool" where
  "unlock_inv s \<longleftrightarrow> (after_pop (npc s) \<longrightarrow> mutex s \<noteq> Some 1) \<and> (asleep (npc s) \<longrightarrow> misuse s)"

lemma unlock_init: "unlock_inv (server_init cfds ns ms)"
  by (simp add: unlock_inv_def server_init_def)

lemma client_mutex_misuse: "client_step v s t k = Some u \<Longrightarrow> mutex u = mutex s \<and> misuse u = misuse s"
  by (cases "bpc s t"; cases v;
      auto simp: client_step_def handle_def task1_message_def task2_message_def task3_message_def compose_def
        undefined_unless_def goto_def Let_def split: if_splits option.splits answer.splits)

lemma unlock_inv_step:
  assumes "unlock_inv s" "server_next v s e = Some u"
  shows "unlock_inv u"
proof (cases e)
  case (Listener k)
  then show ?thesis using assms
    by (cases "npc s"; auto simp: server_next.simps listener_step_def unlock_inv_def cond_signal_def unlock_def
        split: if_splits answer.splits)
next
  case (Client t k)
  then have "client_step v s t k = Some u" using assms(2) by (auto simp: server_next.simps split: if_splits)
  with client_mutex_misuse [OF this] client_npc [OF this] assms(1) show ?thesis by (simp add: unlock_inv_def)
next
  case (Main k)
  then have "npc u = npc s \<and> (mutex u = mutex s \<or> mutex u = None \<or> mutex u = Some 0) \<and> (misuse s \<longrightarrow> misuse u)"
    using assms(2) by (cases "opc s"; auto simp: server_next.simps main_step_def unlock_def goto_def
        split: if_splits answer.splits)
  with assms(1) show ?thesis by (auto simp: unlock_inv_def)
qed

interpretation unlocking: machine_inv "server_next v" server_start unlock_inv
  by unfold_locales (auto simp: server_start_def intro: unlock_init unlock_inv_step)

lemma second_unlock:
  "reach (server_next v) s0 s \<Longrightarrow> server_start s0 \<Longrightarrow> npc s = NSleep i \<Longrightarrow> misuse s"
  using unlocking.reach_inv [of v s0 s] by (simp add: unlock_inv_def)

text \<open>When main's array is not zero at the start, main creates a thread before anybody has connected.\<close>

lemma uninitialised_slot:
  "cfds ! 0 \<noteq> 0 \<Longrightarrow>
    \<exists>s. run (server_next v) (server_init cfds ns ms) (replicate 4 (Main Done)) = Some s \<and> created s = 1 \<and> npc s = NLock 0"
  by (simp add: eval_nat_numeral server_next.simps main_step_def server_init_def goto_def mutex_init_def CLIENT_NUM_def)

text \<open>With 32 clients main joins nobody and ends the process, whatever the clients are doing.\<close>

lemma full_house:
  assumes "opc s = OFor CLIENT_NUM" "npc s = NDone" "sd s = 0" "\<not> ub s" "exited s = None"
  shows "\<exists>u. run (server_next v) s (replicate 3 (Main Done)) = Some u \<and> exited u = Some 0 \<and> bpc u = bpc s"
  using assms by (simp add: eval_nat_numeral server_next.simps main_step_def)

end
