(* ===== verification/BroadcastClient.thy ===== *)
theory BroadcastClient
  imports Messages
begin

text \<open>
  The clients of the broadcasting servers: \<^verbatim>\<open>task1/client.c\<close>, a loop that sends lines, and
  \<^verbatim>\<open>task3/client.c\<close> (\<^verbatim>\<open>task2/client.c\<close> is the same file), with a thread that reads and one that
  writes.
\<close>

section \<open>The lines of the input\<close>

text \<open>One turn of the loop: the array is cleared before \<^verbatim>\<open>fgets\<close>, and it is sent as it is.\<close>

definition next_packet :: "u8 list \<Rightarrow> u8 list \<times> u8 list" where
  "next_packet input = fgets (replicate MSG_BUFFER_SIZE 0) MSG_BUFFER_SIZE input"

definition is_command :: "u8 list \<Rightarrow> bool" where
  "is_command buf \<longleftrightarrow> is_quit buf \<or> is_shutdown buf"

text \<open>
  The loop of task 1. \<open>ok n\<close>: the \<open>n\<close>th call of \<^verbatim>\<open>write\<close> succeeds; the result is an exit code and what
  has been sent, \<open>None\<close> when the loop does not end.
\<close>

partial_function (option) client_loop :: "(nat \<Rightarrow> bool) \<Rightarrow> u8 list \<Rightarrow> u8 list list \<Rightarrow> (int \<times> u8 list list) option" where
  "client_loop ok input sent =
     (let buffer = fst (next_packet input); rest = snd (next_packet input)
      in if \<not> ok (length sent) then Some (1, sent)
         else if is_command buffer then Some (0, sent @ [buffer])
         else client_loop ok rest (sent @ [buffer]))"

text \<open>
  \<^verbatim>\<open>write(sfd, argv[2], 128)\<close> sends what stands behind the argument in the memory as well: \<open>behind\<close>.
\<close>

definition name_packet :: "cstring \<Rightarrow> u8 list \<Rightarrow> u8 list" where
  "name_packet name behind = take MSG_BUFFER_SIZE (name @ 0 # behind)"

definition task1_client :: "cstring list \<Rightarrow> int \<Rightarrow> int \<Rightarrow> u8 list \<Rightarrow> (nat \<Rightarrow> bool) \<Rightarrow> u8 list
    \<Rightarrow> (int \<times> u8 list list) option" where
  "task1_client argv sock conn behind ok input =
     (if length argv < 3 then Some (1, [])
      else if sock < 0 then Some (1, [])
      else if conn < 0 then Some (1, [])
      else if \<not> ok 0 then Some (1, [])
      else client_loop ok input [name_packet (argv ! 2) behind])"

section \<open>What is sent\<close>

text \<open>The pieces \<^verbatim>\<open>fgets\<close> cuts an input into: lines, and parts of 127 bytes of longer ones.\<close>

function pieces :: "u8 list \<Rightarrow> u8 list list" where
  "pieces input = (if input = [] then [] else fst (fgets_line MSG_BUFFER_SIZE input) # pieces (snd (fgets_line MSG_BUFFER_SIZE input)))"
  by auto

termination
  by (relation "measure length") (auto simp: fgets_line_def Let_def MSG_BUFFER_SIZE_def)

declare pieces.simps [simp del]

lemma pieces_Nil [simp]: "pieces [] = []"
  by (simp add: pieces.simps)

lemma pieces_line: "10 \<notin> set l \<Longrightarrow> length l < 127 \<Longrightarrow> pieces (l @ 10 # rest) = (l @ [10]) # pieces rest"
  using fgets_one_line [of l MSG_BUFFER_SIZE rest] by (subst pieces.simps) (simp add: MSG_BUFFER_SIZE_def)

lemma next_packet_Nil [simp]: "next_packet [] = (packet [], [])"
  by (simp add: next_packet_def fgets_def packet_def read_into_def)

lemma next_packet_piece:
  assumes "input \<noteq> []"
  shows "fst (next_packet input) = packet (fst (fgets_line MSG_BUFFER_SIZE input))"
    "snd (next_packet input) = snd (fgets_line MSG_BUFFER_SIZE input)"
proof -
  let ?l = "fst (fgets_line MSG_BUFFER_SIZE input)"
  have "length ?l < MSG_BUFFER_SIZE" by (rule length_fgets_line) (simp add: MSG_BUFFER_SIZE_def)
  then have "read_into (replicate MSG_BUFFER_SIZE 0) (?l @ [0]) = packet ?l"
    by (simp add: packet_append) (simp add: read_into_def)
  then show "fst (next_packet input) = packet ?l" "snd (next_packet input) = snd (fgets_line MSG_BUFFER_SIZE input)"
    using assms by (simp_all add: next_packet_def fgets_def case_prod_beta)
qed

lemma no_command_Nil: "\<not> is_command (packet [])"
  by (simp add: is_command_def is_quit_def is_shutdown_def bytes_def packet_def read_into_def cstr_def MSG_BUFFER_SIZE_def
      eval_nat_numeral)

text \<open>At the end of the input the loop goes on for ever.\<close>

lemma client_loop_returns:
  assumes "client_loop ok input sent = Some r" "\<forall>n. ok n"
  shows "input \<noteq> []"
proof -
  have "(\<forall>n. ok n) \<longrightarrow> input \<noteq> []"
  proof (rule client_loop.raw_induct [where P = "\<lambda>ok input sent r. (\<forall>n. ok n) \<longrightarrow> input \<noteq> []", OF _ assms(1)])
    fix f :: "(nat \<Rightarrow> bool) \<Rightarrow> u8 list \<Rightarrow> u8 list list \<Rightarrow> (int \<times> u8 list list) option"
    fix ok :: "nat \<Rightarrow> bool" and input :: "u8 list" and sent :: "u8 list list" and r :: "int \<times> u8 list list"
    assume IH: "\<And>ok input sent r. f ok input sent = Some r \<Longrightarrow> (\<forall>n. ok n) \<longrightarrow> input \<noteq> []"
      and eq: "(let buffer = fst (next_packet input); rest = snd (next_packet input)
            in if \<not> ok (length sent) then Some (1, sent)
               else if is_command buffer then Some (0, sent @ [buffer])
               else f ok rest (sent @ [buffer])) = Some r"
    show "(\<forall>n. ok n) \<longrightarrow> input \<noteq> []"
    proof (intro impI notI)
      assume ok: "\<forall>n. ok n" and "input = []"
      with eq have "f ok [] (sent @ [packet []]) = Some r" using no_command_Nil by (simp add: Let_def)
      from IH [OF this] ok show False by simp
    qed
  qed
  with assms(2) show ?thesis by blast
qed

lemma client_loop_pieces:
  assumes "\<And>n. ok n"
  shows "client_loop ok input sent =
    (if \<exists>p \<in> set (pieces input). is_command (packet p)
     then Some (0, sent @ map packet (takeWhile (\<lambda>p. \<not> is_command (packet p)) (pieces input)
       @ take 1 (dropWhile (\<lambda>p. \<not> is_command (packet p)) (pieces input))))
     else None)"
proof (induction input arbitrary: sent rule: pieces.induct)
  case (1 input)
  show ?case
  proof (cases "input = []")
    case True
    have "client_loop ok [] sent = None"
      using client_loop_returns [of ok "[]" sent] assms by (cases "client_loop ok [] sent") auto
    then show ?thesis using True by simp
  next
    case False
    let ?l = "fst (fgets_line MSG_BUFFER_SIZE input)" and ?r = "snd (fgets_line MSG_BUFFER_SIZE input)"
    have "client_loop ok input sent =
        (if is_command (packet ?l) then Some (0, sent @ [packet ?l]) else client_loop ok ?r (sent @ [packet ?l]))"
      using next_packet_piece [OF False] assms by (subst client_loop.simps) (simp add: Let_def)
    moreover have "pieces input = ?l # pieces ?r" using False by (subst pieces.simps) simp
    ultimately show ?thesis using 1 [OF False, of "sent @ [packet ?l]"] by simp
  qed
qed

definition short_line :: "u8 list \<Rightarrow> bool" where
  "short_line l \<longleftrightarrow> 10 \<notin> set l \<and> c_string l \<and> length l < 127"

lemma pieces_lines:
  "(\<And>l. l \<in> set ls \<Longrightarrow> short_line l) \<Longrightarrow>
    pieces (concat (map (\<lambda>l. l @ [10]) ls) @ rest) = map (\<lambda>l. l @ [10]) ls @ pieces rest"
  by (induction ls) (simp_all add: short_line_def pieces_line)

lemma packet_of_line:
  assumes "short_line l"
  shows "cstr (packet (l @ [10])) = l @ [10]" "is_command (packet (l @ [10])) \<longleftrightarrow> l \<in> {bytes ''/quit'', bytes ''/shutdown''}"
proof -
  show c: "cstr (packet (l @ [10])) = l @ [10]"
    using assms by (intro cstr_packet) (simp_all add: short_line_def c_string_def MSG_BUFFER_SIZE_def)
  show "is_command (packet (l @ [10])) \<longleftrightarrow> l \<in> {bytes ''/quit'', bytes ''/shutdown''}"
    by (simp add: is_command_def is_quit_def is_shutdown_def c)
qed

text \<open>C31: 
  The client of task 1 returns exactly when its input has a command, otherwise it sends zeros for
  ever. On lines that fit it sends one packet per line up to the command, and the packet holds the
  line as a string, which is what the server compares.
\<close>

theorem client_sends_lines:
  assumes argv: "3 \<le> length argv" "0 \<le> sock" "0 \<le> conn" and ok: "\<And>n. ok n"
    and lines: "\<And>l. l \<in> set ls \<Longrightarrow> short_line l \<and> l \<notin> {bytes ''/quit'', bytes ''/shutdown''}"
    and command: "q \<in> {bytes ''/quit'', bytes ''/shutdown''}"
  shows "(task1_client argv sock conn behind ok input = None \<longleftrightarrow> (\<forall>p \<in> set (pieces input). \<not> is_command (packet p)))
    \<and> task1_client argv sock conn behind ok (concat (map (\<lambda>l. l @ [10]) (ls @ [q])) @ rest)
      = Some (0, name_packet (argv ! 2) behind # map (\<lambda>l. packet (l @ [10])) (ls @ [q]))
    \<and> (\<forall>l \<in> set (ls @ [q]). cstr (packet (l @ [10])) = l @ [10])"
proof -
  have c: "task1_client argv sock conn behind ok i = client_loop ok i [name_packet (argv ! 2) behind]" for i
    using argv ok by (simp add: task1_client_def)
  have q: "short_line q" using command by (auto simp: short_line_def bytes_def c_string_def)
  have cs: "is_command (packet (q @ [10]))" "\<And>l. l \<in> set ls \<Longrightarrow> \<not> is_command (packet (l @ [10]))"
    using packet_of_line(2) [OF q] command packet_of_line(2) lines by auto
  let ?in = "concat (map (\<lambda>l. l @ [10]) (ls @ [q])) @ rest" and ?P = "\<lambda>p. \<not> is_command (packet p)"
  have p: "pieces ?in = map (\<lambda>l. l @ [10]) ls @ (q @ [10]) # pieces rest"
    using lines q by (subst pieces_lines) auto
  have "takeWhile ?P (pieces ?in) = map (\<lambda>l. l @ [10]) ls" "dropWhile ?P (pieces ?in) = (q @ [10]) # pieces rest"
    unfolding p using cs by (subst takeWhile_append2, auto) (subst dropWhile_append2, auto)
  moreover have "\<exists>p \<in> set (pieces ?in). is_command (packet p)" unfolding p using cs(1) by simp
  ultimately have "task1_client argv sock conn behind ok ?in
      = Some (0, name_packet (argv ! 2) behind # map (\<lambda>l. packet (l @ [10])) (ls @ [q]))"
    unfolding c client_loop_pieces [OF ok] by simp
  moreover have "task1_client argv sock conn behind ok input = None \<longleftrightarrow> (\<forall>p \<in> set (pieces input). \<not> is_command (packet p))"
    unfolding c client_loop_pieces [OF ok] by simp
  moreover have "\<forall>l \<in> set (ls @ [q]). cstr (packet (l @ [10])) = l @ [10]"
    using packet_of_line(1) lines q by auto
  ultimately show ?thesis by blast
qed

theorem client_sends_lines_witness:
  "task1_client [[], [], bytes ''Ann''] 3 0 (replicate 124 0) (\<lambda>_. True) (bytes ''hi'' @ [10] @ bytes ''/quit'' @ [10])
    = Some (0, [name_packet (bytes ''Ann'') (replicate 124 0), packet (bytes ''hi'' @ [10]), packet (bytes ''/quit'' @ [10])])
   \<and> task1_client [[], [], bytes ''Ann''] 3 0 (replicate 124 0) (\<lambda>_. True) [] = None"
proof -
  have "short_line (bytes ''hi'')" by (simp add: short_line_def bytes_def c_string_def)
  moreover have "bytes ''hi'' \<notin> {bytes ''/quit'', bytes ''/shutdown''}" by (simp add: bytes_def)
  ultimately show ?thesis
    using client_sends_lines [of "[[], [], bytes ''Ann'']" 3 0 "\<lambda>_. True" "[bytes ''hi'']" "bytes ''/quit''" "replicate 124 0" "[]" "[]"]
    by simp
qed

section \<open>The client with two threads\<close>

datatype reader_pc = RRead | RDone

datatype writer_pc = WGets | WWrite "u8 list" | WTest "u8 list" | WCancel | WDone

datatype joiner_pc = JReader | JWriter | JClosed

text \<open>
  \<open>input\<close> is what stdin still has, \<open>written\<close> what the writer has sent after the name, \<open>shown\<close> what the
  reader has printed, \<open>left\<close> the exit code of a thread that has called \<^verbatim>\<open>exit\<close>.
\<close>

record chatter =
  rpc :: reader_pc
  wpc :: writer_pc
  jpc :: joiner_pc
  input :: "u8 list"
  written :: "u8 list list"
  shown :: "cstring list"
  rcancelled :: bool
  left :: "int option"
  overread :: bool

definition chatter_init :: "u8 list \<Rightarrow> chatter" where
  "chatter_init inp = \<lparr>rpc = RRead, wpc = WGets, jpc = JReader, input = inp, written = [], shown = [],
     rcancelled = False, left = None, overread = False\<rparr>"

text \<open>
  The start of \<^verbatim>\<open>main\<close>: the results of \<^verbatim>\<open>socket\<close>, \<^verbatim>\<open>connect\<close>, \<^verbatim>\<open>write\<close> and of the two calls of
  \<^verbatim>\<open>pthread_create\<close>; an exit code, or the port, the packet with the name and the first state.
\<close>

definition chatter_setup :: "cstring list \<Rightarrow> int \<Rightarrow> int \<Rightarrow> u8 list \<Rightarrow> int \<Rightarrow> int \<Rightarrow> int \<Rightarrow> u8 list
    \<Rightarrow> int + 16 word \<times> u8 list \<times> chatter" where
  "chatter_setup argv sock conn behind wrote reader writer inp =
     (if length argv < 3 then Inl 1
      else if sock < 0 then Inl 1
      else if conn < 0 then Inl 1
      else if wrote < 0 then Inl 1
      else if reader \<noteq> 0 then Inl 0
      else if writer \<noteq> 0 then Inl 0
      else Inr (of_int (strtol (argv ! 1)), name_packet (argv ! 2) behind, chatter_init inp))"

text \<open>The result of \<^verbatim>\<open>read\<close>: bytes, none at the end of the connection, or an error.\<close>

datatype received = Bytes "u8 list" | Failure

definition read_func :: "chatter \<Rightarrow> received \<Rightarrow> chatter option" where
  "read_func s k =
     (case rpc s of
        RRead \<Rightarrow>
          if rcancelled s then Some (s\<lparr>rpc := RDone\<rparr>)
          else (case k of
                  Bytes bs \<Rightarrow>
                    if MSG_BUFFER_SIZE < length bs then None
                    else (case client_prints bs of
                            None \<Rightarrow> Some (s\<lparr>overread := True\<rparr>)
                          | Some t \<Rightarrow> Some (s\<lparr>shown := shown s @ [t]\<rparr>))
                | Failure \<Rightarrow> Some (s\<lparr>left := Some 1\<rparr>))
      | RDone \<Rightarrow> None)"

text \<open>\<open>ok\<close>: the call of \<^verbatim>\<open>write\<close> succeeds.\<close>

definition write_func :: "chatter \<Rightarrow> bool \<Rightarrow> chatter option" where
  "write_func s ok =
     (case wpc s of
        WGets \<Rightarrow> Some (s\<lparr>wpc := WWrite (fst (next_packet (input s))), input := snd (next_packet (input s))\<rparr>)
      | WWrite buffer \<Rightarrow>
          Some (if ok then s\<lparr>written := written s @ [buffer], wpc := WTest buffer\<rparr> else s\<lparr>left := Some 1\<rparr>)
      | WTest buffer \<Rightarrow> Some (s\<lparr>wpc := if is_command buffer then WCancel else WGets\<rparr>)
      | WCancel \<Rightarrow> Some (s\<lparr>rcancelled := True, wpc := WDone\<rparr>)
      | WDone \<Rightarrow> None)"

definition chatter_main :: "chatter \<Rightarrow> chatter option" where
  "chatter_main s =
     (case jpc s of
        JReader \<Rightarrow> if rpc s = RDone then Some (s\<lparr>jpc := JWriter\<rparr>) else None
      | JWriter \<Rightarrow> if wpc s = WDone then Some (s\<lparr>jpc := JClosed\<rparr>) else None
      | JClosed \<Rightarrow> None)"

datatype chatter_event = Reader received | Writer bool | Joiner

fun chatter_next :: "chatter \<Rightarrow> chatter_event \<Rightarrow> chatter option" where
  "chatter_next s e =
     (if left s \<noteq> None \<or> overread s then None
      else case e of
        Reader k \<Rightarrow> read_func s k
      | Writer ok \<Rightarrow> write_func s ok
      | Joiner \<Rightarrow> chatter_main s)"

declare chatter_next.simps [simp del]

text \<open>The packets the writer has taken from the input.\<close>

fun pending :: "writer_pc \<Rightarrow> u8 list list" where
  "pending (WWrite buffer) = [buffer]"
| "pending _ = []"

definition taken_inv :: "u8 list \<Rightarrow> chatter \<Rightarrow> bool" where
  "taken_inv inp s \<longleftrightarrow> (\<exists>ps z. pieces inp = ps @ pieces (input s) \<and> (z \<noteq> 0 \<longrightarrow> input s = [])
     \<and> written s @ pending (wpc s) = map packet ps @ replicate z (packet []))"

definition command_inv :: "chatter \<Rightarrow> bool" where
  "command_inv s \<longleftrightarrow>
     (case wpc s of
        WGets \<Rightarrow> \<forall>p \<in> set (written s). \<not> is_command p
      | WWrite b \<Rightarrow> \<forall>p \<in> set (written s). \<not> is_command p
      | WTest b \<Rightarrow> (\<exists>ps. written s = ps @ [b] \<and> (\<forall>p \<in> set ps. \<not> is_command p))
      | _ \<Rightarrow> (\<exists>ps b. written s = ps @ [b] \<and> is_command b \<and> (\<forall>p \<in> set ps. \<not> is_command p)))
     \<and> (rcancelled s \<longleftrightarrow> wpc s = WDone) \<and> (rpc s = RDone \<longrightarrow> rcancelled s)
     \<and> (jpc s \<noteq> JReader \<longrightarrow> rpc s = RDone) \<and> (jpc s = JClosed \<longrightarrow> wpc s = WDone)"

lemma command_inv_step: "command_inv s \<Longrightarrow> chatter_next s e = Some u \<Longrightarrow> command_inv u"
  by (cases e; cases "wpc s")
     (auto simp: chatter_next.simps read_func_def write_func_def chatter_main_def command_inv_def
       split: if_splits option.splits reader_pc.splits received.splits joiner_pc.splits)

lemma taken_inv_step:
  assumes inv: "taken_inv inp s" and step: "chatter_next s e = Some u"
  shows "taken_inv inp u"
proof -
  obtain ps z where s: "pieces inp = ps @ pieces (input s)" "z \<noteq> 0 \<longrightarrow> input s = []"
      "written s @ pending (wpc s) = map packet ps @ replicate z (packet [])" using inv by (auto simp: taken_inv_def)
  show ?thesis
  proof (cases "\<exists>ok. e = Writer ok \<and> wpc s = WGets")
    case True
    then have u: "u = s\<lparr>wpc := WWrite (fst (next_packet (input s))), input := snd (next_packet (input s))\<rparr>"
      using step by (auto simp: chatter_next.simps write_func_def split: if_splits)
    show ?thesis
    proof (cases "input s = []")
      case True
      then have "taken_inv inp u \<longleftrightarrow> taken_inv inp (s\<lparr>wpc := WWrite (packet [])\<rparr>)" by (simp add: u taken_inv_def)
      moreover have "written s @ [packet []] = map packet ps @ replicate (Suc z) (packet [])"
        using s(3) \<open>\<exists>ok. _\<close> by (auto simp flip: replicate_append_same)
      ultimately show ?thesis using s True unfolding taken_inv_def by (auto intro!: exI [of _ ps] exI [of _ "Suc z"])
    next
      case False
      let ?l = "fst (fgets_line MSG_BUFFER_SIZE (input s))" and ?r = "snd (fgets_line MSG_BUFFER_SIZE (input s))"
      have "pieces (input s) = ?l # pieces ?r" using False by (subst pieces.simps) simp
      moreover have "z = 0" using s(2) False by auto
      ultimately show ?thesis using s next_packet_piece [OF False] \<open>\<exists>ok. _\<close>
        unfolding taken_inv_def u by (auto intro!: exI [of _ "ps @ [?l]"] exI [of _ 0])
    qed
  next
    case False
    then have "input u = input s" "left u = None \<Longrightarrow> written u @ pending (wpc u) = written s @ pending (wpc s)"
        "left u \<noteq> None \<Longrightarrow> written u = written s \<and> wpc u = wpc s"
      using step by (cases e; auto simp: chatter_next.simps read_func_def write_func_def chatter_main_def
          split: if_splits option.splits reader_pc.splits received.splits joiner_pc.splits writer_pc.splits)+
    with s show ?thesis by (cases "left u") (auto simp: taken_inv_def)
  qed
qed

definition chatter_inv :: "u8 list \<Rightarrow> chatter \<Rightarrow> bool" where
  "chatter_inv inp s \<longleftrightarrow> taken_inv inp s \<and> command_inv s"

lemma chatter_init_inv: "chatter_inv inp (chatter_init inp)"
  by (auto simp: chatter_inv_def taken_inv_def command_inv_def chatter_init_def intro!: exI [of _ "[]"] exI [of _ 0])

lemma chatter_inv_step: "chatter_inv inp s \<Longrightarrow> chatter_next s e = Some u \<Longrightarrow> chatter_inv inp u"
  by (auto simp: chatter_inv_def intro: taken_inv_step command_inv_step)

interpretation chatter: machine_inv chatter_next "\<lambda>s. s = chatter_init inp" "chatter_inv inp"
  by unfold_locales (auto intro: chatter_init_inv chatter_inv_step)

text \<open>
  When the client closes its connection, both threads have ended, and it has sent the pieces of its
  input, one packet each, up to the first command and nothing after it.
\<close>

theorem chatter_sends:
  assumes "reach chatter_next (chatter_init inp) s" "jpc s = JClosed"
  shows "rpc s = RDone \<and> wpc s = WDone
    \<and> (\<exists>ps c rest. pieces inp = ps @ c # rest \<and> written s = map packet (ps @ [c]) \<and> is_command (packet c)
         \<and> (\<forall>p \<in> set ps. \<not> is_command (packet p)))"
proof -
  have inv: "taken_inv inp s" "command_inv s" using chatter.reach_inv [OF assms(1) refl] by (simp_all add: chatter_inv_def)
  then have pcs: "rpc s = RDone" "wpc s = WDone" using assms(2) by (auto simp: command_inv_def)
  obtain ps z where t: "pieces inp = ps @ pieces (input s)" "written s = map packet ps @ replicate z (packet [])"
    using inv(1) pcs by (auto simp: taken_inv_def)
  obtain qs b where c: "written s = qs @ [b]" "is_command b" "\<forall>p \<in> set qs. \<not> is_command p"
    using inv(2) pcs by (auto simp: command_inv_def)
  have "z = 0"
  proof (rule ccontr)
    assume "z \<noteq> 0"
    then obtain y where "z = Suc y" by (cases z) auto
    then have "last (written s) = packet []" by (simp add: t(2) flip: replicate_append_same)
    with c(1,2) no_command_Nil show False by simp
  qed
  with t(2) c(1) have "map packet ps = qs @ [b]" by simp
  then obtain as d where d: "ps = as @ [d]" "map packet as = qs" "packet d = b"
    by (cases ps rule: rev_cases) auto
  have "pieces inp = as @ d # pieces (input s)" using t(1) d(1) by simp
  moreover have "written s = map packet (as @ [d])" using c(1) d(2,3) by simp
  moreover have "is_command (packet d)" "\<forall>p \<in> set as. \<not> is_command (packet p)" using c(2,3) d(2,3) by auto
  ultimately show ?thesis using pcs by blast
qed

text \<open>Whatever has happened, a command among the pieces still to come ends the client.\<close>

lemma writer_ends:
  assumes "left s = None" "\<not> overread s" "wpc s = WGets" "\<exists>p \<in> set (pieces (input s)). is_command (packet p)"
  shows "\<exists>es u. run chatter_next s es = Some u \<and> wpc u = WDone \<and> rcancelled u \<and> left u = None \<and> \<not> overread u
    \<and> rpc u = rpc s \<and> jpc u = jpc s"
  using assms
proof (induction "input s" arbitrary: s rule: pieces.induct)
  case 1
  let ?l = "fst (fgets_line MSG_BUFFER_SIZE (input s))" and ?r = "snd (fgets_line MSG_BUFFER_SIZE (input s))"
  have ne: "input s \<noteq> []" using 1 by auto
  then have p: "pieces (input s) = ?l # pieces ?r" by (subst pieces.simps) simp
  let ?s = "s\<lparr>input := ?r, written := written s @ [packet ?l], wpc := if is_command (packet ?l) then WCancel else WGets\<rparr>"
  have run: "run chatter_next s (replicate 3 (Writer True)) = Some ?s"
    using 1 next_packet_piece [OF ne] by (simp add: eval_nat_numeral chatter_next.simps write_func_def)
  show ?case
  proof (cases "is_command (packet ?l)")
    case True
    let ?u = "?s\<lparr>rcancelled := True, wpc := WDone\<rparr>"
    have "run chatter_next ?s [Writer True] = Some ?u" using 1 True by (simp add: chatter_next.simps write_func_def)
    then have "run chatter_next s (replicate 3 (Writer True) @ [Writer True]) = Some ?u"
      unfolding run_append run by simp
    then show ?thesis using 1 by (intro exI [of _ "replicate 3 (Writer True) @ [Writer True]"] exI [of _ ?u]) simp
  next
    case False
    have "?r = input ?s" "\<exists>p \<in> set (pieces (input ?s)). is_command (packet p)" using 1 p False by simp_all
    with 1(1) [OF ne, of ?s] 1 False obtain es u where "run chatter_next ?s es = Some u" "wpc u = WDone" "rcancelled u"
        "left u = None" "\<not> overread u" "rpc u = rpc s" "jpc u = jpc s" by auto
    moreover from this(1) have "run chatter_next s (replicate 3 (Writer True) @ es) = Some u"
      unfolding run_append run by simp
    ultimately show ?thesis by blast
  qed
qed

lemma joiner_ends:
  assumes "left s = None" "\<not> overread s" "wpc s = WDone" "rcancelled s" "jpc s \<noteq> JReader \<longrightarrow> rpc s = RDone"
  shows "\<exists>es u. run chatter_next s es = Some u \<and> jpc u = JClosed"
proof -
  have run: "run chatter_next s ((if rpc s = RRead then [Reader Failure] else [])
      @ (case jpc s of JReader \<Rightarrow> [Joiner, Joiner] | JWriter \<Rightarrow> [Joiner] | JClosed \<Rightarrow> []))
      = Some (s\<lparr>rpc := RDone, jpc := JClosed\<rparr>)"
    using assms by (cases "rpc s"; cases "jpc s")
      (simp_all add: chatter_next.simps read_func_def chatter_main_def)
  then show ?thesis by fastforce
qed

lemma chatter_from_done:
  assumes "reach chatter_next (chatter_init inp) s" "left s = None" "\<not> overread s" "wpc s = WDone"
  shows "\<exists>es u. run chatter_next s es = Some u \<and> jpc u = JClosed"
proof -
  have "command_inv s" using chatter.reach_inv [OF assms(1) refl] by (simp add: chatter_inv_def)
  with assms show ?thesis by (intro joiner_ends) (auto simp: command_inv_def)
qed

lemma chatter_from_gets:
  assumes reach: "reach chatter_next (chatter_init inp) s" and ok: "left s = None" "\<not> overread s" and gets: "wpc s = WGets"
    and command: "\<exists>p \<in> set (pieces inp). is_command (packet p)"
  shows "\<exists>es u. run chatter_next s es = Some u \<and> jpc u = JClosed"
proof -
  have inv: "taken_inv inp s" "command_inv s" using chatter.reach_inv [OF reach refl] by (simp_all add: chatter_inv_def)
  obtain ps z where t: "pieces inp = ps @ pieces (input s)" "written s = map packet ps @ replicate z (packet [])"
    using inv(1) gets by (auto simp: taken_inv_def)
  have "\<forall>p \<in> set (written s). \<not> is_command p" using inv(2) gets by (simp add: command_inv_def)
  with t command have "\<exists>p \<in> set (pieces (input s)). is_command (packet p)" by auto
  from writer_ends [OF ok gets this] obtain es u where u: "run chatter_next s es = Some u" "wpc u = WDone"
      "left u = None" "\<not> overread u" by blast
  from chatter_from_done [OF reach_run_from [OF reach u(1)] u(3,4,2)] obtain fs w where
    "run chatter_next u fs = Some w" "jpc w = JClosed" by blast
  with u(1) have "run chatter_next s (es @ fs) = Some w \<and> jpc w = JClosed" by (simp add: run_append)
  then show ?thesis by blast
qed

text \<open>
  As long as no call has failed, the client can still get to its end, whatever it has been sent,
  when its input has a command.
\<close>

theorem chatter_can_end:
  assumes reach: "reach chatter_next (chatter_init inp) s" and ok: "left s = None" "\<not> overread s"
    and command: "\<exists>p \<in> set (pieces inp). is_command (packet p)"
  shows "\<exists>es u. run chatter_next s es = Some u \<and> jpc u = JClosed"
proof -
  have "\<exists>es u. run chatter_next s es = Some u \<and> (wpc u = WGets \<or> wpc u = WDone) \<and> left u = None \<and> \<not> overread u"
  proof (cases "wpc s")
    case (WWrite b)
    then have "run chatter_next s (replicate (if is_command b then 3 else 2) (Writer True)) =
        Some (s\<lparr>written := written s @ [b], wpc := if is_command b then WDone else WGets, rcancelled := (rcancelled s \<or> is_command b)\<rparr>)"
      using ok by (simp add: eval_nat_numeral chatter_next.simps write_func_def)
    then show ?thesis using ok by (intro exI conjI) (assumption | simp)+
  next
    case (WTest b)
    then have "run chatter_next s (replicate (if is_command b then 2 else 1) (Writer True)) =
        Some (s\<lparr>wpc := if is_command b then WDone else WGets, rcancelled := (rcancelled s \<or> is_command b)\<rparr>)"
      using ok by (simp add: eval_nat_numeral chatter_next.simps write_func_def)
    then show ?thesis using ok by (intro exI conjI) (assumption | simp)+
  next
    case WCancel
    then have "run chatter_next s [Writer True] = Some (s\<lparr>rcancelled := True, wpc := WDone\<rparr>)"
      using ok by (simp add: chatter_next.simps write_func_def)
    then show ?thesis using ok by (intro exI conjI) (assumption | simp)+
  qed (use ok in \<open>auto intro!: exI [of _ "[]"]\<close>)
  then obtain es u where u: "run chatter_next s es = Some u" "wpc u = WGets \<or> wpc u = WDone" "left u = None" "\<not> overread u"
    by blast
  have r: "reach chatter_next (chatter_init inp) u" by (rule reach_run_from [OF reach u(1)])
  obtain fs w where "run chatter_next u fs = Some w" "jpc w = JClosed"
    using u(2) chatter_from_gets [OF r u(3,4) _ command] chatter_from_done [OF r u(3,4)] by blast
  with u(1) have "run chatter_next s (es @ fs) = Some w \<and> jpc w = JClosed" by (simp add: run_append)
  then show ?thesis by blast
qed

definition quit_line :: cstring where
  "quit_line = bytes ''/quit'' @ [10]"

lemma quit_line:
  "next_packet quit_line = (packet quit_line, [])" "is_command (packet quit_line)" "pieces quit_line = [quit_line]"
proof -
  have short: "short_line (bytes ''/quit'')" by (simp add: short_line_def bytes_def c_string_def)
  show p: "pieces quit_line = [quit_line]"
    using pieces_line [of "bytes ''/quit''" "[]"] short by (simp add: quit_line_def short_line_def)
  show "is_command (packet quit_line)" using packet_of_line(2) [OF short] by (simp add: quit_line_def)
  have "fgets_line MSG_BUFFER_SIZE quit_line = (quit_line, [])"
    using fgets_one_line [of "bytes ''/quit''" MSG_BUFFER_SIZE "[]"] short
    by (simp add: quit_line_def short_line_def MSG_BUFFER_SIZE_def)
  then show "next_packet quit_line = (packet quit_line, [])"
    using next_packet_piece [of quit_line] by (simp add: quit_line_def prod_eq_iff)
qed

definition quit_run :: "chatter_event list" where
  "quit_run = [Reader (Bytes [65]), Writer True, Writer True, Writer True, Writer True, Reader Failure, Joiner, Joiner]"

lemma client_prints_A: "client_prints [65] = Some [65]"
  by (simp add: client_prints_def string_at_packet c_string_def MSG_BUFFER_SIZE_def)

lemma quit_run: "\<exists>s. run chatter_next (chatter_init quit_line) quit_run = Some s \<and> jpc s = JClosed"
  using quit_line(1,2) client_prints_A
  by (simp add: quit_run_def chatter_init_def chatter_next.simps read_func_def write_func_def chatter_main_def MSG_BUFFER_SIZE_def)

theorem chatter_sends_witness:
  "\<exists>s. run chatter_next (chatter_init quit_line) quit_run = Some s \<and> jpc s = JClosed \<and> written s = [packet quit_line]"
proof -
  obtain s where s: "run chatter_next (chatter_init quit_line) quit_run = Some s" "jpc s = JClosed" using quit_run by blast
  from chatter_sends [OF run_reach [OF s(1)] s(2)] obtain ps c rest
    where "[quit_line] = ps @ c # rest" "written s = map packet (ps @ [c])" by (auto simp: quit_line(3))
  then have "written s = [packet quit_line]" by (cases ps) auto
  with s show ?thesis by blast
qed

theorem chatter_can_end_witness:
  "\<exists>es u. run chatter_next (chatter_init quit_line) es = Some u \<and> jpc u = JClosed"
  using chatter_can_end [OF reach_start, of quit_line] quit_line(2,3) by (simp add: chatter_init_def)

end
