(* ===== verification/ChatRoom.thy ===== *)
theory ChatRoom
  imports Broadcast BroadcastClient
begin

text \<open>
  A server of \<open>Broadcast\<close> together with its clients, the processes of \<open>BroadcastClient\<close>: the
  connections are streams of bytes, one for each direction.
\<close>

section \<open>The system\<close>

text \<open>
  The descriptor the server has for a connection names the client at its other end; \<open>seen\<close> are the
  descriptors \<^verbatim>\<open>accept\<close> has given, which are taken not to be used for a second connection. \<open>up\<close> has
  been sent by the client and not been read by the server, \<open>down\<close> the other way round.
\<close>

record room =
  srv :: server
  cli :: "int \<Rightarrow> chatter"
  up :: "int \<Rightarrow> u8 list"
  down :: "int \<Rightarrow> u8 list"
  seen :: "int list"

definition room_init :: "server \<Rightarrow> (int \<Rightarrow> u8 list) \<Rightarrow> (int \<Rightarrow> u8 list) \<Rightarrow> room" where
  "room_init s nms inputs =
     \<lparr>srv = s, cli = (\<lambda>fd. chatter_init (inputs fd)), up = nms, down = (\<lambda>_. []), seen = []\<rparr>"

text \<open>What the server has written goes to the connections.\<close>

definition route :: "(int \<times> u8 list) list \<Rightarrow> (int \<Rightarrow> u8 list) \<Rightarrow> int \<Rightarrow> u8 list" where
  "route ms d = foldl (\<lambda>d (fd, m). d(fd := d fd @ m)) d ms"

definition serve :: "task \<Rightarrow> bevent \<Rightarrow> room \<Rightarrow> room option" where
  "serve v e r =
     map_option (\<lambda>s. r\<lparr>srv := s, down := route (drop (length (sent (srv r))) (sent s)) (down r)\<rparr>)
       (server_next v (srv r) e)"

text \<open>
  \<open>Receive t n\<close>: thread \<open>t\<close> of the server gets \<open>n\<close> of the bytes that have arrived; \<open>Prints fd n\<close>: a
  client does. \<open>Types fd\<close> is a step of a client's writer, \<open>Leaves fd\<close> of the threads that are ending.
\<close>

datatype room_event = Serve bevent | Receive nat nat | Types int bool | Prints int nat | Leaves int chatter_event

definition receive :: "task \<Rightarrow> room \<Rightarrow> nat \<Rightarrow> nat \<Rightarrow> room option" where
  "receive v r t n =
     (let fd = cfd (srv r) ! t
      in if bpc (srv r) t \<in> {BName, BRead} \<and> 0 < n \<and> n \<le> MSG_BUFFER_SIZE \<and> n \<le> length (up r fd)
         then map_option (\<lambda>s. r\<lparr>srv := s, up := (up r)(fd := drop n (up r fd))\<rparr>)
                (server_next v (srv r) (Client t (Data (take n (up r fd)))))
         else None)"

definition types :: "room \<Rightarrow> int \<Rightarrow> bool \<Rightarrow> room option" where
  "types r fd ok =
     map_option (\<lambda>c. r\<lparr>cli := (cli r)(fd := c),
                       up := (up r)(fd := up r fd @ concat (drop (length (written (cli r fd))) (written c)))\<rparr>)
       (chatter_next (cli r fd) (Writer ok))"

definition prints :: "room \<Rightarrow> int \<Rightarrow> nat \<Rightarrow> room option" where
  "prints r fd n =
     (if \<not> rcancelled (cli r fd) \<and> 0 < n \<and> n \<le> MSG_BUFFER_SIZE \<and> n \<le> length (down r fd)
      then map_option (\<lambda>c. r\<lparr>cli := (cli r)(fd := c), down := (down r)(fd := drop n (down r fd))\<rparr>)
             (chatter_next (cli r fd) (Reader (Bytes (take n (down r fd)))))
      else None)"

fun room_next :: "task \<Rightarrow> room \<Rightarrow> room_event \<Rightarrow> room option" where
  "room_next v r (Serve e) =
     (case e of
        Listener (Fd fd) \<Rightarrow> if fd \<in> set (seen r) then None else serve v e (r\<lparr>seen := fd # seen r\<rparr>)
      | Client t (Data bs) \<Rightarrow> None
      | _ \<Rightarrow> serve v e r)"
| "room_next v r (Receive t n) = receive v r t n"
| "room_next v r (Types fd ok) = types r fd ok"
| "room_next v r (Prints fd n) = prints r fd n"
| "room_next v r (Leaves fd e) =
     (if e \<in> {Joiner, Reader Failure}
      then map_option (\<lambda>c. r\<lparr>cli := (cli r)(fd := c)\<rparr>) (chatter_next (cli r fd) e)
      else None)"

section \<open>The parts of a run\<close>

lemma route_Nil [simp]: "route [] d = d"
  by (simp add: route_def)

lemma route_append: "route (xs @ ys) d = route ys (route xs d)"
  by (simp add: route_def)

lemma route_at: "route ms d fd = d fd @ concat (map snd (filter (\<lambda>m. fst m = fd) ms))"
  by (induction ms arbitrary: d) (auto simp: route_def)

text \<open>Every step of the system is a step of the server, of one client, or of both.\<close>

lemma room_step_server:
  assumes "room_next v r e = Some u"
  shows "srv u = srv r \<or> (\<exists>e'. server_next v (srv r) e' = Some (srv u))"
  using assms
  by (cases e)
     (auto simp: serve_def receive_def types_def prints_def Let_def split: bevent.splits answer.splits if_splits)

lemma room_step_client:
  assumes "room_next v r e = Some u"
  shows "cli u fd = cli r fd \<or> (\<exists>e'. chatter_next (cli r fd) e' = Some (cli u fd))"
  using assms
  by (cases e)
     (auto simp: serve_def receive_def types_def prints_def Let_def split: bevent.splits answer.splits if_splits)

lemma room_reach_parts:
  assumes "reach (room_next v) (room_init s0 nms inputs) r"
  shows "reach (server_next v) s0 (srv r) \<and> reach chatter_next (chatter_init (inputs fd)) (cli r fd)"
  using assms
proof (induction rule: reach.induct)
  case reach_start
  show ?case by (simp add: room_init_def reach.reach_start)
next
  case (reach_step r e u)
  then show ?case
    using room_step_server [OF reach_step.hyps(2)] room_step_client [OF reach_step.hyps(2), of fd]
    by (metis reach.reach_step)
qed

lemma sent_grows:
  assumes "server_next v s e = Some u"
  shows "\<exists>ms. sent u = sent s @ ms"
proof (cases e)
  case (Listener k)
  with assms show ?thesis
    by (cases "npc s") (auto simp: server_next.simps listener_step_def cond_signal_def unlock_def split: answer.splits if_splits)
next
  case (Client t k)
  have h: "sent (handle v s t buf) = sent s" for buf
    by (cases v) (auto simp: handle_def task1_message_def task2_message_def task3_message_def compose_def
      undefined_unless_def goto_def split: option.splits prod.splits)
  from Client assms h show ?thesis
    by (cases "bpc s t")
       (auto simp: server_next.simps client_step_def undefined_unless_def goto_def Let_def
         split: answer.splits if_splits option.splits)
next
  case (Main k)
  with assms show ?thesis
    by (cases "opc s") (auto simp: server_next.simps main_step_def unlock_def goto_def split: answer.splits if_splits)
qed

lemma lift_thread:
  assumes "run (server_next v) (srv r) (replicate n (Client t Done)) = Some u"
  shows "run (room_next v) r (replicate n (Serve (Client t Done))) =
    Some (r\<lparr>srv := u, down := route (drop (length (sent (srv r))) (sent u)) (down r)\<rparr>)
    \<and> (\<exists>ms. sent u = sent (srv r) @ ms)"
  using assms
proof (induction n arbitrary: r)
  case (Suc n)
  then obtain w where w: "server_next v (srv r) (Client t Done) = Some w"
      "run (server_next v) w (replicate n (Client t Done)) = Some u" by (auto split: option.splits)
  obtain ms where ms: "sent w = sent (srv r) @ ms" using sent_grows [OF w(1)] by blast
  let ?r = "r\<lparr>srv := w, down := route ms (down r)\<rparr>"
  have step: "room_next v r (Serve (Client t Done)) = Some ?r" using w(1) ms by (simp add: serve_def)
  from Suc.IH [of ?r] w(2) obtain ms' where
    rest: "run (room_next v) ?r (replicate n (Serve (Client t Done))) =
        Some (?r\<lparr>srv := u, down := route (drop (length (sent w)) (sent u)) (down ?r)\<rparr>)" "sent u = sent w @ ms'" by auto
  with step ms show ?case by (simp add: route_append)
qed simp

section \<open>A line on its way\<close>

text \<open>An ordinary line: no command, and in task 3 no whisper.\<close>

definition plain_line :: "task \<Rightarrow> u8 list \<Rightarrow> bool" where
  "plain_line v l \<longleftrightarrow> short_line l \<and> l \<notin> {bytes ''/quit'', bytes ''/shutdown''}
     \<and> (v = Broadcasts \<or> v = Whispers \<and> take 2 l \<noteq> bytes ''/w'')"

lemma plain_packet:
  assumes "plain_line v l"
  defines "buf \<equiv> packet (packet (l @ [10]))"
  shows "string_at buf 0 = Some (l @ [10])" "\<not> is_quit buf" "\<not> is_shutdown buf"
    "v = Broadcasts \<or> v = Whispers \<and> \<not> is_whisper buf" "length (packet (l @ [10])) = MSG_BUFFER_SIZE"
proof -
  have l: "short_line l" using assms(1) by (simp add: plain_line_def)
  then have c: "c_string (l @ [10])" "length (l @ [10]) < MSG_BUFFER_SIZE"
    by (simp_all add: short_line_def c_string_def MSG_BUFFER_SIZE_def)
  show len: "length (packet (l @ [10])) = MSG_BUFFER_SIZE" using c(2) by simp
  then have buf: "buf = packet (l @ [10])" by (simp add: buf_def packet_def [of "packet (l @ [10])"] read_into_def)
  have cs: "cstr buf = l @ [10]" using c unfolding buf by simp
  show "string_at buf 0 = Some (l @ [10])" unfolding buf by (rule string_at_packet [OF c])
  show "\<not> is_quit buf" "\<not> is_shutdown buf"
    using assms(1) by (auto simp: is_quit_def is_shutdown_def cs plain_line_def)
  have "\<not> is_whisper buf" if "take 2 l \<noteq> bytes ''/w''"
  proof (cases l)
    case Nil
    then show ?thesis by (simp add: is_whisper_def cs) (simp add: bytes_def cstr_def)
  next
    case (Cons a l')
    then show ?thesis using that l unfolding is_whisper_def cs
      by (cases l') (auto simp: bytes_def cstr_def short_line_def c_string_def)
  qed
  then show "v = Broadcasts \<or> v = Whispers \<and> \<not> is_whisper buf" using assms(1) by (auto simp: plain_line_def)
qed

text \<open>The client reads the line and sends it.\<close>

lemma types_line:
  assumes "wpc (cli r fd) = WGets" "left (cli r fd) = None" "\<not> overread (cli r fd)" "input (cli r fd) = l @ [10] @ rest"
    and "short_line l"
  shows "run (room_next v) r [Types fd True, Types fd True] =
    Some (r\<lparr>cli := (cli r)(fd := (cli r fd)\<lparr>input := rest, written := written (cli r fd) @ [packet (l @ [10])],
                                        wpc := WTest (packet (l @ [10]))\<rparr>),
            up := (up r)(fd := up r fd @ packet (l @ [10]))\<rparr>)"
proof -
  have l: "10 \<notin> set l" "length l < 127" using assms(5) by (simp_all add: short_line_def)
  have "fgets_line MSG_BUFFER_SIZE (l @ 10 # rest) = (l @ [10], rest)"
    using fgets_one_line [of l MSG_BUFFER_SIZE rest] l by (simp add: MSG_BUFFER_SIZE_def)
  then have "next_packet (input (cli r fd)) = (packet (l @ [10]), rest)"
    using next_packet_piece [of "l @ 10 # rest"] by (simp add: assms(4) prod_eq_iff)
  then show ?thesis
    using assms(1-3) by (simp add: types_def chatter_next.simps write_func_def)
qed

lemma prints_text:
  assumes "rpc (cli r fd) = RRead" "\<not> rcancelled (cli r fd)" "left (cli r fd) = None" "\<not> overread (cli r fd)"
    and "length (down r fd) \<ge> MSG_BUFFER_SIZE" "client_prints (take MSG_BUFFER_SIZE (down r fd)) = Some x"
  shows "room_next v r (Prints fd MSG_BUFFER_SIZE) =
    Some (r\<lparr>cli := (cli r)(fd := (cli r fd)\<lparr>shown := shown (cli r fd) @ [x]\<rparr>),
            down := (down r)(fd := drop MSG_BUFFER_SIZE (down r fd))\<rparr>)"
proof -
  have "0 < MSG_BUFFER_SIZE" by (simp add: MSG_BUFFER_SIZE_def)
  with assms show ?thesis by (simp add: prints_def chatter_next.simps read_func_def)
qed

text \<open>One message is routed to slot \<open>j\<close>, as all descriptors differ.\<close>

lemma routed_once:
  assumes d: "distinct (map (\<lambda>i. cfd s ! i) (filter (\<lambda>i. cfd s ! i \<noteq> 0) [0..<N]))"
    and j: "j < N" "cfd s ! j \<noteq> 0" "j \<noteq> t"
  shows "filter (\<lambda>x. fst x = cfd s ! j) (map (\<lambda>i. (cfd s ! i, m)) (filter (\<lambda>i. cfd s ! i \<noteq> 0 \<and> i \<noteq> t) [0..<N]))
    = [(cfd s ! j, m)]"
proof -
  have "i = j" if "i < N" "cfd s ! i = cfd s ! j" for i
    using d that j by (auto simp: distinct_map inj_on_def)
  then have "filter (\<lambda>i. (cfd s ! i \<noteq> 0 \<and> i \<noteq> t) \<and> cfd s ! i = cfd s ! j) [0..<N] = filter (\<lambda>i. i = j) [0..<N]"
    using j by (intro filter_cong) auto
  also have "\<dots> = [j]"
  proof -
    have "[0..<N] = [0..<j] @ j # [Suc j..<N]" using j(1) by (metis upt_add_eq_append upt_conv_Cons le_eq_less_or_eq le_add_diff_inverse zero_le)
    then show ?thesis by simp
  qed
  finally show ?thesis by (simp add: filter_map comp_def)
qed

lemma slots_differ:
  assumes "reach (server_next v) s0 s" "server_start s0" "running t s" "j < CLIENT_NUM" "j \<noteq> t" "cfd s ! j \<noteq> 0"
    and "\<not> closing (bpc s t)" "\<forall>u < created s. \<not> closing (bpc s u)" "cfd s ! t \<noteq> 0"
  shows "cfd s ! j \<noteq> cfd s ! t"
proof -
  have inv: "slots_inv s" "filled_inv s" using broadcast.reach_inv [OF assms(1,2)] by (simp_all add: server_inv_def)
  then have "t < CLIENT_NUM" using assms(3) by (auto simp: running_def filled_inv_def)
  with assms have "connected s j" "connected s t" by (auto simp: connected_def)
  with inv(1) assms(5) show ?thesis by (auto simp: slots_inv_def)
qed

text \<open>The server takes the packet apart and sends the line with the name to all others.\<close>

lemma server_forwards:
  assumes reach: "reach (server_next v) s0 s" "server_start s0" and run: "running t s" and pc: "bpc s t = BRead"
    and line: "plain_line v l" and name: "string_at (names s ! t) 0 = Some nm"
    and unclosed: "\<forall>u < created s. \<not> closing (bpc s u)"
  shows "\<exists>w n u m. server_next v s (Client t (Data (packet (l @ [10])))) = Some w
    \<and> run (server_next v) w (replicate n (Client t Done)) = Some u \<and> bpc u t = BRead
    \<and> sent w = sent s \<and> sent u = sent s @ map (\<lambda>j. (cfd s ! j, m)) (filter (\<lambda>j. cfd s ! j \<noteq> 0 \<and> j \<noteq> t) [0..<CLIENT_NUM])
    \<and> distinct (map (\<lambda>j. cfd s ! j) (filter (\<lambda>j. cfd s ! j \<noteq> 0) [0..<CLIENT_NUM]))
    \<and> length m = 2 * MSG_BUFFER_SIZE
    \<and> (length (nm @ bytes '': '' @ l @ [10]) < MSG_BUFFER_SIZE
        \<longrightarrow> client_prints (take MSG_BUFFER_SIZE m) = Some (nm @ bytes '': '' @ l @ [10]))"
proof -
  note p = plain_packet [OF line]
  let ?b = "packet (packet (l @ [10]))"
  let ?w = "goto t (BHandle ?b) s"
  have step: "server_next v s (Client t (Data (packet (l @ [10])))) = Some ?w"
    using run pc p(5) by (simp add: client_runs client_step_def)
  have w: "reach (server_next v) s0 ?w" by (rule reach.reach_step [OF reach(1) step])
  have run_w: "running t ?w" and pc_w: "bpc ?w t = BHandle ?b" and open_w: "\<forall>u < created ?w. \<not> closing (bpc ?w u)"
    and same: "names ?w = names s" "cfd ?w = cfd s" "sent ?w = sent s" using run unclosed by (auto simp: running_def goto_def)
  have say: "say_text (names ?w ! t) ?b = Some (nm @ bytes '': '' @ l @ [10])"
    using name p(1) by (simp add: say_text_def goto_def)
  note message_run [OF w reach(2) run_w p(4) pc_w p(2,3) say open_w, unfolded same]
  with step same(3) show ?thesis by blast
qed

text \<open>The client in slot \<open>t\<close> is about to read the line \<open>l\<close>, and the server waits for it.\<close>

definition about_to_say :: "room \<Rightarrow> nat \<Rightarrow> cstring \<Rightarrow> u8 list \<Rightarrow> u8 list \<Rightarrow> bool" where
  "about_to_say r t nm l rest \<longleftrightarrow>
     (let c = cli r (cfd (srv r) ! t)
      in running t (srv r) \<and> bpc (srv r) t = BRead \<and> string_at (names (srv r) ! t) 0 = Some nm
         \<and> up r (cfd (srv r) ! t) = [] \<and> wpc c = WGets \<and> left c = None \<and> \<not> overread c \<and> input c = l @ [10] @ rest)"

text \<open>The client in slot \<open>j\<close> has read everything and goes on reading.\<close>

definition listening :: "room \<Rightarrow> nat \<Rightarrow> bool" where
  "listening r j \<longleftrightarrow>
     (let c = cli r (cfd (srv r) ! j)
      in j < CLIENT_NUM \<and> cfd (srv r) ! j \<noteq> 0 \<and> down r (cfd (srv r) ! j) = []
         \<and> rpc c = RRead \<and> \<not> rcancelled c \<and> left c = None \<and> \<not> overread c)"

text \<open>C14: From the keyboard of one client to the screen of another: the server and its clients together
  can bring every ordinary line to every other client that listens, which prints it with the name
  of the sender.\<close>

theorem line_travels:
  assumes reach: "reach (room_next v) (room_init s0 nms inputs) r" "server_start s0"
    and say: "about_to_say r t nm l rest" and line: "plain_line v l" "length (nm @ bytes '': '' @ l @ [10]) < MSG_BUFFER_SIZE"
    and listening: "listening r j" "j \<noteq> t" and unclosed: "\<forall>u < created (srv r). \<not> closing (bpc (srv r) u)"
  shows "\<exists>es u. run (room_next v) r es = Some u
    \<and> shown (cli u (cfd (srv r) ! j)) = shown (cli r (cfd (srv r) ! j)) @ [nm @ bytes '': '' @ l @ [10]]
    \<and> input (cli u (cfd (srv r) ! t)) = rest \<and> bpc (srv u) t = BRead"
proof -
  let ?s = "srv r" and ?a = "cfd (srv r) ! t" and ?b = "cfd (srv r) ! j" and ?p = "packet (l @ [10])"
    and ?text = "nm @ bytes '': '' @ l @ [10]"
  have short: "short_line l" using line(1) by (simp add: plain_line_def)
  have server: "reach (server_next v) s0 ?s" using room_reach_parts [OF reach(1)] by blast
  have A: "running t ?s" "bpc ?s t = BRead" "string_at (names ?s ! t) 0 = Some nm" "up r ?a = []" "wpc (cli r ?a) = WGets"
      "left (cli r ?a) = None" "\<not> overread (cli r ?a)" "input (cli r ?a) = l @ [10] @ rest"
    using say by (simp_all add: about_to_say_def Let_def)
  have B: "j < CLIENT_NUM" "?b \<noteq> 0" "down r ?b = []" "rpc (cli r ?b) = RRead" "\<not> rcancelled (cli r ?b)"
      "left (cli r ?b) = None" "\<not> overread (cli r ?b)" using listening(1) by (simp_all add: listening_def Let_def)
  have "slots_inv ?s" using broadcast.reach_inv [OF server reach(2)] by (simp add: server_inv_def)
  then have "?a \<noteq> 0" using A(1,2) by (auto simp: slots_inv_def running_def)
  then have ab: "?b \<noteq> ?a"
    using slots_differ [OF server reach(2) A(1) B(1) listening(2) B(2) _ unclosed] A(2) by simp
  obtain w n s m where w: "server_next v ?s (Client t (Data ?p)) = Some w"
      and s: "run (server_next v) w (replicate n (Client t Done)) = Some s" "bpc s t = BRead" "sent w = sent ?s"
        "sent s = sent ?s @ map (\<lambda>i. (cfd ?s ! i, m)) (filter (\<lambda>i. cfd ?s ! i \<noteq> 0 \<and> i \<noteq> t) [0..<CLIENT_NUM])"
      and d: "distinct (map (\<lambda>i. cfd ?s ! i) (filter (\<lambda>i. cfd ?s ! i \<noteq> 0) [0..<CLIENT_NUM]))"
      and m: "length m = 2 * MSG_BUFFER_SIZE" "client_prints (take MSG_BUFFER_SIZE m) = Some ?text"
    using server_forwards [OF server reach(2) A(1,2) line(1) A(3) unclosed] line(2) by blast
  let ?r1 = "r\<lparr>cli := (cli r)(?a := (cli r ?a)\<lparr>input := rest, written := written (cli r ?a) @ [?p], wpc := WTest ?p\<rparr>),
      up := (up r)(?a := ?p)\<rparr>"
  have r1: "run (room_next v) r [Types ?a True, Types ?a True] = Some ?r1"
    using types_line [OF A(5-8) short] A(4) by simp
  let ?r2 = "?r1\<lparr>srv := w, up := (up ?r1)(?a := [])\<rparr>"
  have "length ?p = MSG_BUFFER_SIZE" "0 < MSG_BUFFER_SIZE" by (rule plain_packet(5) [OF line(1)]) (simp add: MSG_BUFFER_SIZE_def)
  then have r2: "run (room_next v) ?r1 [Receive t MSG_BUFFER_SIZE] = Some ?r2"
    using w A(2) by (simp add: receive_def Let_def)
  let ?r3 = "?r2\<lparr>srv := s, down := route (drop (length (sent w)) (sent s)) (down ?r2)\<rparr>"
  have r3: "run (room_next v) ?r2 (replicate n (Serve (Client t Done))) = Some ?r3"
    using lift_thread [of v ?r2 n t s] s(1) by simp
  have down: "down ?r3 ?b = m"
    using routed_once [OF d B(1,2) listening(2), of m] B(3) s(3,4) by (simp add: route_at)
  have same: "cli ?r3 ?b = cli r ?b" using ab by simp
  have r4: "room_next v ?r3 (Prints ?b MSG_BUFFER_SIZE) = Some (?r3\<lparr>cli := (cli ?r3)(?b := (cli ?r3 ?b)\<lparr>shown := shown (cli ?r3 ?b) @ [?text]\<rparr>),
      down := (down ?r3)(?b := drop MSG_BUFFER_SIZE (down ?r3 ?b))\<rparr>)" (is "_ = Some ?r4")
    by (rule prints_text) (use B(4-7) m in \<open>simp_all only: same down, simp_all\<close>)
  have "run (room_next v) r ([Types ?a True, Types ?a True] @ [Receive t MSG_BUFFER_SIZE]
      @ replicate n (Serve (Client t Done)) @ [Prints ?b MSG_BUFFER_SIZE]) = Some ?r4"
    unfolding run_append r1 option.case r2 r3 by (simp only: run.simps r4 option.case)
  moreover have "shown (cli ?r4 ?b) = shown (cli r ?b) @ [?text]" using same by simp
  moreover have "input (cli ?r4 ?a) = rest" using ab by simp
  moreover have "bpc (srv ?r4) t = BRead" using s(2) by simp
  ultimately show ?thesis by blast
qed

section \<open>Two clients\<close>

text \<open>The clients \<^verbatim>\<open>A\<close> and \<^verbatim>\<open>B\<close> of \<open>example_start\<close>; \<^verbatim>\<open>A\<close> types \<^verbatim>\<open>hi\<close>.\<close>

definition example_names :: "int \<Rightarrow> u8 list" where
  "example_names fd = (if fd = 4 then packet [65] else if fd = 5 then packet [66] else [])"

definition example_inputs :: "int \<Rightarrow> u8 list" where
  "example_inputs fd = (if fd = 4 then bytes ''hi'' @ [10] else [])"

definition room_schedule :: "room_event list" where
  "room_schedule = map Serve (connect_schedule 4 @ create_schedule @ [Listener Done] @ connect_schedule 5 @ create_schedule)
     @ [Serve (Client 0 Done), Serve (Client 0 Done), Receive 0 MSG_BUFFER_SIZE,
        Serve (Client 1 Done), Serve (Client 1 Done), Receive 1 MSG_BUFFER_SIZE]"

lemma room_example:
  "\<exists>r. run (room_next Whispers) (room_init example_start example_names example_inputs) room_schedule = Some r
    \<and> two_connected (srv r) \<and> bpc (srv r) 0 = BRead \<and> bpc (srv r) 1 = BRead
    \<and> cli r = (\<lambda>fd. chatter_init (example_inputs fd)) \<and> up r 4 = [] \<and> down r = (\<lambda>_. [])"
proof -
  have p: "length (packet [65]) = MSG_BUFFER_SIZE" "length (packet [66]) = MSG_BUFFER_SIZE" "0 < MSG_BUFFER_SIZE"
    "length (replicate MSG_BUFFER_SIZE (0 :: u8)) = MSG_BUFFER_SIZE"
    by (simp_all add: MSG_BUFFER_SIZE_def)
  have r: "read_into (replicate MSG_BUFFER_SIZE 0) (packet c) = packet c" if "length (packet c) = MSG_BUFFER_SIZE" for c
    using that by (simp add: read_into_def)
  show ?thesis
    using p r
    by (simp add: room_schedule_def room_init_def connect_schedule_def create_schedule_def example_start_def serve_def
        receive_def server_init_def server_next.simps listener_step_def main_step_def client_step_def cond_signal_def
        unlock_def goto_def mutex_init_def eval_nat_numeral CLIENT_NUM_def two_connected_def example_names_def Let_def)
qed

theorem line_travels_witness:
  "\<exists>r es u. reach (room_next Whispers) (room_init example_start example_names example_inputs) r
    \<and> run (room_next Whispers) r es = Some u \<and> shown (cli u 5) = [bytes ''A: hi'' @ [10]]"
proof -
  obtain r where r: "run (room_next Whispers) (room_init example_start example_names example_inputs) room_schedule = Some r"
      "two_connected (srv r)" "bpc (srv r) 0 = BRead" "bpc (srv r) 1 = BRead"
      "cli r = (\<lambda>fd. chatter_init (example_inputs fd))" "up r 4 = []" "down r = (\<lambda>_. [])"
    using room_example by blast
  have c: "cfd (srv r) ! 0 = 4" "cfd (srv r) ! 1 = 5" "names (srv r) ! 0 = packet [65]"
    using r(2) by (simp_all add: two_connected_def CLIENT_NUM_def)
  have a: "string_at (packet [65]) 0 = Some [65]" by (rule string_at_packet) (simp_all add: c_string_def MSG_BUFFER_SIZE_def)
  have "about_to_say r 0 [65] (bytes ''hi'') []"
    using r(2,3,5,6) c(1,3) a
    by (simp add: about_to_say_def two_connected_def running_def chatter_init_def example_inputs_def)
  moreover have "plain_line Whispers (bytes ''hi'')"
    by (simp add: plain_line_def short_line_def bytes_def c_string_def)
  moreover have "length ([65 :: u8] @ bytes '': '' @ bytes ''hi'' @ [10]) < MSG_BUFFER_SIZE"
    by (simp add: bytes_def MSG_BUFFER_SIZE_def)
  moreover have "listening r 1"
    using r(5,7) c(2) by (simp add: listening_def chatter_init_def CLIENT_NUM_def)
  moreover have "\<forall>u < created (srv r). \<not> closing (bpc (srv r) u)"
    using r(2-4) by (auto simp: two_connected_def less_2_cases_iff)
  ultimately obtain es u where u: "run (room_next Whispers) r es = Some u"
      "shown (cli u 5) = shown (cli r 5) @ [[65] @ bytes '': '' @ bytes ''hi'' @ [10]]"
    using line_travels [OF run_reach [OF r(1)] example_starts, of 0 "[65]" "bytes ''hi''" "[]" 1] c by auto
  have start: "shown (cli r 5) = []" by (simp add: r(5) chatter_init_def)
  have shown: "[65] @ bytes '': '' @ bytes ''hi'' @ [10] = bytes ''A: hi'' @ [10]" by (simp add: bytes_def)
  have "shown (cli u 5) = [bytes ''A: hi'' @ [10]]" unfolding u(2) start shown by simp
  with u(1) run_reach [OF r(1)] show ?thesis by blast
qed

end
