(* ===== verification/ChatLiveness.thy ===== *)
theory ChatLiveness
  imports Chat
begin

text \<open>
  The chat server of \<open>Chat\<close> can always be brought to its end by SIGINT: whatever the threads are
  doing, there is a schedule under which main exits.
\<close>

section \<open>The invariant\<close>

definition ending_inv :: "u8 list list \<Rightarrow> chat \<Rightarrow> bool" where
  "ending_inv admins s \<longleftrightarrow> chat_inv admins s \<and> \<not> ub s
     \<and> (mpc s \<noteq> MBusy \<and> mpc s \<noteq> MCancel \<longrightarrow> lcancelled s)
     \<and> (\<forall>i < MAX_CONNECTIONS. client_threads s ! i = 0 \<or> client_threads s ! i < length (infos s))
     \<and> (\<forall>i. mpc s = MJoin i \<longrightarrow> i < MAX_CONNECTIONS \<and> infos s \<noteq> [])"

text \<open>The steps after which nothing undefined has happened.\<close>

definition careful_next :: "u8 list list \<Rightarrow> chat \<Rightarrow> chat_event \<Rightarrow> chat option" where
  "careful_next admins s e = Option.bind (chat_next admins s e) (\<lambda>u. if ub u then None else Some u)"

lemma careful_next_Some: "careful_next admins s e = Some u \<longleftrightarrow> chat_next admins s e = Some u \<and> \<not> ub u"
  by (auto simp: careful_next_def split: bind_splits if_splits)

lemma careful_run: "run (careful_next admins) s es = Some u \<Longrightarrow> run (chat_next admins) s es = Some u"
proof (induction es arbitrary: s)
  case (Cons e es)
  then obtain w where "careful_next admins s e = Some w" "run (careful_next admins) w es = Some u"
    by (auto split: option.splits)
  with Cons.IH show ?case by (simp add: careful_next_Some)
qed simp

lemma listener_threads:
  assumes "count_inv s" "listener_step admins s k = Some u"
    and "\<forall>i < MAX_CONNECTIONS. client_threads s ! i = 0 \<or> client_threads s ! i < length (infos s)"
  shows "\<forall>i < MAX_CONNECTIONS. client_threads u ! i = 0 \<or> client_threads u ! i < length (infos u)"
    "length (infos s) \<le> length (infos u)" "mpc u = mpc s" "lcancelled u = lcancelled s"
  using assms
  by (cases "lpc s"; auto simp: listener_step_def count_inv_def Let_def nth_list_update less_Suc_eq
        split: kernel.splits option.splits if_splits)+

lemma client_threads_same:
  "client_step s t k = Some u \<Longrightarrow> client_threads u = client_threads s \<and> infos u = infos s \<and> mpc u = mpc s \<and> lcancelled u = lcancelled s"
  by (cases "cpc s t"; auto simp: client_step_def Let_def split: kernel.splits if_splits)

lemma main_ending:
  assumes "ending_inv admins s" "chat_main s = Some u"
  shows "(mpc u \<noteq> MBusy \<and> mpc u \<noteq> MCancel \<longrightarrow> lcancelled u) \<and> client_threads u = client_threads s
    \<and> (\<forall>i. mpc u = MJoin i \<longrightarrow> i < MAX_CONNECTIONS \<and> infos u \<noteq> [])"
proof -
  have "i < MAX_CONNECTIONS \<and> infos s \<noteq> []" if "int i < client_count s" for i
  proof
    have c: "client_count s = int (card (present s))" "client_count s \<le> int MAX_CONNECTIONS"
      using assms(1) by (simp_all add: ending_inv_def chat_inv_def count_inv_def)
    then show "i < MAX_CONNECTIONS" using that by simp
    show "infos s \<noteq> []"
    proof
      assume "infos s = []"
      then have "present s = {}" by (simp add: present_def)
      with c that show False by simp
    qed
  qed
  then show ?thesis using assms
    by (cases "mpc s") (auto simp: chat_main_def ending_inv_def split: if_splits)
qed

lemma ending_inv_step:
  assumes inv: "ending_inv admins s" and step: "careful_next admins s e = Some u"
  shows "ending_inv admins u"
proof -
  have n: "chat_next admins s e = Some u" "\<not> ub u" using step by (simp_all add: careful_next_Some)
  have c: "chat_inv admins u" using chat_inv_step [OF _ n(1)] inv by (simp add: ending_inv_def)
  show ?thesis
  proof (cases e)
    case (Listener k)
    then have l: "listener_step admins s k = Some u" using n(1) by (auto simp: chat_next.simps split: if_splits)
    have "count_inv s" "\<forall>i < MAX_CONNECTIONS. client_threads s ! i = 0 \<or> client_threads s ! i < length (infos s)"
      using inv by (simp_all add: ending_inv_def chat_inv_def)
    from listener_threads [OF this(1) l this(2)] inv c n(2) show ?thesis by (auto simp: ending_inv_def)
  next
    case (Client t k)
    then have "client_step s t k = Some u" using n(1) by (auto simp: chat_next.simps split: if_splits)
    from client_threads_same [OF this] inv c n(2) show ?thesis by (simp add: ending_inv_def)
  next
    case Main
    then have m: "chat_main s = Some u" using n(1) by (auto simp: chat_next.simps split: if_splits)
    from main_ending [OF inv m] main_keeps [OF m] inv c n(2) show ?thesis by (simp add: ending_inv_def)
  next
    case Sigint
    then have "u = s\<lparr>running := False\<rparr>" using n(1) by (auto simp: chat_next.simps split: if_splits)
    with inv c n(2) show ?thesis by (simp add: ending_inv_def)
  qed
qed

section \<open>The distance to the end\<close>

fun listener_rank :: "listener_pc \<Rightarrow> nat" where
  "listener_rank (LLockTest fd) = 18"
| "listener_rank (LTest fd) = 17"
| "listener_rank (LUnlock fd) = 16"
| "listener_rank (LRead fd) = 15"
| "listener_rank (LLockAdd i) = 14"
| "listener_rank (LAdd i) = 13"
| "listener_rank (LUnlockFull fd) = 5"
| "listener_rank (LClose fd) = 4"
| "listener_rank LUnlockAdd = 2"
| "listener_rank LWhile = 1"
| "listener_rank LAccept = 1"
| "listener_rank LDone = 0"

fun client_rank :: "client_pc \<Rightarrow> nat" where
  "client_rank (CSay msg) = 12"
| "client_rank CLockAdmin = 11"
| "client_rank CUnlockAdmin = 10"
| "client_rank CRead = 9"
| "client_rank CStop = 9"
| "client_rank CClose = 8"
| "client_rank CLockLeave = 7"
| "client_rank CLeave = 6"
| "client_rank CUnlockLeave = 5"
| "client_rank CDone = 0"
| "client_rank CCancelled = 0"

fun main_rank :: "main_pc \<Rightarrow> nat" where
  "main_rank MBusy = 100"
| "main_rank MCancel = 99"
| "main_rank MJoinListener = 98"
| "main_rank (MFor i) = 2 * (MAX_CONNECTIONS - i) + 1"
| "main_rank (MJoin i) = 2 * (MAX_CONNECTIONS - i)"
| "main_rank MExit = 0"

definition clients_rank :: "chat \<Rightarrow> nat" where
  "clients_rank s = (\<Sum>t < length (infos s). client_rank (cpc s t))"

definition chat_rank :: "chat \<Rightarrow> nat" where
  "chat_rank s = (if running s then 1 else 0) + main_rank (mpc s) + listener_rank (lpc s) + clients_rank s"

text \<open>An answer of the kernel that brings the listener nearer to its end: an error of \<^verbatim>\<open>accept\<close>, an
  empty name for \<^verbatim>\<open>read\<close>.\<close>

definition listener_answer :: "listener_pc \<Rightarrow> kernel" where
  "listener_answer pc = (case pc of LRead fd \<Rightarrow> Data (replicate NAME 10) | _ \<Rightarrow> Error)"

lemma newline_name: "strcspn_newline (replicate NAME 10) = Some 0"
  by (simp add: NAME_def strcspn_newline_def line_end_def eval_nat_numeral)

lemma listener_advances:
  assumes inv: "ending_inv admins s" and pc: "lpc s \<noteq> LDone" "lpc s \<noteq> LWhile \<or> \<not> running s"
    and mutex: "clients_mutex s = None \<or> clients_mutex s = Some 0"
  shows "\<exists>u. careful_next admins s (Listener (listener_answer (lpc s))) = Some u \<and> chat_rank u < chat_rank s"
proof (cases "lpc s")
  case (LAdd info)
  let ?t = "length (infos s)"
  have i: "0 \<le> client_count s" "client_count s < int MAX_CONNECTIONS"
    using inv LAdd by (auto simp: ending_inv_def chat_inv_def count_inv_def)
  have "clients_rank (s\<lparr>client_sockets := a, client_threads := b, infos := infos s @ [info],
      cpc := (cpc s)(?t := CRead), client_count := c, lpc := d\<rparr>) = clients_rank s + 9" for a b c d
    by (simp add: clients_rank_def)
  with LAdd i inv show ?thesis
    by (simp add: careful_next_Some chat_next.simps ending_inv_def listener_step_def Let_def chat_rank_def)
qed (use inv pc mutex newline_name in
  \<open>auto simp: careful_next_Some chat_next.simps ending_inv_def chat_inv_def mutex_inv_def listener_step_def
     listener_answer_def Let_def chat_rank_def clients_rank_def\<close>)

lemma client_advances:
  assumes inv: "ending_inv admins s" and t: "t < length (infos s)" "cpc s t \<notin> {CDone, CCancelled}"
    and mutex: "clients_mutex s = None \<or> clients_mutex s = Some (Suc t)"
  shows "\<exists>u. careful_next admins s (Client t Error) = Some u \<and> chat_rank u < chat_rank s"
proof -
  have holds: "clients_mutex s = Some (Suc t) \<longleftrightarrow> client_holds (cpc s t)"
    using inv t by (simp add: ending_inv_def chat_inv_def mutex_inv_def)
  have rank: "chat_rank u < chat_rank s"
    if "client_step s t Error = Some u" "client_rank (cpc u t) < client_rank (cpc s t)"
      "running u \<longrightarrow> running s" for u
  proof -
    note moves = client_moves [OF that(1)] client_threads_same [OF that(1)]
    have "clients_rank u < clients_rank s"
      unfolding clients_rank_def moves(4) using that(2) moves(2) t(1) by (intro sum_fun_upd_less) auto
    with moves that(3) show ?thesis by (auto simp: chat_rank_def)
  qed
  have "\<exists>u. client_step s t Error = Some u \<and> \<not> ub u \<and> client_rank (cpc u t) < client_rank (cpc s t)
      \<and> (running u \<longrightarrow> running s)"
    using t holds mutex inv
    by (cases "cpc s t") (auto simp: client_step_def Let_def ending_inv_def)
  then obtain u where u: "client_step s t Error = Some u" "\<not> ub u"
      "client_rank (cpc u t) < client_rank (cpc s t)" "running u \<longrightarrow> running s" by blast
  with rank t inv have "careful_next admins s (Client t Error) = Some u \<and> chat_rank u < chat_rank s"
    by (simp add: careful_next_Some chat_next.simps ending_inv_def)
  then show ?thesis ..
qed

lemma main_advances:
  assumes inv: "ending_inv admins s" and u: "chat_main s = Some u"
  shows "\<exists>u. careful_next admins s Main = Some u \<and> chat_rank u < chat_rank s"
proof -
  have "int i < client_count s \<Longrightarrow> i < MAX_CONNECTIONS" for i
    using inv by (auto simp: ending_inv_def chat_inv_def count_inv_def)
  moreover have "i < MAX_CONNECTIONS" if "mpc s = MJoin i" for i using inv that by (simp add: ending_inv_def)
  ultimately have "main_rank (mpc u) < main_rank (mpc s)"
    using u by (cases "mpc s") (auto simp: chat_main_def MAX_CONNECTIONS_def split: if_splits)
  with main_keeps [OF u] have "chat_rank u < chat_rank s" by (simp add: chat_rank_def clients_rank_def)
  with inv u main_keeps [OF u] show ?thesis by (auto simp: careful_next_Some chat_next.simps ending_inv_def)
qed

lemma sigint_advances:
  assumes "ending_inv admins s" "running s"
  shows "\<exists>u. careful_next admins s Sigint = Some u \<and> chat_rank u < chat_rank s"
  using assms by (simp add: careful_next_Some chat_next.simps ending_inv_def chat_rank_def clients_rank_def)

text \<open>The thread that main waits for.\<close>

lemma joined_thread:
  assumes "ending_inv admins s" "mpc s = MJoin i"
  shows "client_threads s ! i < length (infos s)"
proof -
  have "i < MAX_CONNECTIONS" "infos s \<noteq> []" using assms by (simp_all add: ending_inv_def)
  then show ?thesis using assms(1) by (cases "infos s") (auto simp: ending_inv_def)
qed

lemma main_step_or_wait:
  assumes "ending_inv admins s" "\<not> running s" "mpc s \<noteq> MExit"
  obtains u where "chat_main s = Some u"
  | "mpc s = MJoinListener" "lpc s \<noteq> LDone"
  | i where "mpc s = MJoin i" "cpc s (client_threads s ! i) \<notin> {CDone, CCancelled}"
proof (cases "chat_main s")
  case None
  with assms(2,3) show ?thesis by (cases "mpc s") (auto simp: chat_main_def split: if_splits intro: that)
qed (use that in blast)

lemma chat_advance:
  assumes inv: "ending_inv admins s" and more: "mpc s \<noteq> MExit"
  shows "\<exists>e u. careful_next admins s e = Some u \<and> chat_rank u < chat_rank s"
proof (cases "clients_mutex s")
  case (Some n)
  have mutex: "mutex_inv s" using inv by (simp add: ending_inv_def chat_inv_def)
  show ?thesis
  proof (cases n)
    case 0
    with Some mutex have "listener_holds (lpc s)" by (simp add: mutex_inv_def)
    then have "lpc s \<noteq> LDone" "lpc s \<noteq> LWhile" by auto
    with listener_advances [OF inv] Some 0 show ?thesis by blast
  next
    case (Suc t)
    with Some mutex have "t < length (infos s) \<and> client_holds (cpc s t)" unfolding mutex_inv_def by blast
    then have "t < length (infos s)" "cpc s t \<notin> {CDone, CCancelled}" by auto
    with client_advances [OF inv] Some Suc show ?thesis by blast
  qed
next
  case None
  show ?thesis
  proof (cases "running s")
    case True
    with sigint_advances [OF inv] show ?thesis by blast
  next
    case False
    from inv this more show ?thesis
    proof (cases rule: main_step_or_wait)
      case (1 u)
      with main_advances [OF inv] show ?thesis by blast
    next
      case 2
      with listener_advances [OF inv 2(2)] False None show ?thesis by blast
    next
      case (3 i)
      with client_advances [OF inv joined_thread [OF inv 3(1)]] None show ?thesis by blast
    qed
  qed
qed

interpretation chat_end: machine_can "careful_next admins" "ending_inv admins" "ending_inv admins" chat_rank
    "\<lambda>s. mpc s = MExit"
proof
  fix s assume "ending_inv admins s" "mpc s \<noteq> MExit"
  from chat_advance [OF this] obtain e u where "careful_next admins s e = Some u" "chat_rank u < chat_rank s" by blast
  then have "run (careful_next admins) s [e] = Some u \<and> chat_rank u < chat_rank s" by simp
  then show "\<exists>es t. run (careful_next admins) s es = Some t \<and> chat_rank t < chat_rank s" by blast
qed (auto intro: ending_inv_step)

section \<open>The server can be stopped\<close>

lemma ending_inv_init: "ending_inv admins chat_init"
  using chat_init_inv by (simp add: ending_inv_def) (simp add: chat_init_def)

lemma ub_kept: "run (chat_next admins) s es = Some u \<Longrightarrow> \<not> ub u \<Longrightarrow> \<not> ub s"
  by (induction es arbitrary: s) (auto simp: chat_next.simps split: option.splits if_splits)

lemma run_careful:
  "run (chat_next admins) s es = Some u \<Longrightarrow> \<not> ub u \<Longrightarrow> run (careful_next admins) s es = Some u"
proof (induction es arbitrary: s)
  case (Cons e es)
  then obtain w where w: "chat_next admins s e = Some w" "run (chat_next admins) w es = Some u"
    by (auto split: option.splits)
  with Cons ub_kept [OF w(2)] show ?case by (simp add: careful_next_def)
qed simp



end
