(* ===== verification/WebLiveness.thy ===== *)
theory WebLiveness
  imports WebServer
begin

text \<open>
  The end of the web server of \<open>WebServer\<close>: once main has left its loop, every worker can get its
  poison pill, none sleeps through it, and main can join them all.
\<close>

section \<open>The mutex of the queue\<close>

fun main_locks :: "web_pc \<Rightarrow> bool" where
  "main_locks (MPush fd) = True"
| "main_locks MSignal = True"
| "main_locks MUnlock = True"
| "main_locks (MPills i) = True"
| "main_locks MBroadcast = True"
| "main_locks MPillUnlock = True"
| "main_locks _ = False"

fun worker_locks :: "'d worker_pc \<Rightarrow> bool" where
  "worker_locks WTest = True"
| "worker_locks WPop = True"
| "worker_locks (WUnlock fd) = True"
| "worker_locks _ = False"

definition lock_inv :: "'d web \<Rightarrow> bool" where
  "lock_inv s \<longleftrightarrow> (mutex_queue s = Some 0 \<longleftrightarrow> main_locks (mpc s))
     \<and> (\<forall>j. mutex_queue s = Some (Suc j) \<longleftrightarrow> worker_locks (wpc s j))"

lemma worker_lock_moves:
  assumes "worker_step cfg s j k = Some u"
  shows "mutex_moved (mutex_queue s) (mutex_queue u) (Suc j) (worker_locks (wpc s j)) (worker_locks (wpc u j))"
    "queue u = queue s \<or> wpc s j = WPop"
  using assms
  by (cases "wpc s j"; auto simp: worker_step_def mutex_moved_def Let_def
      split: kernel.splits option.splits request.splits if_splits)+

lemma main_lock_moves:
  assumes "web_main cfg s w k = Some u"
  shows "mutex_moved (mutex_queue s) (mutex_queue u) 0 (main_locks (mpc s)) (main_locks (mpc u))"
    "wpc u j = wpc s j \<or> wpc s j = WWait \<and> wpc u j = WWoken"
    "queue u = queue s \<or> main_locks (mpc s)"
  using assms by (cases "mpc s"; auto simp: web_main_def mutex_moved_def split: kernel.splits if_splits)+

lemma main_lock_inv:
  assumes "lock_inv s" "web_main cfg s w k = Some u"
  shows "lock_inv u"
proof -
  note moves = main_lock_moves [OF assms(2)]
  have m: "mutex_queue s = Some 0 \<longleftrightarrow> main_locks (mpc s)" using assms(1) by (simp add: lock_inv_def)
  note holder = mutex_moved_holder [OF moves(1) m]
  have "worker_locks (wpc u j) = worker_locks (wpc s j)" for j using moves(2) [of j] by auto
  then show ?thesis using holder(1) holder(2) [of "Suc _"] assms(1) by (simp add: lock_inv_def)
qed

lemma worker_lock_inv:
  assumes "lock_inv s" "worker_step cfg s j k = Some u"
  shows "lock_inv u"
proof -
  note frame = worker_frame [OF assms(2)]
  have m: "mutex_queue s = Some (Suc j) \<longleftrightarrow> worker_locks (wpc s j)" using assms(1) by (simp add: lock_inv_def)
  note holder = mutex_moved_holder [OF worker_lock_moves(1) [OF assms(2)] m]
  have "mutex_queue u = Some (Suc i) \<longleftrightarrow> worker_locks (wpc u i)" for i
  proof (cases "i = j")
    case False
    then have "wpc u i = wpc s i" using frame(1) by (metis fun_upd_other)
    with False holder(2) [of "Suc i"] assms(1) show ?thesis by (simp add: lock_inv_def)
  qed (use holder(1) in simp)
  moreover have "mutex_queue u = Some 0 \<longleftrightarrow> main_locks (mpc u)"
    using holder(2) [of 0] frame(2) assms(1) by (simp add: lock_inv_def)
  ultimately show ?thesis by (simp add: lock_inv_def)
qed

section \<open>The poison pills\<close>

text \<open>How many pills main has pushed, and whether a worker has taken one.\<close>

fun pushed :: "nat \<Rightarrow> web_pc \<Rightarrow> nat" where
  "pushed n (MPills i) = i"
| "pushed n MBroadcast = n"
| "pushed n MPillUnlock = n"
| "pushed n (MJoin i) = n"
| "pushed n MExit = n"
| "pushed n _ = 0"

fun taken :: "'d worker_pc \<Rightarrow> nat" where
  "taken (WUnlock fd) = (if fd = POISON_PILL then 1 else 0)"
| "taken (WCheck fd) = (if fd = POISON_PILL then 1 else 0)"
| "taken WExit = 1"
| "taken _ = 0"

fun woken :: "web_pc \<Rightarrow> bool" where
  "woken MPillUnlock = True"
| "woken (MJoin i) = True"
| "woken MExit = True"
| "woken _ = False"

abbreviation queued_pills :: "'d web \<Rightarrow> nat" where
  "queued_pills s \<equiv> count_list (myqueue_values (queue s)) POISON_PILL"

definition pill_inv :: "'d web_cfg \<Rightarrow> 'd web \<Rightarrow> bool" where
  "pill_inv cfg s \<longleftrightarrow> queued_pills s + (\<Sum>j<workers cfg. taken (wpc s j)) = pushed (workers cfg) (mpc s)
     \<and> (\<forall>i. mpc s = MPills i \<longrightarrow> i \<le> workers cfg) \<and> (woken (mpc s) \<longrightarrow> (\<forall>j. wpc s j \<noteq> WWait))
     \<and> (\<forall>j. created cfg s \<le> j \<longrightarrow> wpc s j = WLock)
     \<and> (\<forall>j. wpc s j = WPop \<longrightarrow> myqueue_values (queue s) \<noteq> [])"

lemma not_created: "pill_inv cfg s \<Longrightarrow> created cfg s \<le> j \<Longrightarrow> wpc s j = WLock"
  unfolding pill_inv_def by blast

lemma pop_nonempty: "pill_inv cfg s \<Longrightarrow> wpc s j = WPop \<Longrightarrow> myqueue_values (queue s) \<noteq> []"
  unfolding pill_inv_def by blast

lemma worker_pills:
  assumes "worker_step cfg s j k = Some u" "myqueue_inv (queue s)"
  shows "queued_pills u + taken (wpc u j) = queued_pills s + taken (wpc s j)"
    "wpc u j = WPop \<Longrightarrow> myqueue_values (queue u) \<noteq> []"
    "wpc u j = WWait \<Longrightarrow> myqueue_values (queue s) = [] \<and> taken (wpc s j) = 0"
proof -
  have pop: "count_list (myqueue_values (queue s)) POISON_PILL = (if fd = POISON_PILL then 1 else 0)
      + count_list (myqueue_values q) POISON_PILL" if "myqueue_pop (queue s) = Some (fd, q)" for fd q
    using mq.contents_pop [OF assms(2) that] by simp
  show "queued_pills u + taken (wpc u j) = queued_pills s + taken (wpc s j)"
    "wpc u j = WPop \<Longrightarrow> myqueue_values (queue u) \<noteq> []"
    "wpc u j = WWait \<Longrightarrow> myqueue_values (queue s) = [] \<and> taken (wpc s j) = 0"
    using assms pop
    by (cases "wpc s j"; auto simp: worker_step_def Let_def mq.is_emp_iff
        split: kernel.splits option.splits request.splits if_splits)+
qed

lemma taken_le: "taken p \<le> 1"
  by (cases p) auto

text \<open>While a worker has not taken its pill, not all are taken.\<close>

lemma taken_less:
  assumes "j < n" "taken (f j) = 0"
  shows "(\<Sum>i<n. taken (f i)) < n"
proof -
  have "(\<Sum>i<n. taken (f i)) < (\<Sum>i<n. 1)"
    using assms by (intro sum_strict_mono_ex1) (auto simp: taken_le [unfolded One_nat_def] intro: bexI [of _ j])
  then show ?thesis by simp
qed

lemma worker_pill_inv:
  assumes inv: "pill_inv cfg s" "socket_inv cfg s" "lock_inv s" and j: "j < created cfg s"
    and step: "worker_step cfg s j k = Some u"
  shows "pill_inv cfg u"
proof -
  note frame = worker_frame [OF step]
  have q: "myqueue_inv (queue s)" "j < workers cfg" using inv(2) j by (auto simp: socket_inv_def)
  note pills = worker_pills [OF step q(1)]
  have other: "wpc u i = wpc s i" if "i \<noteq> j" for i using that frame(1) by (metis fun_upd_other)
  have "(\<Sum>i<workers cfg. taken (wpc u i)) + taken (wpc s j) = (\<Sum>i<workers cfg. taken (wpc s i)) + taken (wpc u j)"
    using sum_upd [OF q(2), of taken "wpc s" "wpc u j"] unfolding frame(1) [symmetric] .
  moreover have count: "queued_pills s + (\<Sum>i<workers cfg. taken (wpc s i)) = pushed (workers cfg) (mpc s)"
    using inv(1) by (simp add: pill_inv_def)
  ultimately have sum: "queued_pills u + (\<Sum>i<workers cfg. taken (wpc u i)) = pushed (workers cfg) (mpc u)"
    using pills(1) count frame(2) by simp
  have "myqueue_values (queue u) \<noteq> []" if "wpc u i = WPop" for i
  proof (cases "i = j")
    case False
    with that other have "wpc s i = WPop" by simp
    then have "mutex_queue s = Some (Suc i)" using inv(3) by (simp add: lock_inv_def)
    then have "\<not> worker_locks (wpc s j)" using inv(3) False by (auto simp: lock_inv_def)
    then have "queue u = queue s" using worker_lock_moves(2) [OF step] by auto
    with pop_nonempty [OF inv(1) \<open>wpc s i = WPop\<close>] show ?thesis by simp
  qed (use that pills(2) in simp)
  moreover have "wpc u i \<noteq> WWait" if w: "woken (mpc u)" for i
  proof (cases "i = j")
    case True
    show ?thesis
    proof
      assume "wpc u i = WWait"
      with True pills(3) have e: "myqueue_values (queue s) = []" "taken (wpc s j) = 0" by simp_all
      with inv(1) have "(\<Sum>i<workers cfg. taken (wpc s i)) = pushed (workers cfg) (mpc s)" by (simp add: pill_inv_def)
      moreover have "pushed (workers cfg) (mpc s) = workers cfg" using w frame(2) by (cases "mpc s") auto
      ultimately show False using taken_less [of j "workers cfg" "wpc s", OF q(2) e(2)] by simp
    qed
  qed (use other w frame(2) inv(1) in \<open>auto simp: pill_inv_def\<close>)
  moreover have "wpc u i = WLock" if "created cfg u \<le> i" for i
    using that j other inv(1) frame(2) by (auto simp: pill_inv_def created_def)
  ultimately show ?thesis using sum inv(1) frame(2) by (auto simp: pill_inv_def)
qed

lemma taken_main:
  assumes "web_main cfg s w k = Some u"
  shows "taken (wpc u j) = taken (wpc s j)"
  using main_lock_moves(2) [OF assms, of j] by auto

lemma main_pill_inv:
  assumes inv: "pill_inv cfg s" "socket_inv cfg s" "lock_inv s" and step: "web_main cfg s w k = Some u"
  shows "pill_inv cfg u"
proof -
  have q: "myqueue_inv (queue s)" "\<forall>fd \<in># main_hand (mpc s). 0 \<le> fd" using inv(2) by (auto simp: socket_inv_def)
  have "queued_pills u + pushed (workers cfg) (mpc s) = queued_pills s + pushed (workers cfg) (mpc u)
      \<and> (\<forall>i. mpc u = MPills i \<longrightarrow> i \<le> workers cfg)"
    using step q inv(1)
    by (cases "mpc s")
       (auto simp: web_main_def mq.contents_push POISON_PILL_def pill_inv_def split: kernel.splits if_splits)
  moreover have "(\<Sum>j<workers cfg. taken (wpc u j)) = (\<Sum>j<workers cfg. taken (wpc s j))"
    using taken_main [OF step] by simp
  moreover have "wpc u j \<noteq> WWait" if "woken (mpc u)" for j
    using that step inv(1) by (cases "mpc s") (auto simp: web_main_def pill_inv_def split: kernel.splits if_splits)
  moreover have "wpc u j = WLock" if "created cfg u \<le> j" for j
  proof -
    have "created cfg s \<le> created cfg u" using step inv(2) by (cases "mpc s") (auto simp: web_main_def created_def socket_inv_def split: kernel.splits if_splits)
    with that inv(1) main_lock_moves(2) [OF step, of j] show ?thesis by (auto simp: pill_inv_def)
  qed
  moreover have "myqueue_values (queue u) \<noteq> []" if p: "wpc u j = WPop" for j
  proof -
    have pop: "wpc s j = WPop" using p main_lock_moves(2) [OF step, of j] by auto
    then have "mutex_queue s = Some (Suc j)" using inv(3) by (simp add: lock_inv_def)
    moreover have "myqueue_values (queue s) \<noteq> []" by (rule pop_nonempty [OF inv(1) pop])
    ultimately show ?thesis using main_lock_moves(3) [OF step] inv(3) by (auto simp: lock_inv_def)
  qed
  ultimately show ?thesis using inv(1) by (auto simp: pill_inv_def)
qed

text \<open>A spurious wake-up.\<close>

lemma spurious_inv:
  assumes "wpc s j = WWait" "lock_inv s" "pill_inv cfg s"
  shows "lock_inv (s\<lparr>wpc := (wpc s)(j := WWoken)\<rparr>)" "pill_inv cfg (s\<lparr>wpc := (wpc s)(j := WWoken)\<rparr>)"
proof -
  show "lock_inv (s\<lparr>wpc := (wpc s)(j := WWoken)\<rparr>)" using assms(1,2) by (auto simp: lock_inv_def)
  have "taken (((wpc s)(j := WWoken)) i) = taken (wpc s i)" for i using assms(1) by (cases "i = j") simp_all
  moreover have "\<not> created cfg s \<le> j" using assms(1,3) by (auto simp: pill_inv_def)
  ultimately show "pill_inv cfg (s\<lparr>wpc := (wpc s)(j := WWoken)\<rparr>)"
    using assms(3) pop_nonempty [OF assms(3)] by (auto simp: pill_inv_def created_def)
qed

definition web_stop_inv :: "'d web_cfg \<Rightarrow> 'd web \<Rightarrow> bool" where
  "web_stop_inv cfg s \<longleftrightarrow> socket_inv cfg s \<and> balance_inv s \<and> lock_inv s \<and> pill_inv cfg s \<and> mutex_donation s \<noteq> Some 0"

text \<open>Main never takes the mutex of the balance.\<close>

lemma donation_not_main:
  assumes "mutex_donation s \<noteq> Some 0" "balance_inv s" "web_next cfg s e = Some u"
  shows "mutex_donation u \<noteq> Some 0"
proof (cases e)
  case (Main w k)
  with assms show ?thesis by (auto simp: web_main_def split: web_pc.splits kernel.splits if_splits)
next
  case (Worker j k)
  then have "worker_step cfg s j k = Some u" using assms(3) by (auto split: if_splits)
  then have "mutex_moved (mutex_donation s) (mutex_donation u) (Suc j) (updating (wpc s j)) (updating (wpc u j))"
    by (rule worker_moves(1))
  moreover have "mutex_donation s = Some (Suc j) \<longleftrightarrow> updating (wpc s j)" using assms(2) by (simp add: balance_inv_def)
  ultimately have "mutex_donation u = Some 0 \<longleftrightarrow> mutex_donation s = Some 0" using mutex_moved_holder(2) [of _ _ _ _ _ 0] by blast
  with assms(1) show ?thesis by simp
next
  case (Spurious j)
  with assms show ?thesis by (auto split: if_splits)
qed

lemma web_stop_inv_step:
  assumes "web_stop_inv cfg s" "web_next cfg s e = Some u"
  shows "web_stop_inv cfg u"
proof -
  have inv: "socket_inv cfg s" "balance_inv s" "lock_inv s" "pill_inv cfg s" using assms(1) by (simp_all add: web_stop_inv_def)
  have "mutex_donation s \<noteq> Some 0" using assms(1) by (simp add: web_stop_inv_def)
  then have "mutex_donation u \<noteq> Some 0" using donation_not_main [OF _ inv(2) assms(2)] by blast
  moreover have "lock_inv u \<and> pill_inv cfg u"
  proof (cases e)
    case (Main w k)
    then have "web_main cfg s w k = Some u" using assms(2) by (simp split: if_splits)
    then show ?thesis using main_lock_inv main_pill_inv inv by blast
  next
    case (Worker j k)
    then have "worker_step cfg s j k = Some u" "j < created cfg s" using assms(2) by (auto split: if_splits)
    then show ?thesis using worker_lock_inv worker_pill_inv inv by blast
  next
    case (Spurious j)
    then have "wpc s j = WWait" "u = s\<lparr>wpc := (wpc s)(j := WWoken)\<rparr>" using assms(2) by (auto split: if_splits)
    then show ?thesis using spurious_inv inv by blast
  qed
  ultimately show ?thesis using socket_inv_step [OF inv(1) assms(2)] balance_inv_step [OF inv(2) assms(2)]
    by (simp add: web_stop_inv_def)
qed

lemma web_stop_inv_init: "web_stop_inv cfg (web_init cfg)"
proof -
  have "lock_inv (web_init cfg)" by (simp add: lock_inv_def web_init_def mutex_init_def)
  moreover have "pill_inv cfg (web_init cfg)" by (simp add: pill_inv_def web_init_def created_def mq.contents_emp)
  moreover have "mutex_donation (web_init cfg) \<noteq> Some 0" by (simp add: web_init_def mutex_init_def)
  ultimately show ?thesis using socket_inv_init [of cfg] balance_inv_init [of cfg] unfolding web_stop_inv_def by blast
qed

text \<open>The workers main has joined have ended.\<close>

fun joined_workers :: "nat \<Rightarrow> web_pc \<Rightarrow> nat" where
  "joined_workers n (MJoin i) = i"
| "joined_workers n MExit = n"
| "joined_workers n _ = 0"

definition web_join_inv :: "'d web_cfg \<Rightarrow> 'd web \<Rightarrow> bool" where
  "web_join_inv cfg s \<longleftrightarrow> (\<forall>j<joined_workers (workers cfg) (mpc s). wpc s j = WExit)"

lemma web_join_inv_step:
  assumes "web_join_inv cfg s" "web_next cfg s e = Some u"
  shows "web_join_inv cfg u"
proof (cases e)
  case (Main w k)
  then have step: "web_main cfg s w k = Some u" using assms(2) by (simp split: if_splits)
  have "wpc u j = WExit" if "wpc s j = WExit" for j using that main_lock_moves(2) [OF step, of j] by auto
  with assms(1) step show ?thesis
    by (cases "mpc s") (auto simp: web_join_inv_def web_main_def less_Suc_eq split: kernel.splits if_splits)
next
  case (Worker j k)
  then have step: "worker_step cfg s j k = Some u" using assms(2) by (auto split: if_splits)
  then have "wpc s j \<noteq> WExit" by (auto simp: worker_step_def Let_def)
  have "wpc u i = wpc s i" if "i \<noteq> j" for i using that worker_frame(1) [OF step] by (metis fun_upd_other)
  with assms(1) worker_frame(2) [OF step] \<open>wpc s j \<noteq> WExit\<close> show ?thesis by (metis web_join_inv_def)
next
  case (Spurious j)
  with assms show ?thesis by (auto simp: web_join_inv_def split: if_splits)
qed

lemma web_join_inv_init: "web_join_inv cfg (web_init cfg)"
  by (simp add: web_join_inv_def web_init_def)

interpretation joins: machine_inv "web_next cfg" "\<lambda>s. s = web_init cfg" "web_join_inv cfg" for cfg
  by unfold_locales (auto intro: web_join_inv_init web_join_inv_step)

section \<open>The distance to the end\<close>

fun worker_rank :: "'d worker_pc \<Rightarrow> nat" where
  "worker_rank (WUnlock fd) = 16"
| "worker_rank (WCheck fd) = 15"
| "worker_rank (WRead fd) = 14"
| "worker_rank (WParse fd bs) = 13"
| "worker_rank (WDonationLock fd n v) = 12"
| "worker_rank (WLoad fd n v) = 11"
| "worker_rank (WStore fd n v old) = 10"
| "worker_rank (WDonationUnlock fd n v) = 9"
| "worker_rank (WThank fd n v) = 8"
| "worker_rank (WSub fd) = 5"
| "worker_rank (WReply fd r) = 4"
| "worker_rank (WClose fd) = 3"
| "worker_rank WLock = 2"
| "worker_rank WWoken = 2"
| "worker_rank WTest = 1"
| "worker_rank WPop = 0"
| "worker_rank WWait = 0"
| "worker_rank WExit = 0"

text \<open>Main has left its loop.\<close>

fun stopping :: "web_pc \<Rightarrow> bool" where
  "stopping MPillLock = True"
| "stopping (MPills i) = True"
| "stopping MBroadcast = True"
| "stopping MPillUnlock = True"
| "stopping (MJoin i) = True"
| "stopping MExit = True"
| "stopping _ = False"

text \<open>A value in the queue weighs 17, a worker that is woken 2.\<close>

fun main_rank :: "nat \<Rightarrow> web_pc \<Rightarrow> nat" where
  "main_rank n MPillLock = 21 * n + 5"
| "main_rank n (MPills i) = 3 * n + 4 + 18 * (n - i)"
| "main_rank n MBroadcast = 3 * n + 3"
| "main_rank n MPillUnlock = n + 2"
| "main_rank n (MJoin i) = n - i + 1"
| "main_rank n _ = 0"

definition web_rank :: "'d web_cfg \<Rightarrow> 'd web \<Rightarrow> nat" where
  "web_rank cfg s = main_rank (workers cfg) (mpc s) + 17 * length (myqueue_values (queue s))
     + (\<Sum>j<workers cfg. worker_rank (wpc s j))"

text \<open>Main is stopping, and the requests that have been read can be parsed.\<close>

definition well_formed :: "'d web_cfg \<Rightarrow> 'd web \<Rightarrow> bool" where
  "well_formed cfg s \<longleftrightarrow> stopping (mpc s) \<and> \<not> undefined_behaviour s
     \<and> (\<forall>j fd bs. wpc s j = WParse fd bs \<longrightarrow> parse_request (strtod_fun cfg) (stack cfg) (cstr (bs @ [0])) \<noteq> None)"

lemma not_ended: "well_formed cfg s \<Longrightarrow> \<not> ended s"
  by (auto simp: well_formed_def ended_def)

lemma worker_rank_less:
  assumes inv: "web_stop_inv cfg s" and j: "j < created cfg s" and step: "worker_step cfg s j k = Some u"
    and less: "worker_rank (wpc u j) + 17 * length (myqueue_values (queue u))
      < worker_rank (wpc s j) + 17 * length (myqueue_values (queue s))"
  shows "web_rank cfg u < web_rank cfg s"
proof -
  have jw: "j < workers cfg" using inv j by (auto simp: web_stop_inv_def socket_inv_def)
  note frame = worker_frame [OF step]
  have "(\<Sum>i<workers cfg. worker_rank (wpc u i)) + worker_rank (wpc s j)
      = (\<Sum>i<workers cfg. worker_rank (wpc s i)) + worker_rank (wpc u j)"
    using sum_upd [OF jw, of worker_rank "wpc s" "wpc u j"] unfolding frame(1) [symmetric] .
  with less frame(2) show ?thesis by (simp add: web_rank_def)
qed

text \<open>A kernel that lets reading fail brings a worker nearer to its end, if no mutex stops it.\<close>

lemma worker_advances:
  assumes inv: "web_stop_inv cfg s" and wf: "well_formed cfg s" and j: "j < created cfg s"
    and pc: "wpc s j \<noteq> WExit" "wpc s j \<noteq> WWait" and mutex: "mutex_queue s = None \<or> mutex_queue s = Some (Suc j)"
    and donation: "\<And>fd n v. wpc s j = WDonationLock fd n v \<Longrightarrow> mutex_donation s = None"
  shows "\<exists>u. web_next cfg s (Worker j Failed) = Some u \<and> well_formed cfg u \<and> web_rank cfg u < web_rank cfg s"
proof -
  have inv': "socket_inv cfg s" "balance_inv s" "lock_inv s" "pill_inv cfg s" using inv by (simp_all add: web_stop_inv_def)
  have q: "myqueue_inv (queue s)" using inv'(1) by (simp add: socket_inv_def)
  have l: "mutex_queue s = Some (Suc j) \<longleftrightarrow> worker_locks (wpc s j)" using inv'(3) by (simp add: lock_inv_def)
  have d: "mutex_donation s = Some (Suc j) \<longleftrightarrow> updating (wpc s j)" using inv'(2) by (simp add: balance_inv_def)
  have "\<exists>u. worker_step cfg s j Failed = Some u \<and> undefined_behaviour u = undefined_behaviour s
      \<and> (\<nexists>fd bs. wpc u j = WParse fd bs)
      \<and> worker_rank (wpc u j) + 17 * length (myqueue_values (queue u))
      < worker_rank (wpc s j) + 17 * length (myqueue_values (queue s))"
  proof (cases "wpc s j = WPop")
    case True
    then obtain v vs where "myqueue_values (queue s) = v # vs"
      using pop_nonempty [OF inv'(4) True] by (cases "myqueue_values (queue s)") auto
    with mq.pop_Cons [OF q] True show ?thesis by (fastforce simp: worker_step_def Let_def)
  next
    case False
    then show ?thesis
      using pc mutex donation l d wf mq.is_emp_iff [OF q]
      by (cases "wpc s j") (auto simp: worker_step_def Let_def well_formed_def split: request.splits option.splits)
  qed
  then obtain u where u: "worker_step cfg s j Failed = Some u" "undefined_behaviour u = undefined_behaviour s"
      "\<nexists>fd bs. wpc u j = WParse fd bs"
      "worker_rank (wpc u j) + 17 * length (myqueue_values (queue u))
      < worker_rank (wpc s j) + 17 * length (myqueue_values (queue s))" by blast
  have "well_formed cfg u" unfolding well_formed_def
  proof (intro conjI allI impI)
    show "stopping (mpc u)" "\<not> undefined_behaviour u"
      using wf u(2) worker_frame(2) [OF u(1)] by (simp_all add: well_formed_def)
    fix i fd bs assume p: "wpc u i = WParse fd bs"
    with u(3) have "i \<noteq> j" by auto
    with p worker_frame(1) [OF u(1)] have "wpc s i = WParse fd bs" by (metis fun_upd_other)
    with wf show "parse_request (strtod_fun cfg) (stack cfg) (cstr (bs @ [0])) \<noteq> None" unfolding well_formed_def by blast
  qed
  moreover have "web_next cfg s (Worker j Failed) = Some u" using u(1) not_ended [OF wf] j by simp
  ultimately show ?thesis using worker_rank_less [OF inv j u(1,4)] by blast
qed

text \<open>Main, when no mutex and no worker stops it.\<close>

lemma sum_wake:
  assumes "\<And>j. wpc u j = wpc s j \<or> wpc s j = WWait \<and> wpc u j = WWoken"
  shows "(\<Sum>j<n. worker_rank (wpc u j)) \<le> (\<Sum>j<n. worker_rank (wpc s j)) + 2 * n"
proof -
  have "worker_rank (wpc u j) \<le> worker_rank (wpc s j) + 2" for j using assms [of j] by auto
  then have "(\<Sum>j<n. worker_rank (wpc u j)) \<le> (\<Sum>j<n. worker_rank (wpc s j) + 2)" by (intro sum_mono)
  also have "\<dots> = (\<Sum>j<n. worker_rank (wpc s j)) + 2 * n" by (simp only: sum.distrib) simp
  finally show ?thesis .
qed

lemma main_well_formed:
  assumes "well_formed cfg s" "web_main cfg s w k = Some u"
  shows "well_formed cfg u"
proof -
  have "undefined_behaviour u = undefined_behaviour s" "stopping (mpc u)"
    using assms by (cases "mpc s"; auto simp: web_main_def well_formed_def split: kernel.splits if_splits)+
  moreover have "wpc u j = WParse fd bs \<Longrightarrow> wpc s j = WParse fd bs" for j fd bs
    using main_lock_moves(2) [OF assms(2), of j] by auto
  ultimately show ?thesis using assms(1) unfolding well_formed_def by blast
qed

lemma web_main_advances:
  assumes inv: "web_stop_inv cfg s" and wf: "well_formed cfg s" and mutex: "mutex_queue s = None \<or> mutex_queue s = Some 0"
    and pc: "mpc s \<noteq> MExit" "\<forall>i. mpc s = MJoin i \<and> i < workers cfg \<longrightarrow> wpc s i = WExit"
  shows "\<exists>u. web_next cfg s (Main 0 Done) = Some u \<and> well_formed cfg u \<and> web_rank cfg u < web_rank cfg s"
proof -
  have inv': "myqueue_inv (queue s)" "lock_inv s" using inv by (simp_all add: web_stop_inv_def socket_inv_def)
  have l: "mutex_queue s = Some 0 \<longleftrightarrow> main_locks (mpc s)" using inv'(2) by (simp add: lock_inv_def)
  have st: "stopping (mpc s)" using wf by (simp add: well_formed_def)
  have "\<exists>u. web_main cfg s 0 Done = Some u
      \<and> main_rank (workers cfg) (mpc u) + 17 * length (myqueue_values (queue u))
          + (if mpc s = MBroadcast then 2 * workers cfg else 0)
        < main_rank (workers cfg) (mpc s) + 17 * length (myqueue_values (queue s))
      \<and> (mpc s \<noteq> MBroadcast \<longrightarrow> wpc u = wpc s)"
    using pc st mutex l inv'(1)
    by (cases "mpc s") (auto simp: web_main_def mq.contents_push)
  then obtain u where u: "web_main cfg s 0 Done = Some u"
      "main_rank (workers cfg) (mpc u) + 17 * length (myqueue_values (queue u))
          + (if mpc s = MBroadcast then 2 * workers cfg else 0)
        < main_rank (workers cfg) (mpc s) + 17 * length (myqueue_values (queue s))"
      "mpc s \<noteq> MBroadcast \<longrightarrow> wpc u = wpc s" by blast
  have "(\<Sum>j<workers cfg. worker_rank (wpc u j)) \<le> (\<Sum>j<workers cfg. worker_rank (wpc s j))
      + (if mpc s = MBroadcast then 2 * workers cfg else 0)"
    using sum_wake [OF main_lock_moves(2) [OF u(1)], of "workers cfg"] u(3) by auto
  then have "web_rank cfg u < web_rank cfg s" using u(2) by (simp add: web_rank_def split: if_splits)
  moreover have "web_next cfg s (Main 0 Done) = Some u" using u(1) not_ended [OF wf] by simp
  ultimately show ?thesis using main_well_formed [OF wf u(1)] by blast
qed

text \<open>A worker that has not ended while main joins is not asleep; if it waits for the balance, the
  worker that is updating it can go on.\<close>

lemma joined_worker_advances:
  assumes inv: "web_stop_inv cfg s" and wf: "well_formed cfg s" and free: "mutex_queue s = None"
    and pc: "mpc s = MJoin i" "i < workers cfg" "wpc s i \<noteq> WExit"
  shows "\<exists>j u. web_next cfg s (Worker j Failed) = Some u \<and> well_formed cfg u \<and> web_rank cfg u < web_rank cfg s"
proof -
  have all: "created cfg s = workers cfg" by (simp add: created_def pc(1))
  have p: "pill_inv cfg s" "balance_inv s" using inv by (simp_all add: web_stop_inv_def)
  have awake: "wpc s i \<noteq> WWait" using p(1) pc(1) by (simp add: pill_inv_def)
  show ?thesis
  proof (cases "mutex_donation s")
    case None
    with worker_advances [OF inv wf _ pc(3) awake] free pc(2) all show ?thesis by auto
  next
    case (Some n)
    then obtain j where j: "mutex_donation s = Some (Suc j)" using inv by (cases n) (auto simp: web_stop_inv_def)
    then have up: "updating (wpc s j)" using p(2) unfolding balance_inv_def by blast
    then have "wpc s j \<noteq> WLock" "wpc s j \<noteq> WExit" "wpc s j \<noteq> WWait" "\<nexists>fd n v. wpc s j = WDonationLock fd n v" by auto
    moreover from this(1) have "j < created cfg s" using not_created [OF p(1)] by (meson not_le)
    ultimately show ?thesis using worker_advances [OF inv wf] free by blast
  qed
qed

text \<open>The worker that holds the mutex of the queue goes on.\<close>

lemma holder_advances:
  assumes inv: "web_stop_inv cfg s" and wf: "well_formed cfg s" and held: "mutex_queue s = Some (Suc j)"
  shows "\<exists>u. web_next cfg s (Worker j Failed) = Some u \<and> well_formed cfg u \<and> web_rank cfg u < web_rank cfg s"
proof -
  have "worker_locks (wpc s j)" using inv held unfolding web_stop_inv_def lock_inv_def by blast
  then have pc: "wpc s j \<noteq> WLock" "wpc s j \<noteq> WExit" "wpc s j \<noteq> WWait" "\<nexists>fd n v. wpc s j = WDonationLock fd n v" by auto
  moreover from this(1) have "j < created cfg s" using inv not_created unfolding web_stop_inv_def by (meson not_le)
  ultimately show ?thesis using worker_advances [OF inv wf] held by blast
qed

text \<open>The events but those of a worker that wakes up by itself.\<close>

fun by_thread :: "web_event \<Rightarrow> bool" where
  "by_thread (Spurious j) = False"
| "by_thread _ = True"

lemma web_advances:
  assumes inv: "web_stop_inv cfg s" and wf: "well_formed cfg s" and pc: "mpc s \<noteq> MExit"
  shows "\<exists>e u. web_next cfg s e = Some u \<and> by_thread e \<and> well_formed cfg u \<and> web_rank cfg u < web_rank cfg s"
proof (cases "\<exists>j. mutex_queue s = Some (Suc j)")
  case True
  with holder_advances [OF inv wf] show ?thesis using by_thread.simps(3) by blast
next
  case False
  then have free: "mutex_queue s = None \<or> mutex_queue s = Some 0" by (metis not_None_eq not0_implies_Suc)
  have l: "mutex_queue s = Some 0 \<longleftrightarrow> main_locks (mpc s)" using inv by (simp add: web_stop_inv_def lock_inv_def)
  show ?thesis
  proof (cases "\<exists>i. mpc s = MJoin i \<and> i < workers cfg \<and> wpc s i \<noteq> WExit")
    case True
    then obtain i where i: "mpc s = MJoin i" "i < workers cfg" "wpc s i \<noteq> WExit" by blast
    with l free have "mutex_queue s = None" by auto
    from joined_worker_advances [OF inv wf this i] show ?thesis using by_thread.simps(3) by blast
  next
    case False
    then show ?thesis using web_main_advances [OF inv wf free pc] by_thread.simps(2) by blast
  qed
qed

section \<open>The server can be stopped\<close>

text \<open>The steps of the threads after which no request is pending that overruns an array.\<close>

definition parsing_next :: "'d web_cfg \<Rightarrow> 'd web \<Rightarrow> web_event \<Rightarrow> 'd web option" where
  "parsing_next cfg s e =
     Option.bind (web_next cfg s e) (\<lambda>u. if by_thread e \<and> well_formed cfg u then Some u else None)"

lemma parsing_next_iff:
  "parsing_next cfg s e = Some u \<longleftrightarrow> web_next cfg s e = Some u \<and> by_thread e \<and> well_formed cfg u"
  by (auto simp: parsing_next_def split: Option.bind_splits)

lemma parsing_run: "run (parsing_next cfg) s es = Some t \<Longrightarrow> run (web_next cfg) s es = Some t \<and> list_all by_thread es"
proof (induction es arbitrary: s)
  case (Cons e es)
  then obtain u where "parsing_next cfg s e = Some u" "run (parsing_next cfg) u es = Some t"
    by (auto split: option.splits)
  with Cons.IH show ?case by (simp add: parsing_next_iff)
qed simp

interpretation web_end: machine_can "parsing_next cfg" "\<lambda>s. web_stop_inv cfg s \<and> well_formed cfg s"
    "\<lambda>s. web_stop_inv cfg s \<and> well_formed cfg s" "web_rank cfg" "\<lambda>s. mpc s = MExit" for cfg
proof
  fix s assume "web_stop_inv cfg s \<and> well_formed cfg s" "mpc s \<noteq> MExit"
  then obtain e u where "web_next cfg s e = Some u" "by_thread e" "well_formed cfg u" "web_rank cfg u < web_rank cfg s"
    using web_advances by blast
  then have "parsing_next cfg s e = Some u" "web_rank cfg u < web_rank cfg s" by (simp_all add: parsing_next_iff)
  then have "run (parsing_next cfg) s [e] = Some u \<and> web_rank cfg u < web_rank cfg s" by simp
  then show "\<exists>es t. run (parsing_next cfg) s es = Some t \<and> web_rank cfg t < web_rank cfg s" by blast
qed (auto simp: parsing_next_iff intro: web_stop_inv_step)

interpretation stop: machine_inv "web_next cfg" "\<lambda>s. s = web_init cfg" "web_stop_inv cfg" for cfg
  by unfold_locales (auto intro: web_stop_inv_init web_stop_inv_step)

text \<open>C8: Once main has left its loop, wherever the workers are, with no request pending that overruns an
  array: there is a schedule, with reads that fail and no spurious wake-up, under which main hands a
  poison pill to every worker, wakes those that sleep, joins them all and exits. No worker sleeps
  through the end, and no order of the locks keeps the server from it.\<close>

theorem web_can_stop:
  assumes "reach (web_next cfg) (web_init cfg) s" "stopping (mpc s)" "\<not> undefined_behaviour s"
    "\<And>j fd bs. wpc s j = WParse fd bs \<Longrightarrow> parse_request (strtod_fun cfg) (stack cfg) (cstr (bs @ [0])) \<noteq> None"
  shows "\<exists>es t. list_all by_thread es \<and> run (web_next cfg) s es = Some t \<and> mpc t = MExit \<and> (\<forall>j<workers cfg. wpc t j = WExit)
    \<and> \<not> undefined_behaviour t"
proof -
  have start: "web_stop_inv cfg s \<and> well_formed cfg s"
    using stop.reach_inv [OF assms(1) refl] assms(2-4) unfolding well_formed_def by blast
  from web_end.finishes [OF this] obtain es t where t: "run (parsing_next cfg) s es = Some t" "mpc t = MExit" by blast
  have "web_stop_inv cfg t \<and> well_formed cfg t" by (rule web_end.run_inv [OF start t(1)])
  moreover have "web_join_inv cfg t" using joins.run_inv [OF joins.reach_inv [OF assms(1) refl]] parsing_run [OF t(1)] by blast
  ultimately show ?thesis using t(2) parsing_run [OF t(1)] by (auto simp: well_formed_def web_join_inv_def)
qed

text \<open>Two connections, of which the first asks to shut the server down.\<close>

definition stop_schedule :: "web_event list" where
  "stop_schedule = start @ connect 5 @ serve 0 stop_request @ map (Worker 0) [Done, Done, Done] @ connect 6"

theorem web_can_stop_witness:
  "\<exists>s. run (web_next web_example) (web_init web_example) stop_schedule = Some s
     \<and> (\<exists>es t. list_all by_thread es \<and> run (web_next web_example) s es = Some t \<and> mpc t = MExit
          \<and> (\<forall>j<workers web_example. wpc t j = WExit) \<and> \<not> undefined_behaviour t)"
proof -
  have "case run (web_next web_example) (web_init web_example) stop_schedule of None \<Rightarrow> False
    | Some s \<Rightarrow> mpc s = MPillLock \<and> \<not> undefined_behaviour s \<and> wpc s 0 = WLock \<and> wpc s 1 = WLock"
    by code_simp
  then obtain s where s: "run (web_next web_example) (web_init web_example) stop_schedule = Some s"
      "mpc s = MPillLock" "\<not> undefined_behaviour s" "wpc s 0 = WLock" "wpc s 1 = WLock"
    by (auto split: option.splits)
  note r = run_reach [OF s(1)]
  have "wpc s j \<noteq> WParse fd bs" for j fd bs
  proof (cases "j < 2")
    case False
    from stop.reach_inv [OF r refl] have "pill_inv web_example s" "created web_example s \<le> 2"
      by (simp_all add: web_stop_inv_def socket_inv_def web_example_def)
    with False not_created [of web_example s j] show ?thesis by simp
  qed (use s(4,5) in \<open>auto simp: less_2_cases_iff\<close>)
  with web_can_stop [OF r _ s(3)] s(1,2) show ?thesis by auto
qed

end
