(* ===== verification/DiceMain.thy ===== *)
theory DiceMain
  imports DiceGame
begin

text \<open>
  The rest of \<^verbatim>\<open>exercise10/task1/task1.c\<close>: the game of \<open>DiceGame\<close> can always be played to its end,
  and \<^verbatim>\<open>main\<close>, which creates the players, joins them and frees the state.
\<close>

section \<open>The distance to the end of the game\<close>

fun dice_rank :: "dice_pc \<Rightarrow> nat" where
  "dice_rank DWhile = 13"
| "dice_rank DRoll = 12"
| "dice_rank (DArrive B1) = 11"
| "dice_rank (DWait B1) = 10"
| "dice_rank DMax = 9"
| "dice_rank (DArrive B2) = 8"
| "dice_rank (DWait B2) = 7"
| "dice_rank DCheck = 6"
| "dice_rank DElim = 5"
| "dice_rank (DArrive B3) = 4"
| "dice_rank (DWait B3) = 3"
| "dice_rank (DArrive B4) = 2"
| "dice_rank (DWait B4) = 1"
| "dice_rank DEnd = 0"

text \<open>Rolls with which a round eliminates exactly one player.\<close>

definition target :: "nat \<Rightarrow> game_state \<Rightarrow> nat \<Rightarrow> int" where
  "target p s i = (if i = Min (players p s) then 6 else 1)"

text \<open>The round will eliminate a player, or can be made to.\<close>

fun decisive :: "nat \<Rightarrow> game_state \<Rightarrow> phase \<Rightarrow> bool" where
  "decisive p s Rolling = (\<forall>i \<in> players p s. dpc s i \<in> {DArrive B1, DWait B1} \<longrightarrow> rolls s i = target p s i)"
| "decisive p s Judging = (\<exists>i \<in> players p s. \<exists>j \<in> players p s. rolls s i \<noteq> rolls s j)"
| "decisive p s Eliminating = (current_max_count s \<noteq> n s
     \<and> (\<exists>i \<in> players p s. dpc s i \<in> {DCheck, DElim} \<and> rolls s i = current_max s))"
| "decisive p s Closing = False"

definition tied :: "nat \<Rightarrow> game_state \<Rightarrow> bool" where
  "tied p s \<longleftrightarrow> (\<forall>ph. (\<forall>i<p. in_phase ph (dpc s i)) \<longrightarrow> \<not> decisive p s ph)"

definition dice_meas :: "nat \<Rightarrow> game_state \<Rightarrow> nat" where
  "dice_meas p s = nat (n s) * (2 * (13 * p + 1)) + (if tied p s then 13 * p + 1 else 0) + (\<Sum>i<p. dice_rank (dpc s i))"

lemma tied_mono:
  assumes "0 < p" "\<forall>i<p. in_phase ph (dpc s i)" "\<forall>i<p. in_phase ph' (dpc t i)" "decisive p s ph \<Longrightarrow> decisive p t ph'"
    "tied p t"
  shows "tied p s"
  unfolding tied_def
proof (intro allI impI)
  fix q assume "\<forall>i<p. in_phase q (dpc s i)"
  with assms(1,2) have "q = ph" using phase_unique by blast
  with assms show "\<not> decisive p s q" by (auto simp: tied_def)
qed

lemma meas_less:
  assumes "n t = n s" "tied p t \<Longrightarrow> tied p s" "(\<Sum>i<p. dice_rank (dpc t i)) < (\<Sum>i<p. dice_rank (dpc s i))"
  shows "dice_meas p t < dice_meas p s"
  using assms by (auto simp: dice_meas_def)

text \<open>A step of one thread inside its phase.\<close>

lemma stay_less:
  assumes i: "i < p" and ph: "\<forall>j<p. in_phase ph (dpc s j)" and t: "dpc t = (dpc s)(i := q)" "in_phase ph q"
    and rank: "dice_rank q < dice_rank (dpc s i)" and same: "n t = n s" and dec: "decisive p s ph \<Longrightarrow> decisive p t ph"
  shows "dice_meas p t < dice_meas p s"
proof (rule meas_less [OF same])
  have p: "0 < p" using i by simp
  have "\<forall>j<p. in_phase ph (dpc t j)" using ph t(2) by (simp add: t(1))
  from tied_mono [OF p ph this dec] show "tied p t \<Longrightarrow> tied p s" by simp
  show "(\<Sum>i<p. dice_rank (dpc t i)) < (\<Sum>i<p. dice_rank (dpc s i))"
    by (rule sum_fun_upd_less [OF i]) (simp_all add: t(1) rank)
qed

lemma decisive_kept:
  assumes "decisive p s Eliminating" "players p t = players p s" "current_max_count t = current_max_count s" "n t = n s"
    "rolls t = rolls s" "current_max t = current_max s"
    and "\<And>j. j \<in> players p s \<Longrightarrow> dpc s j \<in> {DCheck, DElim} \<Longrightarrow> rolls s j = current_max s \<Longrightarrow>
      current_max_count s \<noteq> n s \<Longrightarrow> dpc t j \<in> {DCheck, DElim}"
  shows "decisive p t Eliminating"
proof -
  obtain j where "j \<in> players p s" "dpc s j \<in> {DCheck, DElim}" "rolls s j = current_max s" "current_max_count s \<noteq> n s"
    using assms(1) by auto
  with assms(7) [OF this] assms(2-6) show ?thesis unfolding decisive.simps by auto
qed

text \<open>The value of \<^verbatim>\<open>rand()\<close> that brings the game on.\<close>

definition choice :: "nat \<Rightarrow> game_state \<Rightarrow> nat \<Rightarrow> nat" where
  "choice p s i = (if dpc s i = DRoll \<and> i = Min (players p s) then 5 else 0)"

lemma local_less:
  assumes inv: "dice_inv p s" and i: "i < p" and pc: "dpc s i \<in> {DWhile, DRoll, DMax, DCheck, DElim}"
  shows "\<exists>t. dice_step p s i (choice p s i) = Some t \<and> dice_meas p t < dice_meas p s"
proof -
  note ph = dice_inv_phase [OF inv i]
  consider "dpc s i = DWhile" | "dpc s i = DRoll" | "dpc s i = DMax" | "dpc s i = DCheck" | "dpc s i = DElim"
    using pc by blast
  then show ?thesis
  proof cases
    case 1
    let ?q = "if n s > 1 then DRoll else DEnd"
    let ?t = "s\<lparr>dpc := (dpc s)(i := ?q)\<rparr>"
    have "\<forall>j<p. in_phase Rolling (dpc s j)" using ph [of Rolling] 1 by simp
    then have "dice_meas p ?t < dice_meas p s"
      by (rule stay_less [OF i]) (use 1 in \<open>auto simp: target_def players_def split: if_splits\<close>)
    then show ?thesis using 1 by (simp add: dice_step_def)
  next
    case 2
    define f where "f = (if loser s i then rolls s else (rolls s)(i := int (choice p s i) mod 6 + 1))"
    let ?t = "s\<lparr>rolls := f, dpc := (dpc s)(i := DArrive B1)\<rparr>"
    have step: "dice_step p s i (choice p s i) = Some ?t" using 2 by (simp add: dice_step_def f_def)
    have R: "\<forall>j<p. in_phase Rolling (dpc s j)" using ph [of Rolling] 2 by simp
    have f: "i \<in> players p s \<Longrightarrow> f i = target p s i" "\<And>j. j \<noteq> i \<Longrightarrow> f j = rolls s j"
      using 2 by (auto simp: f_def choice_def target_def players_def)
    have same: "players p ?t = players p s" "target p ?t = target p s" by (simp_all add: players_def target_def [abs_def])
    have "decisive p ?t Rolling" if "decisive p s Rolling"
      unfolding decisive.simps same
    proof (intro ballI impI)
      fix j assume j: "j \<in> players p s" "dpc ?t j \<in> {DArrive B1, DWait B1}"
      show "rolls ?t j = target p s j"
        by (cases "j = i") (use f j that in auto)
    qed
    then have "dice_meas p ?t < dice_meas p s"
      by (intro stay_less [OF i R, where q = "DArrive B1"]) (use 2 in simp_all)
    with step show ?thesis by blast
  next
    case 3
    obtain m k where mk: "max_loop (map (rolls s) [0..<p]) = (m, k)" by (rule prod.exhaust)
    let ?t = "s\<lparr>current_max := m, current_max_count := k, dpc := (dpc s)(i := DArrive B2)\<rparr>"
    have "\<forall>j<p. in_phase Judging (dpc s j)" using ph [of Judging] 3 by simp
    then have "dice_meas p ?t < dice_meas p s"
      by (rule stay_less [OF i, where q = "DArrive B2"]) (use 3 in \<open>auto simp: players_def\<close>)
    then show ?thesis using 3 mk by (simp add: dice_step_def)
  next
    case 4
    let ?q = "if \<not> loser s i \<and> current_max_count s \<noteq> n s \<and> rolls s i = current_max s then DElim else DArrive B3"
    let ?t = "s\<lparr>dpc := (dpc s)(i := ?q)\<rparr>"
    have E: "\<forall>j<p. in_phase Eliminating (dpc s j)" using ph [of Eliminating] 4 by simp
    have P: "players p ?t = players p s" by (simp add: players_def)
    have "decisive p ?t Eliminating" if "decisive p s Eliminating"
      by (rule decisive_kept [OF that P]) (auto simp: players_def)
    then have "dice_meas p ?t < dice_meas p s"
      by (intro stay_less [OF i E, where q = ?q]) (use 4 in simp_all)
    moreover have "dice_step p s i (choice p s i) = Some ?t" using 4 by (simp add: dice_step_def)
    ultimately show ?thesis by blast
  next
    case 5
    let ?t = "s\<lparr>n := n s - 1, rolls := (rolls s)(i := 0), loser := (loser s)(i := True), dpc := (dpc s)(i := DArrive B3)\<rparr>"
    have "n s \<ge> 1" using inv by (simp add: dice_inv_def dice_common_def)
    then have "nat (n s) = Suc (nat (n ?t))" by simp
    moreover have "(\<Sum>j<p. dice_rank (dpc ?t j)) < (\<Sum>j<p. dice_rank (dpc s j))"
      by (rule sum_fun_upd_less [OF i]) (simp_all add: 5)
    ultimately have "dice_meas p ?t < dice_meas p s" by (simp add: dice_meas_def)
    then show ?thesis using 5 by (simp add: dice_step_def)
  qed
qed

text \<open>The last thread to arrive.\<close>

lemma release_less:
  assumes i: "i < p" and ph: "\<forall>j<p. in_phase ph (dpc s j)" "in_phase ph (DArrive b)" and pc: "dpc s i = DArrive b"
    and all: "\<forall>j<p. j = i \<or> waiting (dpc s j)" and t: "t = s\<lparr>dpc := release (dpc s) i b 0\<rparr>" and b: "b \<noteq> B4"
    and new: "\<forall>j<p. in_phase ph' (dpc t j)" and dec: "decisive p s ph \<Longrightarrow> decisive p t ph'"
  shows "dice_meas p t < dice_meas p s"
proof (rule meas_less)
  have p: "0 < p" using i by simp
  show "n t = n s" by (simp add: t)
  from tied_mono [OF p ph(1) new dec] show "tied p t \<Longrightarrow> tied p s" by simp
  have old: "dpc s j = DWait b" if "j < p" "j \<noteq> i" for j using that ph all by (auto intro: waiting_in_phase)
  have "dice_rank (dpc t j) < dice_rank (dpc s j)" if "j < p" for j
    using old [OF that] pc b by (cases b; cases "j = i") (auto simp: t release_def)
  then show "(\<Sum>j<p. dice_rank (dpc t j)) < (\<Sum>j<p. dice_rank (dpc s j))"
    using p by (intro sum_strict_mono) auto
qed

lemma next_round_less:
  assumes i: "i < p" and C: "\<forall>j<p. in_phase Closing (dpc s j)" and t: "n t = n s" "\<forall>j<p. dpc t j = DWhile"
  shows "dice_meas p t < dice_meas p s"
proof -
  have p: "0 < p" using i by simp
  have "decisive p t Rolling" "\<forall>j<p. in_phase Rolling (dpc t j)" using t(2) by (auto simp: players_def)
  then have "\<not> tied p t" unfolding tied_def by blast
  moreover have "tied p s" unfolding tied_def
  proof (intro allI impI)
    fix ph assume "\<forall>j<p. in_phase ph (dpc s j)"
    with C p have "ph = Closing" using phase_unique by blast
    then show "\<not> decisive p s ph" by simp
  qed
  moreover have "(\<Sum>j<p. dice_rank (dpc t j)) = 13 * p" using t(2) by simp
  ultimately show ?thesis using t(1) by (simp add: dice_meas_def)
qed

lemma two_players:
  assumes "n s = int (card (players p s))" "n s > 1"
  shows "\<exists>i \<in> players p s. \<exists>j \<in> players p s. target p s i \<noteq> target p s j"
proof -
  have "card (players p s) > 1" using assms by simp
  then obtain i j where ij: "i \<in> players p s" "j \<in> players p s" "i \<noteq> j"
    using card_le_Suc0_iff_eq [OF finite_players, of p s] by auto
  have "Min (players p s) \<in> players p s" using ij(1) by (intro Min_in) auto
  moreover obtain k where "k \<in> players p s" "k \<noteq> Min (players p s)" using ij by metis
  moreover have "target p s (Min (players p s)) = 6" by (simp add: target_def)
  moreover have "target p s k = 1" using calculation(3) by (simp add: target_def)
  ultimately show ?thesis by (intro bexI [of _ "Min (players p s)"] bexI [of _ k]) simp_all
qed

text \<open>Between the second and the third barrier the highest roll is known.\<close>

lemma judged_decisive:
  assumes j: "judged p s" "rolled p s" "\<forall>i<p. loser s i \<longrightarrow> rolls s i = 0" and n: "n s = int (card (players p s))"
    and d: "decisive p s Judging" and t: "dpc t = q" "\<forall>i<p. q i = DCheck" "n t = n s" "rolls t = rolls s" "loser t = loser s"
      "current_max t = current_max s" "current_max_count t = current_max_count s"
  shows "decisive p t Eliminating"
proof -
  have ne: "players p s \<noteq> {}" using d by auto
  note c = judged_count [OF j ne]
  have P: "players p t = players p s" by (rule players_cong [OF t(5)])
  let ?top = "{i \<in> players p s. rolls s i = current_max s}"
  have "?top \<noteq> players p s"
  proof
    assume top: "?top = players p s"
    obtain a b where ab: "a \<in> players p s" "b \<in> players p s" "rolls s a \<noteq> rolls s b" using d by auto
    from ab(1,2) top have "a \<in> ?top" "b \<in> ?top" by simp_all
    with ab(3) show False by simp
  qed
  then have "card ?top < card (players p s)" by (intro psubset_card_mono) auto
  then have "current_max_count s \<noteq> n s" using c(1) n by simp
  moreover have "?top \<noteq> {}"
  proof -
    have m: "current_max s = Max (insert 0 (set (map (rolls s) [0..<p])))"
      using j(1) max_loop_max [of "map (rolls s) [0..<p]"] by (simp add: judged_def)
    then have "current_max s \<in> insert 0 (set (map (rolls s) [0..<p]))" unfolding m by (intro Max_in) auto
    with c(2) obtain i where "i < p" "rolls s i = current_max s" by auto
    moreover from this c(2) j(3) have "\<not> loser s i" by fastforce
    ultimately show ?thesis by (auto simp: players_def)
  qed
  then obtain i where "i \<in> players p s" "rolls s i = current_max s" by blast
  moreover from this(1) have "i < p" by (simp add: players_def)
  ultimately show ?thesis using t P by auto
qed

lemma arrive_less:
  assumes inv: "dice_inv p s" and i: "i < p" and pc: "dpc s i = DArrive b"
  shows "\<exists>t. dice_step p s i 0 = Some t \<and> dice_meas p t < dice_meas p s"
proof -
  have common: "n s = int (card (players p s))" "\<forall>j<p. loser s j \<longrightarrow> rolls s j = 0"
    using inv by (simp_all add: dice_inv_def dice_common_def)
  obtain ph where ph: "\<forall>j<p. in_phase ph (dpc s j)" "phase_inv p s ph"
    using inv by (auto simp: dice_inv_def)
  then have b: "in_phase ph (DArrive b)" using i pc by metis
  show ?thesis
  proof (cases "\<forall>j<p. j = i \<or> waiting (dpc s j)")
    case False
    let ?t = "s\<lparr>dpc := (dpc s)(i := DWait b)\<rparr>"
    have P: "players p ?t = players p s" "target p ?t = target p s" by (simp_all add: players_def target_def [abs_def])
    have "decisive p ?t ph" if d: "decisive p s ph"
    proof (cases ph)
      case Eliminating
      with d have "decisive p ?t Eliminating" by (intro decisive_kept [OF _ P(1)]) (auto simp: pc)
      with Eliminating show ?thesis by simp
    qed (use pc P d in auto)
    moreover have "in_phase ph (DWait b)" "dice_rank (DWait b) < dice_rank (dpc s i)"
      using b pc by (cases ph; cases b; simp)+
    ultimately have "dice_meas p ?t < dice_meas p s"
      by (intro stay_less [OF i ph(1), where q = "DWait b"]) simp_all
    with False pc show ?thesis by (auto simp: dice_step_def list_all_iff)
  next
    case all: True
    let ?t = "s\<lparr>dpc := release (dpc s) i b 0\<rparr>"
    have step: "dice_step p s i 0 = Some ?t" using all pc i by (simp add: dice_step_def list_all_iff)
    have old: "dpc s j = DWait b" if "j < p" "j \<noteq> i" for j using that ph b all by (auto intro: waiting_in_phase)
    then have new: "dpc ?t j = after_barrier b (j = 0)" if "j < p" for j using that by (auto simp: release_def)
    have P: "players p ?t = players p s" by (simp add: players_def)
    note less = release_less [OF i ph(1) b pc all refl]
    have "dice_meas p ?t < dice_meas p s"
    proof (cases b)
      case B1
      then have R: "ph = Rolling" using b phase_arrive by fastforce
      with ph(2) i pc B1 have "n s > 1" by auto
      note two = two_players [OF common(1) this]
      have "decisive p ?t Judging" if "decisive p s ph"
      proof -
        have "rolls s j = target p s j" if "j \<in> players p s" for j
          using \<open>decisive p s ph\<close> R that old [of j] pc B1 by (cases "j = i") (auto simp: players_def)
        with two P show ?thesis by (simp only: decisive.simps) auto
      qed
      with new B1 show ?thesis by (intro less [of Judging]) auto
    next
      case B2
      then have J: "ph = Judging" using b phase_arrive by fastforce
      have "dpc s j \<noteq> DMax" if "j < p" for j using old [OF that] pc by (cases "j = i") auto
      with ph(2) J have "judged p s" "rolled p s" by auto
      from judged_decisive [OF this common(2,1), of ?t "dpc ?t"] new B2 J have "decisive p s ph \<Longrightarrow> decisive p ?t Eliminating"
        by simp
      with new B2 show ?thesis by (intro less [of Eliminating]) auto
    next
      case B3
      then have E: "ph = Eliminating" using b phase_arrive by fastforce
      have "dpc s j \<notin> {DCheck, DElim}" if "j < p" for j using old [OF that] pc by (cases "j = i") auto
      then have "\<not> decisive p s ph" by (auto simp: E players_def)
      with new B3 show ?thesis by (intro less [of Closing]) auto
    next
      case B4
      then have "ph = Closing" using b phase_arrive by fastforce
      with ph(1) new B4 show ?thesis by (intro next_round_less [OF i]) auto
    qed
    with step show ?thesis by blast
  qed
qed

lemma dice_advance:
  assumes inv: "dice_inv p s" and more: "\<not> dice_over p s"
  shows "\<exists>e t. dice_next p s e = Some t \<and> dice_meas p t < dice_meas p s"
proof -
  obtain i where i: "i < p" "\<not> waiting (dpc s i)" using inv by (auto simp: dice_inv_def dice_common_def)
  obtain j where j: "j < p" "\<not> waiting (dpc s j)" "dpc s j \<noteq> DEnd"
  proof (cases "dpc s i = DEnd")
    case True
    with dice_inv_phase [OF inv i(1), of Rolling]
    have R: "\<forall>k<p. in_phase Rolling (dpc s k)" "phase_inv p s Rolling" by auto
    obtain j where j: "j < p" "dpc s j \<noteq> DEnd" using more by (auto simp: dice_over_def)
    have "n s \<le> 1" using R(2) True i(1) by simp
    then have "dpc s j \<notin> {DRoll, DArrive B1, DWait B1}" using R(2) j(1) by auto
    moreover have "in_phase Rolling (dpc s j)" using R(1) j(1) by blast
    ultimately have "dpc s j = DWhile" using j(2) by simp
    with j that show ?thesis by simp
  qed (use that i in blast)
  have "\<exists>c t. dice_step p s j c = Some t \<and> dice_meas p t < dice_meas p s"
  proof (cases "\<exists>b. dpc s j = DArrive b")
    case True
    with arrive_less [OF inv j(1)] show ?thesis by blast
  next
    case False
    with j have "dpc s j \<in> {DWhile, DRoll, DMax, DCheck, DElim}" by (cases "dpc s j") auto
    with local_less [OF inv j(1)] show ?thesis by blast
  qed
  then obtain c t where "dice_step p s j c = Some t" "dice_meas p t < dice_meas p s" by blast
  with j(1) have "dice_next p s (j, c) = Some t \<and> dice_meas p t < dice_meas p s" by simp
  then show ?thesis by blast
qed

interpretation dice_end: machine_can "dice_next p" "\<lambda>s. 0 < p \<and> s = dice_init p" "dice_inv p" "dice_meas p" "dice_over p" for p
proof
  fix s assume "dice_inv p s" "\<not> dice_over p s"
  from dice_advance [OF this] obtain e t where "dice_next p s e = Some t" "dice_meas p t < dice_meas p s" by blast
  then have "run (dice_next p) s [e] = Some t \<and> dice_meas p t < dice_meas p s" by simp
  then show "\<exists>es t. run (dice_next p) s es = Some t \<and> dice_meas p t < dice_meas p s" by blast
qed

text \<open>Whatever has happened, the game can be played to its end.\<close>

theorem dice_can_end:
  assumes "reach (dice_next p) (dice_init p) s" "0 < p"
  shows "\<exists>es t. run (dice_next p) s es = Some t \<and> dice_over p t"
  using dice_end.finishes_reach [OF assms(1)] assms(2) by blast

theorem dice_can_end_witness:
  "\<exists>es t. run (dice_next 3) (dice_init 3) es = Some t \<and> dice_over 3 t"
  by (rule dice_can_end [OF reach_start]) simp

section \<open>Main\<close>

datatype main_pc = MCreate nat | MJoin nat | MFree int | MDestroy int | MExit int

text \<open>
  \<open>made\<close> counts the threads that have been created, \<open>winners\<close> are the lines \<^verbatim>\<open>Player %d won the game\<close>.
  \<open>use_after_free\<close>: a thread has used the state after \<^verbatim>\<open>free\<close>.
\<close>

record table =
  game :: game_state
  made :: nat
  mpc :: main_pc
  winners :: "nat list"
  freed :: bool
  use_after_free :: bool

definition table_init :: "nat \<Rightarrow> table" where
  "table_init p = \<lparr>game = dice_init p, made = 0, mpc = MCreate 0, winners = [], freed = False, use_after_free = False\<rparr>"

text \<open>The arguments and the result of \<^verbatim>\<open>pthread_barrier_init\<close>: an exit code or the number of players.\<close>

definition dice_setup :: "cstring list \<Rightarrow> int \<Rightarrow> int + nat \<times> table" where
  "dice_setup argv barrier =
     (case dice_args argv of
        None \<Rightarrow> Inl 1
      | Some p \<Rightarrow> if barrier \<noteq> 0 then Inl 1 else Inr (p, table_init p))"

text \<open>The places at which a thread reads or writes the state.\<close>

definition touches :: "game_state \<Rightarrow> nat \<Rightarrow> bool" where
  "touches g i =
     (case dpc g i of
        DWhile \<Rightarrow> True
      | DRoll \<Rightarrow> \<not> loser g i
      | DMax \<Rightarrow> True
      | DCheck \<Rightarrow> \<not> loser g i
      | DElim \<Rightarrow> True
      | _ \<Rightarrow> False)"

definition player_step :: "nat \<Rightarrow> table \<Rightarrow> nat \<Rightarrow> nat \<Rightarrow> table option" where
  "player_step p s i c =
     (if i < made s
      then map_option
             (\<lambda>g. s\<lparr>game := g,
                    winners := (if dpc g i = DEnd \<and> \<not> loser g i then winners s @ [i] else winners s),
                    use_after_free := (use_after_free s \<or> freed s \<and> touches (game s) i)\<rparr>)
             (dice_next p (game s) (i, c))
      else None)"

text \<open>The first line of \<^verbatim>\<open>cleanup\<close>; the second destroys its copy of the barrier.\<close>

definition cleanup_free :: "int \<Rightarrow> table \<Rightarrow> table" where
  "cleanup_free code s = s\<lparr>freed := True, mpc := MDestroy code\<rparr>"

declare cleanup_free_def [simp]

text \<open>Main; \<open>ok\<close>: the call of \<^verbatim>\<open>pthread_create\<close> or \<^verbatim>\<open>pthread_join\<close> succeeds.\<close>

definition dice_main :: "nat \<Rightarrow> table \<Rightarrow> bool \<Rightarrow> table option" where
  "dice_main p s ok =
     (case mpc s of
        MCreate i \<Rightarrow>
          Some (if p \<le> i then s\<lparr>mpc := MJoin 0\<rparr>
                else if ok then s\<lparr>made := i + 1, mpc := MCreate (i + 1)\<rparr>
                else s\<lparr>mpc := MFree 1\<rparr>)
      | MJoin i \<Rightarrow>
          if p \<le> i then Some (s\<lparr>mpc := MFree 0\<rparr>)
          else if \<not> ok then Some (s\<lparr>mpc := MFree 1\<rparr>)
          else if dpc (game s) i = DEnd then Some (s\<lparr>mpc := MJoin (i + 1)\<rparr>)
          else None
      | MFree code \<Rightarrow> Some (cleanup_free code s)
      | MDestroy code \<Rightarrow> Some (s\<lparr>mpc := MExit code\<rparr>)
      | MExit code \<Rightarrow> None)"

datatype table_event = Main bool | Player nat nat

fun left :: "main_pc \<Rightarrow> bool" where
  "left (MExit code) = True"
| "left _ = False"

fun table_next :: "nat \<Rightarrow> table \<Rightarrow> table_event \<Rightarrow> table option" where
  "table_next p s (Main ok) = dice_main p s ok"
| "table_next p s (Player i c) = (if left (mpc s) then None else player_step p s i c)"

section \<open>What main returns\<close>

lemma step_keeps_ended:
  assumes "dice_next p g (i, c) = Some h"
  shows "dpc g j = DEnd \<Longrightarrow> dpc h j = DEnd \<and> loser h j = loser g j"
    "dpc h j = DEnd \<Longrightarrow> dpc g j = DEnd \<or> j = i \<and> dpc g j = DWhile" "dpc g i \<noteq> DEnd" "i < p"
proof -
  have s: "dice_step p g i c = Some h" and i: "i < p" using assms by (auto split: if_splits)
  have b: "after_barrier b x \<noteq> DEnd" for b x by (cases b) auto
  have r: "release pc i b w k = DEnd \<longleftrightarrow> k \<noteq> i \<and> pc k = DEnd" for pc b w k
    using b by (auto simp: release_def split: dice_pc.splits)
  show "dpc g j = DEnd \<Longrightarrow> dpc h j = DEnd \<and> loser h j = loser g j"
    "dpc h j = DEnd \<Longrightarrow> dpc g j = DEnd \<or> j = i \<and> dpc g j = DWhile" "dpc g i \<noteq> DEnd" "i < p"
    using s i r by (cases "dpc g i"; auto simp: dice_step_def split: if_splits prod.splits)+
qed

definition ended :: "nat \<Rightarrow> game_state \<Rightarrow> nat set" where
  "ended p g = {i. i < p \<and> dpc g i = DEnd \<and> \<not> loser g i}"

fun joined :: "nat \<Rightarrow> main_pc \<Rightarrow> nat" where
  "joined p (MJoin i) = i"
| "joined p (MFree code) = (if code = 0 then p else 0)"
| "joined p (MDestroy code) = (if code = 0 then p else 0)"
| "joined p (MExit code) = (if code = 0 then p else 0)"
| "joined p (MCreate i) = 0"

fun failed :: "main_pc \<Rightarrow> bool" where
  "failed (MFree code) = (code \<noteq> 0)"
| "failed (MDestroy code) = (code \<noteq> 0)"
| "failed (MExit code) = (code \<noteq> 0)"
| "failed _ = False"

fun creation :: "nat \<Rightarrow> main_pc \<Rightarrow> nat \<Rightarrow> bool" where
  "creation p (MCreate i) m = (m = i \<and> i \<le> p)"
| "creation p pc m = (failed pc \<or> m = p)"

fun freeing :: "main_pc \<Rightarrow> bool" where
  "freeing (MDestroy code) = True"
| "freeing (MExit code) = True"
| "freeing _ = False"

definition table_inv :: "nat \<Rightarrow> table \<Rightarrow> bool" where
  "table_inv p s \<longleftrightarrow> dice_inv p (game s) \<and> distinct (winners s) \<and> set (winners s) = ended p (game s)
     \<and> joined p (mpc s) \<le> p \<and> (\<forall>j < joined p (mpc s). dpc (game s) j = DEnd)
     \<and> creation p (mpc s) (made s)
     \<and> (freed s \<longleftrightarrow> freeing (mpc s)) \<and> (use_after_free s \<longrightarrow> failed (mpc s))"

lemma player_inv:
  assumes inv: "table_inv p s" and step: "player_step p s i c = Some u" and running: "\<not> left (mpc s)"
  shows "table_inv p u"
proof -
  obtain g where g: "dice_next p (game s) (i, c) = Some g" "i < made s"
      "u = s\<lparr>game := g, winners := (if dpc g i = DEnd \<and> \<not> loser g i then winners s @ [i] else winners s),
             use_after_free := (use_after_free s \<or> freed s \<and> touches (game s) i)\<rparr>"
    using step by (auto simp: player_step_def split: if_splits)
  note keep = step_keeps_ended [OF g(1)]
  have e: "ended p g = (if dpc g i = DEnd \<and> \<not> loser g i then insert i (ended p (game s)) else ended p (game s))"
    using keep by (auto simp: ended_def)
  have new: "i \<notin> ended p (game s)" using keep(3) by (simp add: ended_def)
  have w: "distinct (winners u) \<and> set (winners u) = ended p g"
    using inv new by (auto simp: g(3) e table_inv_def)
  have j: "dpc g j = DEnd" if "j < joined p (mpc s)" for j
    using keep(1) inv that by (auto simp: table_inv_def)
  have "failed (mpc s)" if "freed s"
  proof (rule ccontr)
    assume ok: "\<not> failed (mpc s)"
    have "freeing (mpc s)" using inv that by (simp add: table_inv_def)
    with ok have "joined p (mpc s) = p" by (cases "mpc s") auto
    with inv keep(4) have "dpc (game s) i = DEnd" by (simp add: table_inv_def)
    with keep(3) show False by simp
  qed
  moreover have "dice_inv p g" using dice_next_preserves [OF _ g(1)] inv by (simp add: table_inv_def)
  ultimately show ?thesis using inv w j unfolding table_inv_def by (simp add: g(3))
qed

lemma table_main_inv:
  assumes inv: "table_inv p s" and step: "dice_main p s ok = Some u"
  shows "table_inv p u"
proof (cases "mpc s")
  case (MJoin i)
  consider (join) "i < p" "dpc (game s) i = DEnd" "u = s\<lparr>mpc := MJoin (i + 1)\<rparr>"
    | (fail) "u = s\<lparr>mpc := MFree 1\<rparr>" | (over) "p \<le> i" "u = s\<lparr>mpc := MFree 0\<rparr>"
    using step MJoin by (auto simp: dice_main_def split: if_splits)
  then show ?thesis
    by cases (use inv MJoin in \<open>auto simp: table_inv_def less_Suc_eq\<close>)
qed (use inv step in \<open>auto simp: table_inv_def dice_main_def split: if_splits\<close>)

interpretation table: machine_inv "table_next p" "\<lambda>s. 0 < p \<and> s = table_init p" "table_inv p" for p
proof
  show "table_inv p s0" if "0 < p \<and> s0 = table_init p" for s0
    using that dice_inv_init [of p] by (simp add: table_inv_def table_init_def ended_def dice_init_def)
  show "table_inv p t" if inv: "table_inv p s" and step: "table_next p s e = Some t" for s e t
  proof (cases e)
    case (Main ok)
    with table_main_inv [OF inv] step show ?thesis by simp
  next
    case (Player i c)
    with player_inv [OF inv] step show ?thesis by (simp split: if_splits)
  qed
qed

lemma main_winner:
  assumes inv: "table_inv p s" and p: "0 < p" and pc: "mpc s = MExit 0"
  shows "\<exists>w. winners s = [w] \<and> w < p \<and> players p (game s) = {w} \<and> made s = p \<and> dice_over p (game s)
    \<and> \<not> use_after_free s"
proof -
  have over: "dice_over p (game s)" using inv pc by (simp add: table_inv_def dice_over_def)
  have "dpc (game s) 0 = DEnd" using over p by (simp add: dice_over_def)
  moreover have d: "dice_inv p (game s)" using inv by (simp add: table_inv_def)
  ultimately have "phase_inv p (game s) Rolling" using dice_inv_phase [OF d p, of Rolling] by simp
  with \<open>dpc (game s) 0 = DEnd\<close> p have "n (game s) \<le> 1" by simp
  then have "card (players p (game s)) = 1" using d by (simp add: dice_inv_def dice_common_def)
  then obtain w where w: "players p (game s) = {w}" by (auto simp: card_1_singleton_iff)
  then have "w < p" by (auto simp: players_def)
  have "ended p (game s) = players p (game s)" using over by (auto simp: ended_def players_def dice_over_def)
  with inv w have "distinct (winners s)" "set (winners s) = {w}" by (simp_all add: table_inv_def)
  then have "winners s = [w]" by (cases "winners s"; cases "tl (winners s)") auto
  with inv over w pc \<open>w < p\<close> show ?thesis by (simp add: table_inv_def)
qed

section \<open>Main can always return\<close>

lemma create_rest:
  "i \<le> p \<Longrightarrow> mpc s = MCreate i \<Longrightarrow> made s = i \<Longrightarrow>
    run (table_next p) s (replicate (p - i) (Main True)) = Some (s\<lparr>made := p, mpc := MCreate p\<rparr>)"
proof (induction "p - i" arbitrary: s i)
  case (Suc k)
  let ?s = "s\<lparr>made := i + 1, mpc := MCreate (i + 1)\<rparr>"
  have i: "i < p" "k = p - (i + 1)" using Suc.hyps(2) by simp_all
  have "run (table_next p) ?s (replicate (p - (i + 1)) (Main True)) = Some (?s\<lparr>made := p, mpc := MCreate p\<rparr>)"
    using Suc.hyps(1) [OF i(2), of ?s] i by simp
  then show ?case using Suc.prems i Suc.hyps(2) [symmetric] by (simp add: dice_main_def)
qed simp

text \<open>A run of the game is a run of the whole program.\<close>

lemma lift_game:
  assumes "run (dice_next p) (game s) es = Some g" "made s = p" "\<not> left (mpc s)"
  shows "\<exists>t. run (table_next p) s (map (\<lambda>(i, c). Player i c) es) = Some t \<and> game t = g \<and> mpc t = mpc s \<and> made t = p"
  using assms
proof (induction es arbitrary: s)
  case (Cons e es)
  obtain i c where e: "e = (i, c)" by (cases e)
  obtain h where h: "dice_next p (game s) (i, c) = Some h" "run (dice_next p) h es = Some g"
    using Cons.prems(1) by (auto simp: e simp del: dice_next.simps split: option.splits)
  have "i < made s" using step_keeps_ended(4) [OF h(1)] Cons.prems(2) by simp
  then obtain u where u: "player_step p s i c = Some u" "game u = h" "mpc u = mpc s" "made u = p"
    using h(1) Cons.prems(2) by (auto simp: player_step_def simp del: dice_next.simps)
  from Cons.IH [of u] u h(2) Cons.prems(3) show ?case by (auto simp: e)
qed simp

lemma join_rest:
  "dice_over p (game s) \<Longrightarrow> i \<le> p \<Longrightarrow> mpc s = MJoin i \<Longrightarrow>
    run (table_next p) s (replicate (p - i) (Main True)) = Some (s\<lparr>mpc := MJoin p\<rparr>)"
proof (induction "p - i" arbitrary: s i)
  case (Suc k)
  let ?s = "s\<lparr>mpc := MJoin (i + 1)\<rparr>"
  have i: "i < p" "k = p - (i + 1)" using Suc.hyps(2) by simp_all
  have "run (table_next p) ?s (replicate (p - (i + 1)) (Main True)) = Some (?s\<lparr>mpc := MJoin p\<rparr>)"
    using Suc.hyps(1) [OF i(2), of ?s] i Suc.prems(1) by simp
  moreover have "dpc (game s) i = DEnd" using Suc.prems(1) i(1) by (simp add: dice_over_def)
  ultimately show ?case using Suc.prems i Suc.hyps(2) [symmetric] by (simp add: dice_main_def)
qed simp

text \<open>How far main is.\<close>

fun main_stage :: "main_pc \<Rightarrow> nat" where
  "main_stage (MCreate i) = 4"
| "main_stage (MJoin i) = 3"
| "main_stage (MFree code) = 2"
| "main_stage (MDestroy code) = 1"
| "main_stage (MExit code) = 0"

definition healthy :: "nat \<Rightarrow> table \<Rightarrow> bool" where
  "healthy p s \<longleftrightarrow> table_inv p s \<and> \<not> failed (mpc s)"

definition healthy_next :: "nat \<Rightarrow> table \<Rightarrow> table_event \<Rightarrow> table option" where
  "healthy_next p s e = Option.bind (table_next p s e) (\<lambda>u. if failed (mpc u) then None else Some u)"

lemma failed_kept: "table_next p s e = Some u \<Longrightarrow> failed (mpc s) \<Longrightarrow> failed (mpc u)"
  by (cases e; cases "mpc s") (auto simp: dice_main_def player_step_def split: if_splits)

lemma run_failed: "run (table_next p) s es = Some u \<Longrightarrow> failed (mpc s) \<Longrightarrow> failed (mpc u)"
  by (induction es arbitrary: s) (auto split: option.splits dest: failed_kept)

lemma run_healthy:
  "run (healthy_next p) s es = Some u \<longleftrightarrow> run (table_next p) s es = Some u \<and> (es \<noteq> [] \<longrightarrow> \<not> failed (mpc u))"
proof (induction es arbitrary: s)
  case (Cons e es)
  show ?case
  proof (cases "table_next p s e")
    case (Some w)
    then show ?thesis
      using Cons run_failed [of p w es u] by (cases es) (auto simp: healthy_next_def)
  qed (simp add: healthy_next_def)
qed simp

lemma stage_advance:
  assumes p: "0 < p" and s: "healthy p s" and more: "mpc s \<noteq> MExit 0"
  shows "\<exists>es t. run (healthy_next p) s es = Some t \<and> main_stage (mpc t) < main_stage (mpc s)"
proof -
  have inv: "table_inv p s" "\<not> failed (mpc s)" using s by (simp_all add: healthy_def)
  have "\<exists>es t. run (table_next p) s es = Some t \<and> \<not> failed (mpc t) \<and> main_stage (mpc t) < main_stage (mpc s)"
  proof (cases "mpc s")
    case (MCreate i)
    then have i: "i \<le> p" "made s = i" using inv(1) by (simp_all add: table_inv_def)
    have "run (table_next p) s (replicate (p - i) (Main True) @ [Main True])
        = Some (s\<lparr>made := p, mpc := MJoin 0\<rparr>)"
      by (simp add: run_append create_rest [OF i(1) MCreate i(2)] dice_main_def)
    then show ?thesis using MCreate by (intro exI conjI) (assumption | simp)+
  next
    case (MJoin i)
    then have i: "i \<le> p" "made s = p" "dice_inv p (game s)" using inv(1) by (simp_all add: table_inv_def)
    obtain es g where g: "run (dice_next p) (game s) es = Some g" "dice_over p g"
      using dice_end.finishes [OF i(3)] by blast
    obtain t where t: "run (table_next p) s (map (\<lambda>(i, c). Player i c) es) = Some t" "game t = g" "mpc t = MJoin i"
      using lift_game [OF g(1) i(2)] MJoin by auto
    have "run (table_next p) s (map (\<lambda>(i, c). Player i c) es @ replicate (p - i) (Main True) @ [Main True])
        = Some (t\<lparr>mpc := MFree 0\<rparr>)"
      using join_rest [of p t i] t g(2) i(1) by (simp add: run_append dice_main_def)
    then show ?thesis using MJoin by (intro exI conjI) (assumption | simp)+
  next
    case (MFree c)
    then have "run (table_next p) s [Main True] = Some (s\<lparr>freed := True, mpc := MDestroy 0\<rparr>)"
      using inv(2) by (simp add: dice_main_def)
    then show ?thesis using MFree by (intro exI conjI) (assumption | simp)+
  next
    case (MDestroy c)
    then have "run (table_next p) s [Main True] = Some (s\<lparr>mpc := MExit 0\<rparr>)"
      using inv(2) by (simp add: dice_main_def)
    then show ?thesis using MDestroy by (intro exI conjI) (assumption | simp)+
  next
    case (MExit c)
    with more inv(2) show ?thesis by simp
  qed
  then show ?thesis by (auto simp: run_healthy)
qed

interpretation table_end: machine_can "healthy_next p" "\<lambda>s. 0 < p \<and> s = table_init p"
    "\<lambda>s. 0 < p \<and> healthy p s" "\<lambda>s. main_stage (mpc s)" "\<lambda>s. mpc s = MExit 0" for p
proof
  show "0 < p \<and> healthy p s0" if "0 < p \<and> s0 = table_init p" for s0
    using that table.inv_init [of p s0] by (simp add: healthy_def table_init_def)
  show "0 < p \<and> healthy p t" if "0 < p \<and> healthy p s" "healthy_next p s e = Some t" for s e t
    using that table.inv_step by (auto simp: healthy_def healthy_next_def split: bind_splits if_splits)
qed (use stage_advance in blast)

lemma main_can_end:
  assumes inv: "table_inv p s" "0 < p" "\<not> failed (mpc s)"
  shows "\<exists>es t. run (table_next p) s es = Some t \<and> mpc t = MExit 0"
proof -
  have "0 < p \<and> healthy p s" using assms by (simp add: healthy_def)
  from table_end.finishes [OF this] obtain es t where "run (healthy_next p) s es = Some t" "mpc t = MExit 0" by blast
  then show ?thesis by (auto simp: run_healthy)
qed

text \<open>C10: When main returns 0, every player has been created and has ended, exactly one line announces a
  winner, the winner is the only player that has not been eliminated, and no thread has used the
  state after it has been freed. As long as no call of main has failed, it can still get there,
  whatever the players have rolled.\<close>

theorem dice_main_result:
  assumes "reach (table_next p) (table_init p) s" "0 < p"
  shows "(mpc s = MExit 0 \<longrightarrow> (\<exists>w. winners s = [w] \<and> {i. i < p \<and> \<not> loser (game s) i} = {w} \<and> made s = p
        \<and> dice_over p (game s) \<and> \<not> use_after_free s))
    \<and> (\<not> failed (mpc s) \<longrightarrow> (\<exists>es t. run (table_next p) s es = Some t \<and> mpc t = MExit 0))"
proof -
  have inv: "table_inv p s" using table.reach_inv [OF assms(1)] assms(2) by blast
  show ?thesis using main_winner [OF inv assms(2)] main_can_end [OF inv assms(2)] by (auto simp: players_def)
qed

theorem dice_main_result_witness:
  "(\<exists>s. run (table_next 1) (table_init 1) [Main True, Main True, Player 0 0, Main True, Main True, Main True, Main True] = Some s
      \<and> winners s = [0] \<and> \<not> use_after_free s)
    \<and> (\<exists>es t. run (table_next 3) (table_init 3) es = Some t \<and> mpc t = MExit 0)"
proof
  obtain s where s: "run (table_next 1) (table_init 1)
      [Main True, Main True, Player 0 0, Main True, Main True, Main True, Main True] = Some s" "mpc s = MExit 0"
    by (simp add: table_init_def dice_main_def player_step_def dice_init_def dice_step_def)
  from dice_main_result [OF run_reach [OF s(1)]] s(2) obtain w where
    w: "winners s = [w]" "{i. i < 1 \<and> \<not> loser (game s) i} = {w}" "\<not> use_after_free s" by auto
  have "w = 0" using w(2) by auto
  with s(1) w show "\<exists>s. run (table_next 1) (table_init 1)
      [Main True, Main True, Player 0 0, Main True, Main True, Main True, Main True] = Some s
      \<and> winners s = [0] \<and> \<not> use_after_free s" by blast
  show "\<exists>es t. run (table_next 3) (table_init 3) es = Some t \<and> mpc t = MExit 0"
    using dice_main_result [OF reach_start, of 3] by (simp add: table_init_def)
qed

text \<open>When \<^verbatim>\<open>pthread_create\<close> fails, the state is freed while the players created before are running.\<close>

definition failed_schedule :: "table_event list" where
  "failed_schedule = [Main True, Main False, Main True, Player 0 0]"

theorem create_failure_race:
  "\<exists>s. run (table_next 2) (table_init 2) failed_schedule = Some s \<and> use_after_free s \<and> mpc s = MDestroy 1"
  by (simp add: failed_schedule_def table_init_def dice_main_def player_step_def dice_init_def dice_step_def touches_def)

end
