(* ===== verification/FileAdderMain.thy ===== *)
theory FileAdderMain
  imports FileAdder
begin

text \<open>
  The second half of \<^verbatim>\<open>main\<close> in \<^verbatim>\<open>exercise03/task3/task3b.c\<close>: it joins the threads of \<open>FileAdder\<close> one
  after the other and prints their sums.
\<close>

section \<open>The program\<close>

text \<open>An \<open>int\<close> in the memory, little endian, in two's complement.\<close>

definition int_at :: "u8 list \<Rightarrow> nat \<Rightarrow> int" where
  "int_at m a =
     signed_take_bit 31 (uint (m ! a) + 256 * uint (m ! (a + 1)) + 65536 * uint (m ! (a + 2))
       + 16777216 * uint (m ! (a + 3)))"

record adder_main =
  adder :: adder
  joined :: nat
  printed :: "int list"
  exited :: "int option"

definition main_start :: "u8 list \<Rightarrow> adder_main" where
  "main_start stack = \<lparr>adder = adder_start stack, joined = 0, printed = [], exited = None\<rparr>"

text \<open>Main's next call, of \<^verbatim>\<open>pthread_create\<close> or \<^verbatim>\<open>pthread_join\<close>, succeeds or not; \<open>Run i\<close> is a thread.\<close>

datatype main_event = Main bool | Run nat

definition main_create :: "(cstring \<Rightarrow> int list option) \<Rightarrow> cstring list \<Rightarrow> adder_main \<Rightarrow> bool \<Rightarrow> adder_main option" where
  "main_create files argv s ok =
     map_option (\<lambda>a. if ok then s\<lparr>adder := a\<rparr> else s\<lparr>exited := Some 1\<rparr>) (adder_next files argv (adder s) Create)"

definition main_join :: "adder_main \<Rightarrow> bool \<Rightarrow> adder_main option" where
  "main_join s ok =
     (if \<not> ok then Some (s\<lparr>exited := Some 1\<rparr>)
      else if done_with (adder s) (joined s) = None then None
      else Some (s\<lparr>printed := printed s @ [int_at (mem (adder s)) (sizeof_args * joined s + sum_offset)],
                   joined := joined s + 1\<rparr>))"

fun main_next :: "(cstring \<Rightarrow> int list option) \<Rightarrow> cstring list \<Rightarrow> adder_main \<Rightarrow> main_event \<Rightarrow> adder_main option" where
  "main_next files argv s e =
     (if exited s \<noteq> None then None
      else case e of
        Main ok \<Rightarrow>
          if created (adder s) < length argv - 1 then main_create files argv s ok
          else if joined s < length argv - 1 then main_join s ok
          else Some (s\<lparr>exited := Some 0\<rparr>)
      | Run i \<Rightarrow> map_option (\<lambda>a. s\<lparr>adder := a\<rparr>) (adder_next files argv (adder s) (Thread i)))"

declare main_next.simps [simp del]

section \<open>Integers in the memory\<close>

lemma int_at_take:
  assumes "take 4 (drop a m) = int_bytes v" "in_int v" "a + 4 \<le> length m"
  shows "int_at m a = v"
proof -
  have nth: "m ! (a + k) = int_bytes v ! k" if "k < 4" for k
    using that assms(3) by (simp flip: assms(1))
  have bytes: "uint (m ! a) = v mod 256" "uint (m ! (a + 1)) = v div 256 mod 256"
    "uint (m ! (a + 2)) = v div 65536 mod 256" "uint (m ! (a + 3)) = v div 16777216 mod 256"
    using nth [of 0] nth [of 1] nth [of 2] nth [of 3]
    by (simp_all add: int_bytes_def uint_word_of_int)
  have "v mod 4294967296 = 16777216 * (v div 16777216 mod 256) + v mod 16777216"
    "v mod 16777216 = 65536 * (v div 65536 mod 256) + v mod 65536"
    "v mod 65536 = 256 * (v div 256 mod 256) + v mod 256"
    using zmod_zmult2_eq [where a = v and b = 16777216 and c = 256]
      zmod_zmult2_eq [where a = v and b = 65536 and c = 256] zmod_zmult2_eq [where a = v and b = 256 and c = 256]
    by (simp_all only: mult_num_simps numeral_times_numeral arith_simps)
  then have sum: "v mod 256 + 256 * (v div 256 mod 256) + 65536 * (v div 65536 mod 256) + 16777216 * (v div 16777216 mod 256)
      = v mod 4294967296" by (simp only: ac_simps)
  have "(4294967296 :: int) = 2 ^ 32" by simp
  then have "int_at m a = signed_take_bit 31 (take_bit 32 v)"
    unfolding int_at_def bytes sum take_bit_eq_mod by (rule arg_cong)
  also have "\<dots> = signed_take_bit 31 v" by (simp add: signed_take_bit_take_bit)
  also have "\<dots> = v" using assms(2) by (intro signed_take_bit_int_eq_self) (simp_all add: in_int_def INT_MIN_def INT_MAX_def)
  finally show ?thesis .
qed

lemma sum_ints_Some: "sum_ints acc vs = Some v \<Longrightarrow> in_int acc \<Longrightarrow> v = acc + sum_list vs \<and> in_int v"
  by (induction vs arbitrary: acc) (fastforce simp: int_add_def split: if_splits)+

lemma write_bytes_drop:
  assumes "write_bytes m a bs = Some m'" "a + length bs \<le> b"
  shows "drop b m' = drop b m"
  using assms by (auto simp: write_bytes_def drop_append split: if_splits)

section \<open>The invariant\<close>

definition file_sum :: "(cstring \<Rightarrow> int list option) \<Rightarrow> cstring \<Rightarrow> int" where
  "file_sum files name = (case files name of None \<Rightarrow> 0 | Some nums \<Rightarrow> sum_list nums)"

text \<open>What the threads have left in the memory and what a thread can still find there.\<close>

definition sums_inv :: "(cstring \<Rightarrow> int list option) \<Rightarrow> cstring list \<Rightarrow> adder \<Rightarrow> bool" where
  "sums_inv files argv a \<longleftrightarrow>
     (\<forall>k < created a. \<exists>v. take 4 (drop (sizeof_args * k + sum_offset) (mem a)) = int_bytes v \<and> in_int v
        \<and> v = (case done_with a k of None \<Rightarrow> 0 | Some f \<Rightarrow> file_sum files f))
     \<and> (\<forall>k f. done_with a k = Some f \<longrightarrow> k < created a \<and> f \<in> {argv ! (k + 1), [of_nat (k + 1)]})
     \<and> (created a \<noteq> 0 \<longrightarrow> name_at (mem a) (created a - 1) = argv ! created a)"

lemma sums_done:
  assumes "sums_inv files argv a" "done_with a k = Some f"
  shows "take 4 (drop (sizeof_args * k + sum_offset) (mem a)) = int_bytes (file_sum files f)" "in_int (file_sum files f)"
proof -
  have "k < created a" using assms unfolding sums_inv_def by blast
  then have "\<exists>v. take 4 (drop (sizeof_args * k + sum_offset) (mem a)) = int_bytes v \<and> in_int v
        \<and> v = (case done_with a k of None \<Rightarrow> 0 | Some f \<Rightarrow> file_sum files f)"
    using assms(1) unfolding sums_inv_def by blast
  then show "take 4 (drop (sizeof_args * k + sum_offset) (mem a)) = int_bytes (file_sum files f)"
    "in_int (file_sum files f)" by (simp_all add: assms(2))
qed

lemma sums_create:
  assumes argv: "list_all c_string argv" and s: "sums_inv files argv a" and step: "adder_next files argv a Create = Some u"
  shows "sums_inv files argv u"
proof -
  let ?i = "created a"
  obtain m1 m2 m3 where m: "write_bytes (mem a) (sizeof_args * ?i) (int_bytes (int ?i)) = Some m1"
      "write_bytes m1 (sizeof_args * ?i + sum_offset) (int_bytes 0) = Some m2"
      "write_bytes m2 (sizeof_args * ?i + name_offset) (strdup (argv ! (?i + 1))) = Some m3"
      "u = a\<lparr>mem := m3, created := ?i + 1\<rparr>" "?i < length argv - 1"
    using step by (auto simp: init_element_def split: if_splits Option.bind_splits)
  note w = write_bytes_Some [OF m(1)] write_bytes_Some [OF m(2)] write_bytes_Some [OF m(3)]
  have fresh: "done_with a ?i = None" using s by (cases "done_with a ?i") (auto simp: sums_inv_def)
  have new: "take 4 (drop (sizeof_args * ?i + sum_offset) m3) = int_bytes 0"
    using w(7) w(12) [of "sizeof_args * ?i + sum_offset" 4] by (simp add: sum_offset_def name_offset_def)
  have old: "take 4 (drop (sizeof_args * k + sum_offset) m3) = take 4 (drop (sizeof_args * k + sum_offset) (mem a))" if "k < ?i" for k
  proof -
    have "sizeof_args * k + sum_offset + 4 \<le> sizeof_args * ?i" using that by (simp add: sizeof_args_def sum_offset_def)
    then show ?thesis
      using w(4) [of "sizeof_args * k + sum_offset" 4] w(8) [of "sizeof_args * k + sum_offset" 4]
        w(12) [of "sizeof_args * k + sum_offset" 4] by simp
  qed
  have "c_string (argv ! (?i + 1))" using argv m(5) by (simp add: list_all_length)
  moreover have "drop (sizeof_args * ?i + name_offset) m3 = strdup (argv ! (?i + 1))
      @ drop (sizeof_args * ?i + name_offset + length (strdup (argv ! (?i + 1)))) m2"
    using m(3) by (auto simp: write_bytes_def split: if_splits)
  ultimately have name: "name_at m3 ?i = argv ! (?i + 1)" by (simp add: name_at_def strdup_def)
  have "\<exists>v. take 4 (drop (sizeof_args * k + sum_offset) m3) = int_bytes v \<and> in_int v
        \<and> v = (case done_with a k of None \<Rightarrow> 0 | Some f \<Rightarrow> file_sum files f)" if "k < ?i + 1" for k
  proof (cases "k = ?i")
    case True
    with new fresh show ?thesis by (simp add: in_int_def INT_MIN_def INT_MAX_def)
  next
    case False
    with that have "k < ?i" by simp
    with s old [OF this] show ?thesis by (simp add: sums_inv_def)
  qed
  moreover have "\<forall>k f. done_with a k = Some f \<longrightarrow> k < ?i + 1 \<and> f \<in> {argv ! (k + 1), [of_nat (k + 1)]}"
    using s unfolding sums_inv_def by (meson less_SucI add.commute trans_less_add1)
  ultimately show ?thesis using name by (simp add: sums_inv_def m(4))
qed

lemma sums_thread:
  assumes name: "\<And>k. k + 1 < created a \<Longrightarrow> name_at (mem a) k = [of_nat (k + 1)]"
    and s: "sums_inv files argv a" and step: "adder_next files argv a (Thread i) = Some u"
  shows "sums_inv files argv u"
proof -
  let ?f = "name_at (mem a) i"
  obtain m where m: "thread_add files (mem a) i = Some m" "u = a\<lparr>mem := m, done_with := (done_with a)(i \<mapsto> ?f)\<rparr>"
      "i < created a" "done_with a i = None"
    using step by (auto split: if_splits)
  have f: "?f \<in> {argv ! (i + 1), [of_nat (i + 1)]}"
  proof (cases "i + 1 < created a")
    case False
    with m(3) have "created a = i + 1" by simp
    with s show ?thesis by (simp add: sums_inv_def)
  qed (use name in simp)
  have sum: "\<exists>v. take 4 (drop (sizeof_args * i + sum_offset) m) = int_bytes v \<and> in_int v \<and> v = file_sum files ?f"
    and frame: "\<And>k. k \<noteq> i \<Longrightarrow> take 4 (drop (sizeof_args * k + sum_offset) m) = take 4 (drop (sizeof_args * k + sum_offset) (mem a))"
    and behind: "name_at m (created a - 1) = name_at (mem a) (created a - 1)"
  proof -
    have "(\<exists>v. take 4 (drop (sizeof_args * i + sum_offset) m) = int_bytes v \<and> in_int v \<and> v = file_sum files ?f)
      \<and> (\<forall>k. k \<noteq> i \<longrightarrow> take 4 (drop (sizeof_args * k + sum_offset) m) = take 4 (drop (sizeof_args * k + sum_offset) (mem a)))
      \<and> name_at m (created a - 1) = name_at (mem a) (created a - 1)"
    proof (cases "files ?f")
      case None
      then have "m = mem a" using m(1) by (simp add: thread_add_def)
      with None s m(3,4) show ?thesis by (fastforce simp: sums_inv_def file_sum_def)
    next
      case (Some nums)
      then obtain v where some: "sum_ints 0 nums = Some v"
          "write_bytes (mem a) (sizeof_args * i + sum_offset) (int_bytes v) = Some m"
        using m(1) by (auto simp: thread_add_def split: Option.bind_splits)
      note w = write_bytes_Some [OF some(2)]
      have v: "v = sum_list nums" "in_int v" using sum_ints_Some [OF some(1)] by (auto simp: in_int_def INT_MIN_def INT_MAX_def)
      have "sizeof_args * k + sum_offset + 4 \<le> sizeof_args * i + sum_offset
          \<or> sizeof_args * i + sum_offset + 4 \<le> sizeof_args * k + sum_offset" if "k \<noteq> i" for k
        using that by (cases "k < i") (simp_all add: sizeof_args_def)
      then have "\<forall>k. k \<noteq> i \<longrightarrow> take 4 (drop (sizeof_args * k + sum_offset) m) = take 4 (drop (sizeof_args * k + sum_offset) (mem a))"
        using w(4) [of _ 4] by simp
      moreover have "sizeof_args * i + sum_offset + 4 \<le> sizeof_args * (created a - 1) + name_offset"
        using m(3) by (simp add: sizeof_args_def sum_offset_def name_offset_def)
      then have "name_at m (created a - 1) = name_at (mem a) (created a - 1)"
        using write_bytes_drop [OF some(2)] by (simp add: name_at_def)
      ultimately show ?thesis using w(3) v Some by (auto simp: file_sum_def)
    qed
    then show "\<exists>v. take 4 (drop (sizeof_args * i + sum_offset) m) = int_bytes v \<and> in_int v \<and> v = file_sum files ?f"
      "\<And>k. k \<noteq> i \<Longrightarrow> take 4 (drop (sizeof_args * k + sum_offset) m) = take 4 (drop (sizeof_args * k + sum_offset) (mem a))"
      "name_at m (created a - 1) = name_at (mem a) (created a - 1)" by blast+
  qed
  have "\<exists>v. take 4 (drop (sizeof_args * k + sum_offset) m) = int_bytes v \<and> in_int v
        \<and> v = (case done_with u k of None \<Rightarrow> 0 | Some f \<Rightarrow> file_sum files f)" if "k < created a" for k
    using s sum frame [of k] that by (cases "k = i") (simp_all add: sums_inv_def m(2))
  with s f behind m(3) show ?thesis by (simp add: sums_inv_def m(2))
qed

definition main_inv :: "nat \<Rightarrow> (cstring \<Rightarrow> int list option) \<Rightarrow> cstring list \<Rightarrow> adder_main \<Rightarrow> bool" where
  "main_inv L files argv s \<longleftrightarrow> adder_inv L argv (adder s) \<and> sums_inv files argv (adder s)
     \<and> joined s \<le> created (adder s)
     \<and> (joined s \<noteq> 0 \<or> exited s = Some 0 \<longrightarrow> created (adder s) = length argv - 1)
     \<and> (\<forall>k < joined s. done_with (adder s) k \<noteq> None)
     \<and> printed s = map (\<lambda>k. file_sum files (the (done_with (adder s) k))) [0..<joined s]
     \<and> (exited s = Some 0 \<longrightarrow> joined s = length argv - 1)"

text \<open>When a thread ends or is created, what has been joined stays.\<close>

lemma done_kept:
  assumes "adder_next files argv a e = Some u" "done_with a k = Some f"
  shows "done_with u k = Some f"
  using assms by (cases e) (auto split: if_splits)

lemma main_inv_adder:
  assumes argv: "list_all c_string argv" "adder_args argv" and inv: "main_inv L files argv s" "exited s = None"
    and step: "adder_next files argv (adder s) e = Some a"
  shows "main_inv L files argv (s\<lparr>adder := a\<rparr>)"
proof -
  have i: "adder_inv L argv (adder s)" "sums_inv files argv (adder s)" using inv by (simp_all add: main_inv_def)
  have "adder_inv L argv a" using step adder_inv_create [OF i(1)] adder_inv_thread [OF i(1)] by (cases e) auto
  moreover have "sums_inv files argv a"
  proof (cases e)
    case Create
    with sums_create [OF argv(1) i(2)] step show ?thesis by simp
  next
    case (Thread k)
    with sums_thread [OF name_overwritten_inv [OF i(1) argv(2)] i(2)] step show ?thesis by simp
  qed
  moreover have "created (adder s) \<le> created a \<and> (created (adder s) = length argv - 1 \<longrightarrow> created a = length argv - 1)"
    using step by (cases e) (auto split: if_splits)
  moreover have kept: "\<exists>f. done_with (adder s) k = Some f \<and> done_with a k = Some f" if "k < joined s" for k
    using that inv done_kept [OF step] by (auto simp: main_inv_def)
  then have "map (\<lambda>k. file_sum files (the (done_with (adder s) k))) [0..<joined s]
      = map (\<lambda>k. file_sum files (the (done_with a k))) [0..<joined s]" by fastforce
  moreover have "done_with a k \<noteq> None" if "k < joined s" for k using kept [OF that] by auto
  ultimately show ?thesis using inv by (auto simp: main_inv_def)
qed

lemma main_inv_join:
  assumes inv: "main_inv L files argv s" "exited s = None" and more: "created (adder s) = length argv - 1" "joined s < length argv - 1"
    and step: "main_join s ok = Some u"
  shows "main_inv L files argv u"
proof (cases ok)
  case True
  let ?j = "joined s"
  obtain f where f: "done_with (adder s) ?j = Some f"
      "u = s\<lparr>printed := printed s @ [int_at (mem (adder s)) (sizeof_args * ?j + sum_offset)], joined := ?j + 1\<rparr>"
    using step True by (auto simp: main_join_def split: if_splits)
  have "?j < created (adder s)" using more by simp
  moreover from this have "sizeof_args * ?j + name_offset < length (mem (adder s))"
    using inv(1) by (simp add: main_inv_def adder_inv_def)
  moreover have "sums_inv files argv (adder s)" using inv(1) by (simp add: main_inv_def)
  note sums_done [OF this f(1)]
  ultimately have at: "int_at (mem (adder s)) (sizeof_args * ?j + sum_offset) = file_sum files f"
    by (intro int_at_take) (simp_all add: sum_offset_def name_offset_def)
  show ?thesis using inv more f at unfolding main_inv_def by (simp add: less_Suc_eq)
next
  case False
  with step inv show ?thesis by (auto simp: main_join_def main_inv_def)
qed

lemma main_inv_step:
  assumes argv: "list_all c_string argv" "adder_args argv" and inv: "main_inv L files argv s"
    and step: "main_next files argv s e = Some u"
  shows "main_inv L files argv u"
proof -
  have running: "exited s = None" using step by (auto simp: main_next.simps split: if_splits)
  show ?thesis
  proof (cases e)
    case (Run i)
    then obtain a where "adder_next files argv (adder s) (Thread i) = Some a" "u = s\<lparr>adder := a\<rparr>"
      using step running by (auto simp: main_next.simps)
    with main_inv_adder [OF argv inv running] show ?thesis by blast
  next
    case (Main ok)
    have le: "created (adder s) \<le> length argv - 1" using inv by (simp add: main_inv_def adder_inv_def)
    consider (create) a where "adder_next files argv (adder s) Create = Some a"
          "u = (if ok then s\<lparr>adder := a\<rparr> else s\<lparr>exited := Some 1\<rparr>)"
      | (join) "created (adder s) = length argv - 1" "joined s < length argv - 1" "main_join s ok = Some u"
      | (exit) "created (adder s) = length argv - 1" "joined s = length argv - 1" "u = s\<lparr>exited := Some 0\<rparr>"
    proof (cases "created (adder s) < length argv - 1")
      case True
      then have "main_create files argv s ok = Some u" using step running Main by (simp add: main_next.simps)
      then show thesis using create by (auto simp: main_create_def)
    next
      case False
      then have "joined s < length argv - 1 \<or> joined s = length argv - 1" using inv le by (auto simp: main_inv_def)
      with False le step running Main join exit show thesis by (auto simp: main_next.simps split: if_splits)
    qed
    then show ?thesis
    proof cases
      case create
      with main_inv_adder [OF argv inv running create(1)] inv show ?thesis by (auto simp: main_inv_def)
    next
      case join
      with main_inv_join [OF inv running] show ?thesis by blast
    next
      case exit
      with inv show ?thesis by (simp add: main_inv_def)
    qed
  qed
qed

interpretation adder_main: machine_inv "main_next files argv"
    "\<lambda>s. list_all c_string argv \<and> adder_args argv \<and> s = main_start stack"
    "\<lambda>s. list_all c_string argv \<and> adder_args argv \<and> main_inv (length stack) files argv s"
proof
  show "list_all c_string argv \<and> adder_args argv \<and> main_inv (length stack) files argv s0"
    if "list_all c_string argv \<and> adder_args argv \<and> s0 = main_start stack" for s0
    using that by (simp add: main_inv_def main_start_def adder_inv_def sums_inv_def adder_start_def)
qed (use main_inv_step in blast)

section \<open>What is printed\<close>


definition example_files :: "cstring \<Rightarrow> int list option" where
  "example_files f = (if f = bytes ''one.txt'' then Some [1, 2] else if f = [1] then None else Some [40])"

definition example_schedule :: "main_event list" where
  "example_schedule = [Main True, Run 0, Main True, Run 1, Main True, Main True, Main True]"

definition late_schedule :: "main_event list" where
  "late_schedule = [Main True, Main True, Run 1, Run 0, Main True, Main True, Main True]"

text \<open>The first thread finds its name in one schedule and the number of the second in another.\<close>

lemma example_runs:
  "(case run (main_next example_files two_files) (main_start (replicate 40 7)) example_schedule of
      None \<Rightarrow> False | Some s \<Rightarrow> exited s = Some 0 \<and> printed s = [3, 40])"
  "(case run (main_next example_files two_files) (main_start (replicate 40 7)) late_schedule of
      None \<Rightarrow> False | Some s \<Rightarrow> exited s = Some 0 \<and> printed s = [0, 40])"
  by code_simp+


end
